(* ===== verification/LK_Prelude.thy ===== *)
theory LK_Prelude
  imports Main "HOL-Library.Word" "HOL-Library.Monad_Syntax"
begin

text \<open>
  Shared vocabulary of the development: the machine types of the 64-bit build, the status codes
  of \<^verbatim>\<open>include/err.h\<close>, the assertion primitive, the compiler built-ins and the power-of-two helpers
  of \<^verbatim>\<open>include/pow2.h\<close>, and the generic list and word lemmas the component theories rely on.

  Conventions used throughout:
  \<^item> a computation that may stop the machine returns an \<open>option\<close>; \<open>None\<close> stands for a call of
    \<^verbatim>\<open>panic\<close> (a failed \<^verbatim>\<open>ASSERT\<close> or \<^verbatim>\<open>DEBUG_ASSERT\<close>; the product is built with \<^verbatim>\<open>DEBUG=2\<close>, so
    both are compiled in) or for an access outside the object it is meant for;
  \<^item> an error that the code returns to its caller is a value (a negative status), never \<open>None\<close>;
  \<^item> the intrusive lists (\<^verbatim>\<open>struct list_node\<close>) are represented by the sequence of the objects
    linked in them, head first.
\<close>

unbundle bit_operations_syntax

section \<open>Types and status codes\<close>

type_synonym u8 = "8 word"
type_synonym u16 = "16 word"
type_synonym u32 = "32 word"
type_synonym u64 = "64 word"
type_synonym status = int

definition NO_ERROR :: status where "NO_ERROR = 0"
definition ERR_GENERIC :: status where "ERR_GENERIC = -1"
definition ERR_NOT_FOUND :: status where "ERR_NOT_FOUND = -2"
definition ERR_NOT_READY :: status where "ERR_NOT_READY = -3"
definition ERR_NO_MEMORY :: status where "ERR_NO_MEMORY = -5"
definition ERR_NOT_SUSPENDED :: status where "ERR_NOT_SUSPENDED = -10"
definition ERR_OBJECT_DESTROYED :: status where "ERR_OBJECT_DESTROYED = -11"
definition ERR_NOT_BLOCKED :: status where "ERR_NOT_BLOCKED = -12"
definition ERR_TIMED_OUT :: status where "ERR_TIMED_OUT = -13"
definition ERR_BAD_PATH :: status where "ERR_BAD_PATH = -18"
definition ERR_ALREADY_MOUNTED :: status where "ERR_ALREADY_MOUNTED = -19"
definition ERR_NOT_DIR :: status where "ERR_NOT_DIR = -21"
definition ERR_RECURSE_TOO_DEEP :: status where "ERR_RECURSE_TOO_DEEP = -23"
definition ERR_NOT_SUPPORTED :: status where "ERR_NOT_SUPPORTED = -24"
definition ERR_THREAD_DETACHED :: status where "ERR_THREAD_DETACHED = -26"

named_theorems status_defs \<open>the numeric values of the status codes\<close>

lemmas [status_defs] = NO_ERROR_def ERR_GENERIC_def ERR_NOT_FOUND_def ERR_NOT_READY_def
  ERR_NO_MEMORY_def ERR_NOT_SUSPENDED_def ERR_OBJECT_DESTROYED_def ERR_NOT_BLOCKED_def
  ERR_TIMED_OUT_def ERR_BAD_PATH_def ERR_ALREADY_MOUNTED_def ERR_NOT_DIR_def
  ERR_RECURSE_TOO_DEEP_def ERR_NOT_SUPPORTED_def ERR_THREAD_DETACHED_def

section \<open>Assertions\<close>

definition ASSERT :: "bool \<Rightarrow> unit option" where
  "ASSERT c = (if c then Some () else None)"

lemma ASSERT_bind [simp]: "(ASSERT c \<bind> f = Some y) \<longleftrightarrow> c \<and> f () = Some y"
  by (simp add: ASSERT_def)

lemma ASSERT_True [simp]: "c \<Longrightarrow> ASSERT c \<bind> f = f ()"
  by (simp add: ASSERT_def)

lemma ASSERT_False [simp]: "\<not> c \<Longrightarrow> ASSERT c \<bind> f = None"
  by (simp add: ASSERT_def)

lemma bind_Some_iff: "(m \<bind> f = Some y) \<longleftrightarrow> (\<exists>x. m = Some x \<and> f x = Some y)"
  by (cases m) simp_all

section \<open>Memory\<close>

text \<open>
  \<^verbatim>\<open>memcpy\<close> into a buffer at an offset, and out of one; \<open>None\<close> when it would leave the buffer.
\<close>

definition memcpy_to :: "'a list \<Rightarrow> nat \<Rightarrow> 'a list \<Rightarrow> 'a list option" where
  "memcpy_to dst off src =
     (if off + length src \<le> length dst
      then Some (take off dst @ src @ drop (off + length src) dst) else None)"

definition memcpy_from :: "'a list \<Rightarrow> nat \<Rightarrow> nat \<Rightarrow> 'a list option" where
  "memcpy_from src off n = (if off + n \<le> length src then Some (take n (drop off src)) else None)"

lemma length_memcpy_to: "memcpy_to dst off src = Some dst' \<Longrightarrow> length dst' = length dst"
  by (auto simp: memcpy_to_def split: if_splits)

text \<open>A list with part of it overwritten.\<close>

definition overwrite :: "'a list \<Rightarrow> nat \<Rightarrow> 'a list \<Rightarrow> 'a list" where
  "overwrite b a x = take a b @ x @ drop (a + length x) b"

lemma memcpy_to_overwrite: "a + length x \<le> length b \<Longrightarrow> memcpy_to b a x = Some (overwrite b a x)"
  by (simp add: memcpy_to_def overwrite_def)

lemma length_overwrite [simp]: "a + length x \<le> length b \<Longrightarrow> length (overwrite b a x) = length b"
  by (simp add: overwrite_def)

lemma overwrite_Nil [simp]: "overwrite b a [] = b"
  by (simp add: overwrite_def)

lemma nth_overwrite:
  "a + length x \<le> length b \<Longrightarrow> i < length b \<Longrightarrow>
   overwrite b a x ! i = (if a \<le> i \<and> i < a + length x then x ! (i - a) else b ! i)"
  by (auto simp: overwrite_def nth_append)

lemma overwrite_append:
  "a + length x + length y \<le> length b \<Longrightarrow> overwrite (overwrite b a x) (a + length x) y = overwrite b a (x @ y)"
  by (rule nth_equalityI) (auto simp: nth_overwrite nth_append)

lemma overwrite_over:
  "length x = length y \<Longrightarrow> a + length x \<le> length b \<Longrightarrow> overwrite (overwrite b a x) a y = overwrite b a y"
  by (rule nth_equalityI) (auto simp: nth_overwrite)

lemma slice_overwrite: "a + length x \<le> length b \<Longrightarrow> take (length x) (drop a (overwrite b a x)) = x"
  by (rule nth_equalityI) (auto simp: nth_overwrite)

lemma slice_overwrite_in:
  "off + length x \<le> n \<Longrightarrow> base + n \<le> length b \<Longrightarrow>
   take n (drop base (overwrite b (base + off) x)) = overwrite (take n (drop base b)) off x"
  by (rule nth_equalityI) (auto simp: nth_overwrite)

lemma overwrite_slice:
  "off + length x \<le> n \<Longrightarrow> base + n \<le> length b \<Longrightarrow>
   overwrite b base (overwrite (take n (drop base b)) off x) = overwrite b (base + off) x"
  by (rule nth_equalityI) (auto simp: nth_overwrite)

lemma slice_overwrite_other:
  "a + length x \<le> length b \<Longrightarrow> base + n \<le> length b \<Longrightarrow> base + n \<le> a \<or> a + length x \<le> base \<Longrightarrow>
   take n (drop base (overwrite b a x)) = take n (drop base b)"
  by (rule nth_equalityI) (auto simp: nth_overwrite)

section \<open>Powers of two\<close>

text \<open>\<^verbatim>\<open>include/pow2.h\<close>; the arguments are 32-bit unsigned values.\<close>

definition ispow2 :: "u32 \<Rightarrow> bool" where
  "ispow2 val \<longleftrightarrow> (val - 1) AND val = 0"

text \<open>\<^verbatim>\<open>__builtin_ctz\<close> and \<^verbatim>\<open>__builtin_clz\<close> on a non-zero 32-bit value.\<close>

fun ctz_from :: "nat \<Rightarrow> nat \<Rightarrow> u32 \<Rightarrow> nat" where
  "ctz_from 0 i w = 0"
| "ctz_from (Suc n) i w = (if bit w i then 0 else Suc (ctz_from n (Suc i) w))"

definition ctz32 :: "u32 \<Rightarrow> nat" where
  "ctz32 w = ctz_from 32 0 w"

fun clz_from :: "nat \<Rightarrow> u32 \<Rightarrow> nat" where
  "clz_from 0 w = 0"
| "clz_from (Suc n) w = (if bit w n then 0 else Suc (clz_from n w))"

definition clz32 :: "u32 \<Rightarrow> nat" where
  "clz32 w = clz_from 32 w"

definition log2_uint :: "u32 \<Rightarrow> nat" where
  "log2_uint val = (if \<not> ispow2 val then 0 else ctz32 val)"

definition valpow2 :: "nat \<Rightarrow> u32" where
  "valpow2 valp2 = push_bit valp2 1"

definition divpow2 :: "u32 \<Rightarrow> nat \<Rightarrow> u32" where
  "divpow2 val divp2 = drop_bit divp2 val"

definition modpow2 :: "u32 \<Rightarrow> nat \<Rightarrow> u32" where
  "modpow2 val modp2 = val AND ucast (push_bit modp2 (1 :: u64) - 1)"

lemma clz_from_spec:
  assumes "\<exists>i < n. bit w i"
  shows "clz_from n w < n \<and> bit w (n - 1 - clz_from n w) \<and>
         (\<forall>j < n. n - 1 - clz_from n w < j \<longrightarrow> \<not> bit w j)"
  using assms
proof (induction n)
  case 0
  then show ?case by simp
next
  case (Suc n)
  show ?case
  proof (cases "bit w n")
    case True
    then show ?thesis by simp
  next
    case False
    with Suc.prems have "\<exists>i < n. bit w i" by (metis less_Suc_eq)
    from Suc.IH [OF this] False show ?thesis
      by (auto simp: less_Suc_eq)
  qed
qed

lemma bit_exists_below_32:
  fixes w :: u32
  assumes "w \<noteq> 0"
  shows "\<exists>i < 32. bit w i"
proof -
  from assms obtain i where "bit w i"
    by (metis bit_eq_iff bit_0_eq bot_apply bot_bool_def)
  moreover then have "i < 32"
    using bit_imp_le_length [of w i] by simp
  ultimately show ?thesis by blast
qed

text \<open>The position the scheduler computes from the bitmap is the highest bit that is set.\<close>

lemma clz32_highest:
  fixes w :: u32
  assumes "w \<noteq> 0"
  shows "clz32 w < 32" "bit w (31 - clz32 w)" "31 - clz32 w < j \<Longrightarrow> \<not> bit w j"
proof -
  from clz_from_spec [OF bit_exists_below_32 [OF assms]]
  have *: "clz32 w < 32 \<and> bit w (31 - clz32 w) \<and> (\<forall>j < 32. 31 - clz32 w < j \<longrightarrow> \<not> bit w j)"
    by (simp add: clz32_def)
  then show "clz32 w < 32" "bit w (31 - clz32 w)" by simp_all
  show "31 - clz32 w < j \<Longrightarrow> \<not> bit w j"
    using * bit_imp_le_length [of w j] by (cases "j < 32") auto
qed

section \<open>Words that are powers of two\<close>

text \<open>The test \<^verbatim>\<open>w & (w - 1)\<close> of the code, masks, and rounding up to a multiple.\<close>

lemma odd_part: "0 < (n::nat) \<Longrightarrow> \<exists>k m. n = 2 ^ k * m \<and> odd m"
proof (induction n rule: less_induct)
  case (less n)
  show ?case
  proof (cases "odd n")
    case True
    thus ?thesis by (intro exI[of _ 0] exI[of _ n]) simp
  next
    case False
    then obtain h where h: "n = 2 * h" by (auto elim: evenE)
    then obtain k m where m: "h = 2 ^ k * m" "odd m" using less.IH[of h] less.prems by auto
    hence "n = 2 ^ Suc k * m" using h by simp
    thus ?thesis using m(2) by blast
  qed
qed

lemma and_pred_zero_nat:
  assumes "0 < (n::nat)" "n AND (n - 1) = 0"
  shows "\<exists>k. n = 2 ^ k"
proof -
  obtain k m where n: "n = 2 ^ k * m" "odd m" using odd_part[OF assms(1)] by blast
  then obtain j where m: "m = 2 * j + 1" by (metis oddE)
  have "n - 1 = 2 ^ k * (2 * j) + (2 ^ k - 1)" by (simp add: n m algebra_simps)
  moreover have "(2 ^ k * (2 * j) + (2 ^ k - 1)) div 2 ^ k = (2 * j :: nat)" by (subst div_mult_self4) simp_all
  ultimately have "drop_bit k (n - 1) = 2 * j" by (simp only: drop_bit_eq_div)
  moreover have "drop_bit k n = 2 * j + 1" by (simp add: n m drop_bit_eq_div)
  moreover have "drop_bit k (n AND (n - 1)) = 0" using assms(2) by simp
  ultimately have "(2 * j + 1) AND (2 * j) = 0" by (simp only: drop_bit_and)
  moreover have "(2 * j + 1) AND (2 * j) = 2 * j" 
  proof (rule bit_eqI)
    show "bit ((2 * j + 1) AND (2 * j)) i = bit (2 * j) i" for i
      unfolding bit_and_iff by (cases i) (simp_all add: bit_Suc bit_0)
  qed
  ultimately have "j = 0" by simp
  thus ?thesis using n m by auto
qed

lemma and_pred_zero_word:
  assumes "w \<noteq> 0" "w AND (w - 1) = (0 :: 'a::len word)"
  shows "\<exists>k < LENGTH('a). unat w = 2 ^ k"
proof -
  have "unat (w - 1) = unat w - 1" using assms(1) by (simp add: unat_minus_one)
  hence "unat w AND (unat w - 1) = 0" using assms(2) by (metis unsigned_and_eq unsigned_0)
  moreover have "0 < unat w" using assms(1) by (simp add: unat_gt_0)
  ultimately obtain k where k: "unat w = 2 ^ k" using and_pred_zero_nat by blast
  have "(2::nat) ^ k < 2 ^ LENGTH('a)" using unsigned_less[where 'a = nat, of w] k by simp
  hence "k < LENGTH('a)" by (rule power_less_imp_less_exp[rotated]) simp
  thus ?thesis using k by blast
qed

lemma unat_and_not_mask:
  fixes x :: "'a::len word"
  shows "unat (x AND NOT (mask k)) = unat x div 2 ^ k * 2 ^ k"
proof -
  have "unat (x AND NOT (mask k)) = push_bit k (drop_bit k (unat x))"
    by (rule bit_eqI) (auto simp: bit_simps dest: bit_imp_le_length)
  thus ?thesis by (simp add: push_bit_eq_mult drop_bit_eq_div)
qed

lemma pred_pow2:
  fixes b :: "'a::len word"
  assumes "unat b = 2 ^ k"
  shows "b - 1 = mask k" "k < LENGTH('a)"
proof -
  have "b = of_nat (2 ^ k)" unfolding assms[symmetric] by simp
  thus "b - 1 = mask k" by (simp add: mask_eq_exp_minus_1)
  have "(2::nat) ^ k < 2 ^ LENGTH('a)" using unsigned_less[where 'a = nat, of b] assms by simp
  thus "k < LENGTH('a)" by (rule power_less_imp_less_exp[rotated]) simp
qed

lemma unat_mask_lt: "k < LENGTH('a) \<Longrightarrow> unat (mask k :: 'a::len word) = 2 ^ k - 1"
proof -
  assume "k < LENGTH('a)"
  hence "unat (mask k :: 'a word) = mask k" by (intro bit_eqI) (auto simp: bit_simps)
  thus ?thesis by (simp add: mask_eq_exp_minus_1)
qed

lemma roundup_bounds:
  assumes "(0::nat) < d"
  shows "n \<le> (n + d - 1) div d * d" "(n + d - 1) div d * d < n + d"
  using mod_less_divisor[OF assms, of "n + d - 1"] assms unfolding minus_mod_eq_div_mult[symmetric] by linarith+

lemma unat_add64: "unat a + unat b < 2 ^ 64 \<Longrightarrow> unat (a + b :: u64) = unat a + unat b"
  by (simp add: unat_word_ariths)

lemma unat_ucast_up: "LENGTH('a::len) \<le> LENGTH('b::len) \<Longrightarrow> unat (ucast (w :: 'a word) :: 'b word) = unat w"
  by (simp add: unsigned_ucast_eq take_bit_nat_eq_self order_less_le_trans[OF unsigned_less])

lemma unat_mult_lt: "unat a * unat b < 2 ^ LENGTH('a) \<Longrightarrow> unat (a * b :: 'a::len word) = unat a * unat b"
  by (simp add: unat_word_ariths)

lemma unat_add_lt: "unat a + unat b < 2 ^ LENGTH('a) \<Longrightarrow> unat (a + b :: 'a::len word) = unat a + unat b"
  by (simp add: unat_word_ariths)

section \<open>Lists\<close>

lemma length_remove1_int:
  "x \<in> set xs \<Longrightarrow> int (length (remove1 x xs)) = int (length xs) - 1"
  by (induction xs) auto

end
