(* ===== verification/LK_Timer.thy ===== *)
theory LK_Timer
  imports LK_Prelude
begin

text \<open>
  Kernel timers (\<^verbatim>\<open>kernel/timer.c\<close>) in the configuration of this tree, where
  \<^verbatim>\<open>PLATFORM_HAS_DYNAMIC_TIMER\<close> is never set: the hardware gives a periodic tick every 10 ms and
  \<open>timer_tick\<close> dispatches from it. The state holds the timer objects, the queue they are linked
  in, the tick counter that \<^verbatim>\<open>current_time\<close> reads, and the critical-section counter of
  \<^verbatim>\<open>include/kernel/thread.h\<close>, which the timer operations enter and leave. The record is extended by
  the thread layer; the operations here are polymorphic in that extension, and a callback is run
  by a function \<open>fire\<close> that the owner of the callbacks supplies.
\<close>

unbundle bit_operations_syntax

section \<open>State\<close>

type_synonym lk_time = u64

definition INFINITE_TIME :: lk_time where
  "INFINITE_TIME = - 1"

definition TIME_GT :: "lk_time \<Rightarrow> lk_time \<Rightarrow> bool" where
  "TIME_GT a b \<longleftrightarrow> 0 < sint (a - b)"

definition TIME_LT :: "lk_time \<Rightarrow> lk_time \<Rightarrow> bool" where
  "TIME_LT a b \<longleftrightarrow> sint (a - b) < 0"

datatype handler_return = INT_NO_RESCHEDULE | INT_RESCHEDULE

definition TIMER_MAGIC :: int where
  "TIMER_MAGIC = 0x74696d72"

record 'cb timer =
  tm_magic :: int
  tm_linked :: bool
  scheduled_time :: lk_time
  periodic_time :: lk_time
  callback :: "'cb option"
  tm_arg :: nat

record ('id, 'cb) ktimers =
  critical_section_count :: int
  ints_enabled :: bool
  ticks :: u32
  timer_interval :: lk_time
  stat_timer_ints :: int
  stat_timers :: int
  timers :: "'id \<Rightarrow> 'cb timer"
  timer_queue :: "'id list"

section \<open>Critical sections\<close>

definition enter_critical_section ::
    "('id, 'cb, 'm) ktimers_scheme \<Rightarrow> ('id, 'cb, 'm) ktimers_scheme" where
  "enter_critical_section s =
     s\<lparr>ints_enabled := (if critical_section_count s = 0 then False else ints_enabled s),
       critical_section_count := critical_section_count s + 1\<rparr>"

definition exit_critical_section ::
    "('id, 'cb, 'm) ktimers_scheme \<Rightarrow> ('id, 'cb, 'm) ktimers_scheme" where
  "exit_critical_section s =
     s\<lparr>critical_section_count := critical_section_count s - 1,
       ints_enabled := (if critical_section_count s - 1 = 0 then True else ints_enabled s)\<rparr>"

definition in_critical_section :: "('id, 'cb, 'm) ktimers_scheme \<Rightarrow> bool" where
  "in_critical_section s \<longleftrightarrow> 0 < critical_section_count s"

definition inc_critical_section ::
    "('id, 'cb, 'm) ktimers_scheme \<Rightarrow> ('id, 'cb, 'm) ktimers_scheme" where
  "inc_critical_section s = s\<lparr>critical_section_count := critical_section_count s + 1\<rparr>"

definition dec_critical_section ::
    "('id, 'cb, 'm) ktimers_scheme \<Rightarrow> ('id, 'cb, 'm) ktimers_scheme" where
  "dec_critical_section s = s\<lparr>critical_section_count := critical_section_count s - 1\<rparr>"

section \<open>Operations\<close>

definition TIMER_INITIAL_VALUE :: "'cb timer" where
  "TIMER_INITIAL_VALUE =
     \<lparr>tm_magic = TIMER_MAGIC, tm_linked = False, scheduled_time = 0, periodic_time = 0,
      callback = None, tm_arg = 0\<rparr>"

definition set_timer ::
    "'id \<Rightarrow> ('cb timer \<Rightarrow> 'cb timer) \<Rightarrow> ('id, 'cb, 'm) ktimers_scheme \<Rightarrow> ('id, 'cb, 'm) ktimers_scheme"
where
  "set_timer t f s = s\<lparr>timers := (timers s)(t := f (timers s t))\<rparr>"

definition timer_initialize ::
    "'id \<Rightarrow> ('id, 'cb, 'm) ktimers_scheme \<Rightarrow> ('id, 'cb, 'm) ktimers_scheme" where
  "timer_initialize t s = set_timer t (\<lambda>_. TIMER_INITIAL_VALUE) s"

text \<open>The walk of \<^verbatim>\<open>insert_timer_in_queue\<close>: link before the first entry scheduled strictly later.\<close>

fun insert_before_later :: "('id \<Rightarrow> lk_time) \<Rightarrow> 'id \<Rightarrow> 'id list \<Rightarrow> 'id list" where
  "insert_before_later time_of t [] = [t]"
| "insert_before_later time_of t (e # es) =
     (if TIME_GT (time_of e) (time_of t) then t # e # es
      else e # insert_before_later time_of t es)"

definition insert_timer_in_queue ::
    "'id \<Rightarrow> ('id, 'cb, 'm) ktimers_scheme \<Rightarrow> ('id, 'cb, 'm) ktimers_scheme" where
  "insert_timer_in_queue t s =
     set_timer t (\<lambda>r. r\<lparr>tm_linked := True\<rparr>)
       (s\<lparr>timer_queue :=
            insert_before_later (\<lambda>i. scheduled_time (timers s i)) t (timer_queue s)\<rparr>)"

definition list_delete_timer ::
    "'id \<Rightarrow> ('id, 'cb, 'm) ktimers_scheme \<Rightarrow> ('id, 'cb, 'm) ktimers_scheme" where
  "list_delete_timer t s =
     set_timer t (\<lambda>r. r\<lparr>tm_linked := False\<rparr>) (s\<lparr>timer_queue := remove1 t (timer_queue s)\<rparr>)"

definition current_time :: "('id, 'cb, 'm) ktimers_scheme \<Rightarrow> lk_time" where
  "current_time s = ucast (ticks s)"

definition timer_set ::
    "'id \<Rightarrow> lk_time \<Rightarrow> lk_time \<Rightarrow> 'cb \<Rightarrow> nat \<Rightarrow> ('id, 'cb, 'm) ktimers_scheme
       \<Rightarrow> ('id, 'cb, 'm) ktimers_scheme option" where
  "timer_set t delay period cb arg s = do {
     ASSERT (tm_magic (timers s t) = TIMER_MAGIC);
     ASSERT (\<not> tm_linked (timers s t));
     let now = current_time s;
     let s = set_timer t (\<lambda>r. r\<lparr>scheduled_time := now + delay, periodic_time := period,
                                callback := Some cb, tm_arg := arg\<rparr>) s;
     let s = enter_critical_section s;
     let s = insert_timer_in_queue t s;
     Some (exit_critical_section s)
   }"

definition timer_set_oneshot ::
    "'id \<Rightarrow> lk_time \<Rightarrow> 'cb \<Rightarrow> nat \<Rightarrow> ('id, 'cb, 'm) ktimers_scheme
       \<Rightarrow> ('id, 'cb, 'm) ktimers_scheme option" where
  "timer_set_oneshot t delay cb arg s =
     timer_set t (if delay = 0 then 1 else delay) 0 cb arg s"

definition timer_set_periodic ::
    "'id \<Rightarrow> lk_time \<Rightarrow> 'cb \<Rightarrow> nat \<Rightarrow> ('id, 'cb, 'm) ktimers_scheme
       \<Rightarrow> ('id, 'cb, 'm) ktimers_scheme option" where
  "timer_set_periodic t period cb arg s =
     (let period = (if period = 0 then 1 else period) in timer_set t period period cb arg s)"

definition timer_cancel ::
    "'id \<Rightarrow> ('id, 'cb, 'm) ktimers_scheme \<Rightarrow> ('id, 'cb, 'm) ktimers_scheme option" where
  "timer_cancel t s = do {
     ASSERT (tm_magic (timers s t) = TIMER_MAGIC);
     let s = enter_critical_section s;
     let s = (if tm_linked (timers s t) then list_delete_timer t s else s);
     let s = set_timer t (\<lambda>r. r\<lparr>periodic_time := 0, callback := None, tm_arg := 0\<rparr>) s;
     Some (exit_critical_section s)
   }"

text \<open>
  One pass of the dispatch loop of \<^verbatim>\<open>timer_tick\<close> on the head \<open>t\<close> of the queue: unlink it, run its
  callback, and put a periodic timer back when the callback neither requeued nor cancelled it.
\<close>

definition timer_fire ::
    "('cb \<Rightarrow> 'id \<Rightarrow> lk_time \<Rightarrow> nat \<Rightarrow> ('id, 'cb, 'm) ktimers_scheme
        \<Rightarrow> (handler_return \<times> ('id, 'cb, 'm) ktimers_scheme) option)
     \<Rightarrow> lk_time \<Rightarrow> 'id \<Rightarrow> handler_return \<Rightarrow> ('id, 'cb, 'm) ktimers_scheme
     \<Rightarrow> (handler_return \<times> ('id, 'cb, 'm) ktimers_scheme) option" where
  "timer_fire fire now t ret s = do {
     ASSERT (tm_magic (timers s t) = TIMER_MAGIC);
     let s = list_delete_timer t s;
     let s = s\<lparr>stat_timers := stat_timers s + 1\<rparr>;
     let periodic = 0 < periodic_time (timers s t);
     cb \<leftarrow> callback (timers s t);
     (r, s) \<leftarrow> fire cb t now (tm_arg (timers s t)) s;
     let ret = (if r = INT_RESCHEDULE then INT_RESCHEDULE else ret);
     let s = (if periodic \<and> \<not> tm_linked (timers s t) \<and> 0 < periodic_time (timers s t)
              then insert_timer_in_queue t
                     (set_timer t (\<lambda>r. r\<lparr>scheduled_time := now + periodic_time r\<rparr>) s)
              else s);
     Some (ret, s)
   }"

partial_function (option) timer_tick_loop ::
    "('cb \<Rightarrow> 'id \<Rightarrow> lk_time \<Rightarrow> nat \<Rightarrow> ('id, 'cb, 'm) ktimers_scheme
        \<Rightarrow> (handler_return \<times> ('id, 'cb, 'm) ktimers_scheme) option)
     \<Rightarrow> lk_time \<Rightarrow> handler_return \<Rightarrow> ('id, 'cb, 'm) ktimers_scheme
     \<Rightarrow> (handler_return \<times> ('id, 'cb, 'm) ktimers_scheme) option" where
  "timer_tick_loop fire now ret s =
     (case timer_queue s of
        [] \<Rightarrow> Some (ret, s)
      | t # _ \<Rightarrow>
          (if TIME_LT now (scheduled_time (timers s t)) then Some (ret, s)
           else (timer_fire fire now t ret s) \<bind>
                  (\<lambda>p. timer_tick_loop fire now (fst p) (snd p))))"

text \<open>
  The whole handler: count the interrupt, dispatch, then give the scheduler its turn
  (\<open>thread_timer_tick\<close>, a parameter until the thread layer supplies it).
\<close>

definition timer_tick ::
    "('cb \<Rightarrow> 'id \<Rightarrow> lk_time \<Rightarrow> nat \<Rightarrow> ('id, 'cb, 'm) ktimers_scheme
        \<Rightarrow> (handler_return \<times> ('id, 'cb, 'm) ktimers_scheme) option)
     \<Rightarrow> (('id, 'cb, 'm) ktimers_scheme \<Rightarrow> handler_return \<times> ('id, 'cb, 'm) ktimers_scheme)
     \<Rightarrow> lk_time \<Rightarrow> ('id, 'cb, 'm) ktimers_scheme
     \<Rightarrow> (handler_return \<times> ('id, 'cb, 'm) ktimers_scheme) option" where
  "timer_tick fire thread_tick now s = do {
     let s = s\<lparr>stat_timer_ints := stat_timer_ints s + 1\<rparr>;
     (ret, s) \<leftarrow> timer_tick_loop fire now INT_NO_RESCHEDULE s;
     let (r, s) = thread_tick s;
     let ret = (if r = INT_RESCHEDULE then INT_RESCHEDULE else ret);
     ASSERT (in_critical_section s);
     Some (ret, s)
   }"

text \<open>The part of \<^verbatim>\<open>platform_set_periodic_timer\<close> the software state sees: the tick length.\<close>

definition platform_set_periodic_timer ::
    "lk_time \<Rightarrow> ('id, 'cb, 'm) ktimers_scheme \<Rightarrow> ('id, 'cb, 'm) ktimers_scheme" where
  "platform_set_periodic_timer interval s =
     exit_critical_section ((enter_critical_section s)\<lparr>timer_interval := interval\<rparr>)"

definition timer_init :: "('id, 'cb, 'm) ktimers_scheme \<Rightarrow> ('id, 'cb, 'm) ktimers_scheme" where
  "timer_init s = platform_set_periodic_timer 10 (s\<lparr>timer_queue := []\<rparr>)"

section \<open>The timer queue\<close>

text \<open>
  Times are compared by the sign of their difference, which orders the times of any window of
  \<open>2\<^sup>63\<close> ticks that starts at some \<open>base\<close>. Within such a window the queue is sorted.
\<close>

definition offset :: "lk_time \<Rightarrow> lk_time \<Rightarrow> nat" where
  "offset base t = unat (t - base)"

definition in_window :: "lk_time \<Rightarrow> lk_time \<Rightarrow> bool" where
  "in_window base t \<longleftrightarrow> offset base t < 2 ^ 63"

definition timers_sorted :: "lk_time \<Rightarrow> ('id, 'cb, 'm) ktimers_scheme \<Rightarrow> bool" where
  "timers_sorted base s \<longleftrightarrow>
     (\<forall>i \<in> set (timer_queue s). in_window base (scheduled_time (timers s i))) \<and>
     sorted (map (\<lambda>i. offset base (scheduled_time (timers s i))) (timer_queue s))"

lemma sint_diff_window:
  assumes "in_window base a" "in_window base b"
  shows "sint (a - b) = int (offset base a) - int (offset base b)"
proof -
  have "a - b = (a - base) - (b - base)" by simp
  also have "\<dots> = word_of_int (int (offset base a) - int (offset base b))"
    by (simp add: offset_def uint_nat[symmetric] word_of_int_minus)
  finally have e: "a - b = word_of_int (int (offset base a) - int (offset base b))" .
  have "sint (word_of_int k :: u64) = signed_take_bit 63 k" for k by (simp add: sint_sbintrunc')
  hence "sint (a - b) = signed_take_bit 63 (int (offset base a) - int (offset base b))" by (simp only: e)
  also have "\<dots> = int (offset base a) - int (offset base b)"
    using assms by (intro signed_take_bit_int_eq_self) (auto simp: in_window_def)
  finally show ?thesis .
qed

lemma TIME_window:
  assumes "in_window base a" "in_window base b"
  shows "TIME_GT a b \<longleftrightarrow> offset base b < offset base a" "TIME_LT a b \<longleftrightarrow> offset base a < offset base b"
  using sint_diff_window[OF assms] by (auto simp: TIME_GT_def TIME_LT_def)

lemma set_insert_before_later [simp]: "set (insert_before_later f t es) = insert t (set es)"
  by (induction es) auto

lemma distinct_insert_before_later [simp]:
  "distinct (insert_before_later f t es) \<longleftrightarrow> t \<notin> set es \<and> distinct es"
  by (induction es) auto

lemma sorted_insert_before_later:
  assumes "\<forall>i \<in> set (t # es). in_window base (f i)" "sorted (map (\<lambda>i. offset base (f i)) es)"
  shows "sorted (map (\<lambda>i. offset base (f i)) (insert_before_later f t es))"
  using assms
proof (induction es)
  case (Cons e es)
  thus ?case by (cases "offset base (f t) < offset base (f e)") (auto simp: TIME_window)
qed simp

lemma timers_sorted_insert:
  assumes "timers_sorted base s" "in_window base (scheduled_time (timers s t))"
  shows "timers_sorted base (insert_timer_in_queue t s)"
proof -
  let ?s = "insert_timer_in_queue t s"
  have q: "timer_queue ?s = insert_before_later (\<lambda>i. scheduled_time (timers s i)) t (timer_queue s)"
    and e: "scheduled_time (timers ?s i) = scheduled_time (timers s i)" for i
    by (simp_all add: insert_timer_in_queue_def set_timer_def)
  show ?thesis
    using assms sorted_insert_before_later[of t "timer_queue s" base "\<lambda>i. scheduled_time (timers s i)"]
    unfolding timers_sorted_def e q by auto
qed

lemma sorted_expired:
  assumes "timers_sorted base s" "in_window base now" "timer_queue s = i # l"
    "TIME_LT now (scheduled_time (timers s i))"
  shows "filter (\<lambda>j. TIME_LT now (scheduled_time (timers s j))) (timer_queue s) = timer_queue s"
proof (rule filter_True, rule ballI)
  fix j assume j: "j \<in> set (timer_queue s)"
  have w: "in_window base (scheduled_time (timers s j))" "in_window base (scheduled_time (timers s i))"
    using assms(1,3) j unfolding timers_sorted_def by auto
  have "offset base (scheduled_time (timers s i)) \<le> offset base (scheduled_time (timers s j))"
    using assms(1,3) j by (auto simp: timers_sorted_def)
  thus "TIME_LT now (scheduled_time (timers s j))"
    using assms(4) TIME_window(2)[OF assms(2) w(1)] TIME_window(2)[OF assms(2) w(2)] by simp
qed

text \<open>
  C5: setting a timer links it at a place that keeps the queue sorted by expiry time, for
  expiry times within one window of the wrapping clock, and records its expiry time.
\<close>

theorem timer_set_keeps_sorted:
  assumes "timer_set t delay period cb arg s = Some s'" "timers_sorted base s"
    and "t \<notin> set (timer_queue s)" "in_window base (current_time s + delay)"
  shows "timers_sorted base s' \<and> set (timer_queue s') = insert t (set (timer_queue s)) \<and>
    scheduled_time (timers s' t) = current_time s + delay"
proof -
  let ?u = "enter_critical_section (set_timer t (\<lambda>r. r\<lparr>scheduled_time := current_time s + delay,
      periodic_time := period, callback := Some cb, tm_arg := arg\<rparr>) s)"
  have s': "s' = exit_critical_section (insert_timer_in_queue t ?u)"
    using assms(1) by (simp add: timer_set_def Let_def)
  have u: "timer_queue ?u = timer_queue s" "i \<noteq> t \<Longrightarrow> timers ?u i = timers s i"
    "scheduled_time (timers ?u t) = current_time s + delay" for i
    by (simp_all add: enter_critical_section_def set_timer_def)
  have "scheduled_time (timers ?u i) = scheduled_time (timers s i)" if "i \<in> set (timer_queue s)" for i
    using that assms(3) u(2)[of i] by metis
  hence "timers_sorted base ?u" using assms(2) unfolding timers_sorted_def u(1) by (simp cong: map_cong)
  hence "timers_sorted base (insert_timer_in_queue t ?u)" by (rule timers_sorted_insert) (use assms(4) u in simp)
  thus ?thesis
    using u(1,3) by (simp add: s' timers_sorted_def exit_critical_section_def insert_timer_in_queue_def set_timer_def
       enter_critical_section_def)
qed

text \<open>A queue with one timer, due at 30, and a second timer that is not linked.\<close>

definition one_timer :: "(nat, nat) ktimers" where
  "one_timer =
     \<lparr>critical_section_count = 0, ints_enabled = True, ticks = 20, timer_interval = 10,
      stat_timer_ints = 0, stat_timers = 0,
      timers = (\<lambda>_. TIMER_INITIAL_VALUE)(1 := TIMER_INITIAL_VALUE\<lparr>tm_linked := True, scheduled_time := 30\<rparr>),
      timer_queue = [1]\<rparr>"

theorem timer_set_keeps_sorted_witness:
  "\<exists>s'. timer_set 2 5 0 7 9 one_timer = Some s' \<and> timers_sorted 0 s' \<and> set (timer_queue s') = {1, 2}"
proof -
  have s: "timers_sorted 0 one_timer"
    by (simp add: one_timer_def timers_sorted_def in_window_def offset_def)
  obtain s' where s': "timer_set 2 5 0 7 9 one_timer = Some s'"
    by (simp add: timer_set_def one_timer_def TIMER_INITIAL_VALUE_def Let_def)
  have "timers_sorted 0 s' \<and> set (timer_queue s') = insert 2 (set (timer_queue one_timer)) \<and>
    scheduled_time (timers s' 2) = current_time one_timer + 5"
    by (rule timer_set_keeps_sorted[OF s' s])
       (simp_all add: one_timer_def current_time_def in_window_def offset_def)
  thus ?thesis using s' by (auto simp: one_timer_def)
qed

end
