(* ===== verification/LK_Kernel.thy ===== *)
theory LK_Kernel
  imports LK_Timer
begin

text \<open>
  The thread layer and the blocking primitives: \<^verbatim>\<open>kernel/thread.c\<close>, \<^verbatim>\<open>kernel/mutex.c\<close>,
  \<^verbatim>\<open>kernel/semaphore.c\<close>, \<^verbatim>\<open>kernel/event.c\<close>, the context switch of \<^verbatim>\<open>arch/arm64/thread.c\<close> and the
  interrupt entry of \<^verbatim>\<open>platform/tegra_shared\<close>. This theory holds the state and the operations; their
  properties are in the theories that follow.

  A call that reaches \<^verbatim>\<open>thread_resched\<close> may return only after other threads have run. Its remaining
  work is therefore kept where the machine keeps it, on the stack of the thread: a \<open>frame\<close> is the
  rest of one C function after the call it is suspended in, \<open>kframes\<close> is the stack of such frames
  that \<^verbatim>\<open>arch_context_switch\<close> saves, and every operation that may reschedule takes the frames of its
  callers. Returning the value \<open>r\<close> from such an operation is \<open>run_frames ks r\<close>; when the stack is
  empty the value reaches the code of the thread itself (\<open>x0\<close>).
\<close>

unbundle bit_operations_syntax

section \<open>State\<close>

type_synonym tid = nat

datatype thread_state =
  THREAD_SUSPENDED | THREAD_READY | THREAD_RUNNING | THREAD_BLOCKED | THREAD_SLEEPING | THREAD_DEATH

datatype wq_id = WQ_retcode tid | WQ_mutex nat | WQ_sem nat | WQ_event nat

text \<open>Where the \<^verbatim>\<open>queue_node\<close> of a thread is linked, if anywhere.\<close>

datatype queue = RunQ nat | WaitQ wq_id

text \<open>A timer lives on the stack of the thread that sleeps or waits on it, or is static.\<close>

datatype timer_id = TM_stack tid | TM_static nat

datatype kernel_cb = CB_thread_sleep | CB_wait_queue_timeout

text \<open>What is left to do in each function once the call it is suspended in returns.\<close>

datatype frame =
    Fr_exit_cs
  | Fr_initial_thread
  | Fr_thread_exit
  | Fr_return int
  | Fr_thread_resume
  | Fr_become_idle
  | Fr_irq int
  | Fr_wait_queue_block lk_time
  | Fr_wait_queue_destroy wq_id
  | Fr_thread_join tid bool
  | Fr_event_wait
  | Fr_event_signal_one nat
  | Fr_mutex_acquire nat
  | Fr_sem_wait
  | Fr_sem_timedwait nat
  | Fr_exit_cs_ok

definition THREAD_MAGIC :: int where "THREAD_MAGIC = 0x74687264"
definition WAIT_QUEUE_MAGIC :: int where "WAIT_QUEUE_MAGIC = 0x77616974"
definition MUTEX_MAGIC :: int where "MUTEX_MAGIC = 0x6d757478"
definition EVENT_MAGIC :: int where "EVENT_MAGIC = 0x65766e74"
definition SEMAPHORE_MAGIC :: int where "SEMAPHORE_MAGIC = 0x73656d61"

definition THREAD_FLAG_DETACHED :: u32 where "THREAD_FLAG_DETACHED = 1"
definition THREAD_FLAG_FREE_STACK :: u32 where "THREAD_FLAG_FREE_STACK = 2"
definition THREAD_FLAG_FREE_STRUCT :: u32 where "THREAD_FLAG_FREE_STRUCT = 4"

definition NUM_PRIORITIES :: nat where "NUM_PRIORITIES = 32"
definition LOWEST_PRIORITY :: int where "LOWEST_PRIORITY = 0"
definition HIGHEST_PRIORITY :: int where "HIGHEST_PRIORITY = 31"
definition IDLE_PRIORITY :: int where "IDLE_PRIORITY = LOWEST_PRIORITY"

record thread =
  th_magic :: int
  queue_node :: "queue option"
  priority :: int
  th_state :: thread_state
  saved_critical_section_count :: int
  remaining_quantum :: int
  th_flags :: u32
  blocking_wait_queue :: "wq_id option"
  wait_queue_block_ret :: status
  kframes :: "frame list"
  th_stack :: "nat option"
  stack_size :: nat
  th_entry :: nat
  th_arg :: nat
  retcode :: int
  th_name :: string
  x0 :: int
  out_param :: "int option"

record wait_queue =
  wq_magic :: int
  wq_list :: "tid list"
  wq_count :: int

record mutex =
  m_magic :: int
  holder :: "tid option"
  m_count :: int

record semaphore =
  sem_magic :: int
  sem_count :: int

record event =
  e_magic :: int
  signalled :: bool
  e_flags :: u32

definition EVENT_FLAG_AUTOUNSIGNAL :: u32 where "EVENT_FLAG_AUTOUNSIGNAL = 1"

record thread_stats =
  idle_time :: u64
  last_idle_timestamp :: u64
  reschedules :: int
  context_switches :: int
  preempts :: int
  yields :: int
  interrupts :: int

record kstate = "(timer_id, kernel_cb) ktimers" +
  threads :: "tid \<Rightarrow> thread"
  thread_list :: "tid list"
  current_thread :: tid
  idle_thread :: "tid option"
  run_queue :: "nat \<Rightarrow> tid list"
  run_queue_bitmap :: u32
  wait_queues :: "wq_id \<Rightarrow> wait_queue"
  mutexes :: "nat \<Rightarrow> mutex"
  semaphores :: "nat \<Rightarrow> semaphore"
  events :: "nat \<Rightarrow> event"
  stats :: thread_stats
  freed_structs :: "tid list"
  freed_stacks :: "nat list"

abbreviation thr :: "kstate \<Rightarrow> tid \<Rightarrow> thread" where
  "thr s t \<equiv> threads s t"

abbreviation cur :: "kstate \<Rightarrow> thread" where
  "cur s \<equiv> threads s (current_thread s)"

definition upd_thread :: "tid \<Rightarrow> (thread \<Rightarrow> thread) \<Rightarrow> kstate \<Rightarrow> kstate" where
  "upd_thread t f s = s\<lparr>threads := (threads s)(t := f (threads s t))\<rparr>"

abbreviation upd_cur :: "(thread \<Rightarrow> thread) \<Rightarrow> kstate \<Rightarrow> kstate" where
  "upd_cur f s \<equiv> upd_thread (current_thread s) f s"

definition upd_wq :: "wq_id \<Rightarrow> (wait_queue \<Rightarrow> wait_queue) \<Rightarrow> kstate \<Rightarrow> kstate" where
  "upd_wq w f s = s\<lparr>wait_queues := (wait_queues s)(w := f (wait_queues s w))\<rparr>"

definition upd_mutex :: "nat \<Rightarrow> (mutex \<Rightarrow> mutex) \<Rightarrow> kstate \<Rightarrow> kstate" where
  "upd_mutex m f s = s\<lparr>mutexes := (mutexes s)(m := f (mutexes s m))\<rparr>"

definition upd_sem :: "nat \<Rightarrow> (semaphore \<Rightarrow> semaphore) \<Rightarrow> kstate \<Rightarrow> kstate" where
  "upd_sem m f s = s\<lparr>semaphores := (semaphores s)(m := f (semaphores s m))\<rparr>"

definition upd_event :: "nat \<Rightarrow> (event \<Rightarrow> event) \<Rightarrow> kstate \<Rightarrow> kstate" where
  "upd_event e f s = s\<lparr>events := (events s)(e := f (events s e))\<rparr>"

definition upd_stats :: "(thread_stats \<Rightarrow> thread_stats) \<Rightarrow> kstate \<Rightarrow> kstate" where
  "upd_stats f s = s\<lparr>stats := f (stats s)\<rparr>"

lemmas upd_defs = upd_thread_def upd_wq_def upd_mutex_def upd_sem_def upd_event_def upd_stats_def

definition current_time_hires :: "kstate \<Rightarrow> u64" where
  "current_time_hires s = ucast (ticks s) * 1000"

section \<open>Run queues\<close>

definition insert_in_run_queue_head :: "tid \<Rightarrow> kstate \<Rightarrow> kstate option" where
  "insert_in_run_queue_head t s = do {
     ASSERT (th_magic (thr s t) = THREAD_MAGIC);
     ASSERT (th_state (thr s t) = THREAD_READY);
     ASSERT (queue_node (thr s t) = None);
     ASSERT (in_critical_section s);
     let p = priority (thr s t);
     ASSERT (0 \<le> p \<and> p < int NUM_PRIORITIES);
     let s = upd_thread t (\<lambda>r. r\<lparr>queue_node := Some (RunQ (nat p))\<rparr>) s;
     Some (s\<lparr>run_queue := (run_queue s)(nat p := t # run_queue s (nat p)),
             run_queue_bitmap := run_queue_bitmap s OR push_bit (nat p) 1\<rparr>)
   }"

definition insert_in_run_queue_tail :: "tid \<Rightarrow> kstate \<Rightarrow> kstate option" where
  "insert_in_run_queue_tail t s = do {
     ASSERT (th_magic (thr s t) = THREAD_MAGIC);
     ASSERT (th_state (thr s t) = THREAD_READY);
     ASSERT (queue_node (thr s t) = None);
     ASSERT (in_critical_section s);
     let p = priority (thr s t);
     ASSERT (0 \<le> p \<and> p < int NUM_PRIORITIES);
     let s = upd_thread t (\<lambda>r. r\<lparr>queue_node := Some (RunQ (nat p))\<rparr>) s;
     Some (s\<lparr>run_queue := (run_queue s)(nat p := run_queue s (nat p) @ [t]),
             run_queue_bitmap := run_queue_bitmap s OR push_bit (nat p) 1\<rparr>)
   }"

text \<open>\<^verbatim>\<open>list_delete(&t->queue_node)\<close>: unlink from whichever list the node is in.\<close>

definition list_delete_queue_node :: "tid \<Rightarrow> kstate \<Rightarrow> kstate" where
  "list_delete_queue_node t s =
     upd_thread t (\<lambda>r. r\<lparr>queue_node := None\<rparr>)
       (case queue_node (thr s t) of
          None \<Rightarrow> s
        | Some (RunQ p) \<Rightarrow> s\<lparr>run_queue := (run_queue s)(p := remove1 t (run_queue s p))\<rparr>
        | Some (WaitQ w) \<Rightarrow> upd_wq w (\<lambda>q. q\<lparr>wq_list := remove1 t (wq_list q)\<rparr>) s)"

text \<open>\<^verbatim>\<open>list_remove_head_type(&wait->list, thread_t, queue_node)\<close>.\<close>

definition wq_remove_head :: "wq_id \<Rightarrow> kstate \<Rightarrow> (tid \<times> kstate) option" where
  "wq_remove_head w s =
     (case wq_list (wait_queues s w) of
        [] \<Rightarrow> None
      | t # ts \<Rightarrow> Some (t, upd_thread t (\<lambda>r. r\<lparr>queue_node := None\<rparr>)
                            (upd_wq w (\<lambda>q. q\<lparr>wq_list := ts\<rparr>) s)))"

section \<open>Returning through the saved stack\<close>

text \<open>The rest of \<^verbatim>\<open>thread_join\<close> once the thread is known to be dead.\<close>

definition thread_join_finish :: "tid \<Rightarrow> bool \<Rightarrow> kstate \<Rightarrow> (int \<times> kstate) option" where
  "thread_join_finish t want s = do {
     ASSERT (th_magic (thr s t) = THREAD_MAGIC);
     ASSERT (th_state (thr s t) = THREAD_DEATH);
     ASSERT (blocking_wait_queue (thr s t) = None);
     ASSERT (queue_node (thr s t) = None);
     let s = (if want then upd_cur (\<lambda>r. r\<lparr>out_param := Some (retcode (thr s t))\<rparr>) s else s);
     let s = s\<lparr>thread_list := remove1 t (thread_list s)\<rparr>;
     let s = upd_thread t (\<lambda>r. r\<lparr>th_magic := 0\<rparr>) s;
     let s = exit_critical_section s;
     let s = (if th_flags (thr s t) AND THREAD_FLAG_FREE_STACK \<noteq> 0
              then s\<lparr>freed_stacks := (case th_stack (thr s t) of None \<Rightarrow> [] | Some a \<Rightarrow> [a])
                                        @ freed_stacks s\<rparr>
              else s);
     let s = (if th_flags (thr s t) AND THREAD_FLAG_FREE_STRUCT \<noteq> 0
              then s\<lparr>freed_structs := t # freed_structs s\<rparr> else s);
     Some (NO_ERROR, s)
   }"

fun run_frame :: "frame \<Rightarrow> int \<Rightarrow> kstate \<Rightarrow> (int \<times> kstate) option" where
  "run_frame Fr_exit_cs r s = Some (r, exit_critical_section s)"
| "run_frame Fr_initial_thread r s = Some (r, exit_critical_section s)"
| "run_frame Fr_thread_exit r s = None"
| "run_frame (Fr_return n) r s = Some (n, s)"
| "run_frame Fr_thread_resume r s = Some (NO_ERROR, exit_critical_section s)"
| "run_frame Fr_become_idle r s = Some (r, s)"
| "run_frame (Fr_irq saved_x0) r s = Some (saved_x0, dec_critical_section s)"
| "run_frame (Fr_wait_queue_block timeout) r s =
     (if timeout \<noteq> INFINITE_TIME
      then map_option (\<lambda>s. (wait_queue_block_ret (cur s), s))
             (timer_cancel (TM_stack (current_thread s)) s)
      else Some (wait_queue_block_ret (cur s), s))"
| "run_frame (Fr_wait_queue_destroy w) r s =
     Some (r, upd_wq w (\<lambda>q. q\<lparr>wq_magic := 0\<rparr>) s)"
| "run_frame (Fr_thread_join t want) r s =
     (if r < 0 then Some (r, exit_critical_section s) else thread_join_finish t want s)"
| "run_frame Fr_event_wait r s = Some (r, exit_critical_section s)"
| "run_frame (Fr_event_signal_one e) r s =
     Some (NO_ERROR, exit_critical_section
       (if r \<le> 0 then upd_event e (\<lambda>v. v\<lparr>signalled := True\<rparr>) s else s))"
| "run_frame (Fr_mutex_acquire m) r s =
     Some (r, exit_critical_section
       (if r < NO_ERROR
        then (if r = ERR_TIMED_OUT then upd_mutex m (\<lambda>x. x\<lparr>m_count := m_count x - 1\<rparr>) s else s)
        else upd_mutex m (\<lambda>x. x\<lparr>holder := Some (current_thread s)\<rparr>) s))"
| "run_frame Fr_sem_wait r s = Some (r, exit_critical_section s)"
| "run_frame (Fr_sem_timedwait m) r s =
     Some (r, exit_critical_section
       (if r < NO_ERROR \<and> r = ERR_TIMED_OUT
        then upd_sem m (\<lambda>x. x\<lparr>sem_count := sem_count x + 1\<rparr>) s else s))"
| "run_frame Fr_exit_cs_ok r s = Some (NO_ERROR, exit_critical_section s)"

fun run_frames :: "frame list \<Rightarrow> int \<Rightarrow> kstate \<Rightarrow> kstate option" where
  "run_frames [] r s = Some (upd_cur (\<lambda>t. t\<lparr>x0 := r\<rparr>) s)"
| "run_frames (f # fs) r s = run_frame f r s \<bind> (\<lambda>(r', s'). run_frames fs r' s')"

section \<open>The scheduler\<close>

text \<open>
  The head of the highest non-empty run queue is taken off, and the bitmap bit is cleared when
  that queue becomes empty.
\<close>

definition next_queue :: "kstate \<Rightarrow> nat" where
  "next_queue s = nat (HIGHEST_PRIORITY - int (clz32 (run_queue_bitmap s)) - int (32 - NUM_PRIORITIES))"

definition take_next_thread :: "kstate \<Rightarrow> (tid \<times> kstate) option" where
  "take_next_thread s =
     (let q = next_queue s in
      case run_queue s q of
        [] \<Rightarrow> None
      | t # ts \<Rightarrow>
          (let s = upd_thread t (\<lambda>r. r\<lparr>queue_node := None\<rparr>) (s\<lparr>run_queue := (run_queue s)(q := ts)\<rparr>);
               s = (if ts = [] then s\<lparr>run_queue_bitmap := run_queue_bitmap s AND NOT (push_bit q 1)\<rparr>
                    else s)
           in Some (t, s)))"

definition switch_stats :: "tid \<Rightarrow> tid \<Rightarrow> kstate \<Rightarrow> kstate" where
  "switch_stats oldthread newthread s =
     (let s = upd_stats (\<lambda>x. x\<lparr>context_switches := context_switches x + 1\<rparr>) s;
          now = current_time_hires s;
          s = (if Some oldthread = idle_thread s
               then upd_stats (\<lambda>x. x\<lparr>idle_time := idle_time x + (now - last_idle_timestamp x)\<rparr>) s
               else s)
      in if Some newthread = idle_thread s
         then upd_stats (\<lambda>x. x\<lparr>last_idle_timestamp := now\<rparr>) s else s)"

text \<open>
  \<^verbatim>\<open>thread_resched\<close>; \<open>ks\<close> are the frames of the callers. The switch saves them on the old thread and
  continues with the frames of the new one.
\<close>

definition thread_resched :: "frame list \<Rightarrow> kstate \<Rightarrow> kstate option" where
  "thread_resched ks s = do {
     ASSERT (in_critical_section s);
     let s = upd_stats (\<lambda>x. x\<lparr>reschedules := reschedules x + 1\<rparr>) s;
     let oldthread = current_thread s;
     ASSERT (NUM_PRIORITIES \<le> 32);
     ASSERT (run_queue_bitmap s \<noteq> 0);
     (newthread, s) \<leftarrow> take_next_thread s;
     let s = upd_thread newthread (\<lambda>r. r\<lparr>th_state := THREAD_RUNNING\<rparr>) s;
     if newthread = oldthread then run_frames ks 0 s
     else do {
       let s = upd_thread newthread
                 (\<lambda>r. if remaining_quantum r \<le> 0 then r\<lparr>remaining_quantum := 5\<rparr> else r) s;
       let s = switch_stats oldthread newthread s;
       ASSERT (0 < critical_section_count s);
       ASSERT (0 < saved_critical_section_count (thr s newthread));
       let s = upd_thread oldthread
                 (\<lambda>r. r\<lparr>saved_critical_section_count := critical_section_count s,
                        kframes := ks\<rparr>) s;
       let s = s\<lparr>current_thread := newthread,
                 critical_section_count := saved_critical_section_count (thr s newthread)\<rparr>;
       run_frames (kframes (thr s newthread)) 0 s
     }
   }"

definition thread_yield :: "frame list \<Rightarrow> kstate \<Rightarrow> kstate option" where
  "thread_yield ks s = do {
     ASSERT (th_magic (cur s) = THREAD_MAGIC);
     ASSERT (th_state (cur s) = THREAD_RUNNING);
     let s = enter_critical_section s;
     let s = upd_stats (\<lambda>x. x\<lparr>yields := yields x + 1\<rparr>) s;
     let s = upd_cur (\<lambda>r. r\<lparr>th_state := THREAD_READY, remaining_quantum := 0\<rparr>) s;
     s \<leftarrow> insert_in_run_queue_tail (current_thread s) s;
     thread_resched (Fr_exit_cs # ks) s
   }"

definition thread_preempt :: "frame list \<Rightarrow> kstate \<Rightarrow> kstate option" where
  "thread_preempt ks s = do {
     ASSERT (th_magic (cur s) = THREAD_MAGIC);
     ASSERT (th_state (cur s) = THREAD_RUNNING);
     let s = enter_critical_section s;
     let s = (if Some (current_thread s) \<noteq> idle_thread s
              then upd_stats (\<lambda>x. x\<lparr>preempts := preempts x + 1\<rparr>) s else s);
     let s = upd_cur (\<lambda>r. r\<lparr>th_state := THREAD_READY\<rparr>) s;
     s \<leftarrow> (if 0 < remaining_quantum (cur s)
           then insert_in_run_queue_head (current_thread s) s
           else insert_in_run_queue_tail (current_thread s) s);
     thread_resched (Fr_exit_cs # ks) s
   }"

definition thread_block :: "frame list \<Rightarrow> kstate \<Rightarrow> kstate option" where
  "thread_block ks s = do {
     ASSERT (th_magic (cur s) = THREAD_MAGIC);
     ASSERT (th_state (cur s) = THREAD_BLOCKED);
     let s = enter_critical_section s;
     thread_resched (Fr_exit_cs # ks) s
   }"

definition thread_timer_tick :: "kstate \<Rightarrow> handler_return \<times> kstate" where
  "thread_timer_tick s =
     (if Some (current_thread s) = idle_thread s then (INT_NO_RESCHEDULE, s)
      else let s = upd_cur (\<lambda>r. r\<lparr>remaining_quantum := remaining_quantum r - 1\<rparr>) s
           in (if remaining_quantum (cur s) \<le> 0 then INT_RESCHEDULE else INT_NO_RESCHEDULE, s))"

section \<open>Wait queues\<close>

definition wait_queue_init :: "wq_id \<Rightarrow> kstate \<Rightarrow> kstate" where
  "wait_queue_init w s =
     upd_wq w (\<lambda>_. \<lparr>wq_magic = WAIT_QUEUE_MAGIC, wq_list = [], wq_count = 0\<rparr>) s"

definition wait_queue_block :: "frame list \<Rightarrow> wq_id \<Rightarrow> lk_time \<Rightarrow> kstate \<Rightarrow> kstate option" where
  "wait_queue_block ks w timeout s = do {
     ASSERT (wq_magic (wait_queues s w) = WAIT_QUEUE_MAGIC);
     ASSERT (th_state (cur s) = THREAD_RUNNING);
     ASSERT (in_critical_section s);
     if timeout = 0 then run_frames ks ERR_TIMED_OUT s
     else do {
       let t = current_thread s;
       let s = upd_wq w (\<lambda>q. q\<lparr>wq_list := wq_list q @ [t], wq_count := wq_count q + 1\<rparr>) s;
       let s = upd_thread t (\<lambda>r. r\<lparr>queue_node := Some (WaitQ w), th_state := THREAD_BLOCKED,
                                   blocking_wait_queue := Some w,
                                   wait_queue_block_ret := NO_ERROR\<rparr>) s;
       s \<leftarrow> (if timeout \<noteq> INFINITE_TIME
             then timer_set_oneshot (TM_stack t) timeout CB_wait_queue_timeout t
                    (timer_initialize (TM_stack t) s)
             else Some s);
       thread_block (Fr_wait_queue_block timeout # ks) s
     }
   }"

text \<open>Make a thread that has just left a wait queue runnable, at the head of its run queue.\<close>

definition wake_thread :: "wq_id \<Rightarrow> tid \<Rightarrow> status \<Rightarrow> kstate \<Rightarrow> kstate option" where
  "wake_thread w t wait_queue_error s = do {
     let s = upd_wq w (\<lambda>q. q\<lparr>wq_count := wq_count q - 1\<rparr>) s;
     ASSERT (th_state (thr s t) = THREAD_BLOCKED);
     Some (upd_thread t (\<lambda>r. r\<lparr>th_state := THREAD_READY,
                               wait_queue_block_ret := wait_queue_error,
                               blocking_wait_queue := None\<rparr>) s)
   }"

definition wait_queue_wake_one ::
    "frame list \<Rightarrow> wq_id \<Rightarrow> bool \<Rightarrow> status \<Rightarrow> kstate \<Rightarrow> kstate option" where
  "wait_queue_wake_one ks w reschedule wait_queue_error s = do {
     ASSERT (wq_magic (wait_queues s w) = WAIT_QUEUE_MAGIC);
     ASSERT (in_critical_section s);
     case wq_remove_head w s of
       None \<Rightarrow> run_frames ks 0 s
     | Some (t, s) \<Rightarrow> do {
         s \<leftarrow> wake_thread w t wait_queue_error s;
         s \<leftarrow> (if reschedule
               then insert_in_run_queue_head (current_thread s)
                      (upd_cur (\<lambda>r. r\<lparr>th_state := THREAD_READY\<rparr>) s)
               else Some s);
         s \<leftarrow> insert_in_run_queue_head t s;
         if reschedule then thread_resched (Fr_return 1 # ks) s else run_frames ks 1 s
       }
   }"

text \<open>The loop that pops every waiter, over the waiters present when it starts.\<close>

fun wake_all_loop :: "nat \<Rightarrow> wq_id \<Rightarrow> status \<Rightarrow> int \<Rightarrow> kstate \<Rightarrow> (int \<times> kstate) option" where
  "wake_all_loop 0 w err ret s = (case wq_remove_head w s of None \<Rightarrow> Some (ret, s) | Some _ \<Rightarrow> None)"
| "wake_all_loop (Suc n) w err ret s =
     (case wq_remove_head w s of
        None \<Rightarrow> Some (ret, s)
      | Some (t, s) \<Rightarrow> do {
          s \<leftarrow> wake_thread w t err s;
          s \<leftarrow> insert_in_run_queue_head t s;
          wake_all_loop n w err (ret + 1) s
        })"

text \<open>
  \<^verbatim>\<open>wait_queue_wake_all\<close> up to its last \<^verbatim>\<open>if\<close>; with \<open>reschedule\<close> false this is the whole function.
  Each pass of the loop shortens the wait list by one, so its length bounds the passes.
\<close>

definition wait_queue_wake_all_body ::
    "wq_id \<Rightarrow> bool \<Rightarrow> status \<Rightarrow> kstate \<Rightarrow> (int \<times> kstate) option" where
  "wait_queue_wake_all_body w reschedule wait_queue_error s = do {
     ASSERT (wq_magic (wait_queues s w) = WAIT_QUEUE_MAGIC);
     ASSERT (in_critical_section s);
     s \<leftarrow> (if reschedule \<and> 0 < wq_count (wait_queues s w)
           then insert_in_run_queue_head (current_thread s)
                  (upd_cur (\<lambda>r. r\<lparr>th_state := THREAD_READY\<rparr>) s)
           else Some s);
     (ret, s) \<leftarrow> wake_all_loop (length (wq_list (wait_queues s w))) w wait_queue_error 0 s;
     ASSERT (wq_count (wait_queues s w) = 0);
     Some (ret, s)
   }"

definition wait_queue_wake_all ::
    "frame list \<Rightarrow> wq_id \<Rightarrow> bool \<Rightarrow> status \<Rightarrow> kstate \<Rightarrow> kstate option" where
  "wait_queue_wake_all ks w reschedule wait_queue_error s = do {
     (ret, s) \<leftarrow> wait_queue_wake_all_body w reschedule wait_queue_error s;
     if reschedule \<and> 0 < ret then thread_resched (Fr_return ret # ks) s
     else run_frames ks ret s
   }"

definition wait_queue_destroy :: "frame list \<Rightarrow> wq_id \<Rightarrow> bool \<Rightarrow> kstate \<Rightarrow> kstate option" where
  "wait_queue_destroy ks w reschedule s = do {
     ASSERT (wq_magic (wait_queues s w) = WAIT_QUEUE_MAGIC);
     ASSERT (in_critical_section s);
     wait_queue_wake_all (Fr_wait_queue_destroy w # ks) w reschedule ERR_OBJECT_DESTROYED s
   }"

definition thread_unblock_from_wait_queue :: "tid \<Rightarrow> status \<Rightarrow> kstate \<Rightarrow> (status \<times> kstate) option" where
  "thread_unblock_from_wait_queue t wait_queue_error s = do {
     ASSERT (in_critical_section s);
     ASSERT (th_magic (thr s t) = THREAD_MAGIC);
     if th_state (thr s t) \<noteq> THREAD_BLOCKED then Some (ERR_NOT_BLOCKED, s)
     else do {
       w \<leftarrow> blocking_wait_queue (thr s t);
       ASSERT (wq_magic (wait_queues s w) = WAIT_QUEUE_MAGIC);
       ASSERT (queue_node (thr s t) \<noteq> None);
       let s = list_delete_queue_node t s;
       let s = upd_wq w (\<lambda>q. q\<lparr>wq_count := wq_count q - 1\<rparr>) s;
       let s = upd_thread t (\<lambda>r. r\<lparr>blocking_wait_queue := None, th_state := THREAD_READY,
                                   wait_queue_block_ret := wait_queue_error\<rparr>) s;
       s \<leftarrow> insert_in_run_queue_head t s;
       Some (NO_ERROR, s)
     }
   }"

section \<open>Timer callbacks, sleeping, and the timer interrupt\<close>

definition wait_queue_timeout_handler :: "nat \<Rightarrow> kstate \<Rightarrow> (handler_return \<times> kstate) option" where
  "wait_queue_timeout_handler t s = do {
     ASSERT (th_magic (thr s t) = THREAD_MAGIC);
     (r, s) \<leftarrow> thread_unblock_from_wait_queue t ERR_TIMED_OUT s;
     Some (if NO_ERROR \<le> r then INT_RESCHEDULE else INT_NO_RESCHEDULE, s)
   }"

definition thread_sleep_handler :: "nat \<Rightarrow> kstate \<Rightarrow> (handler_return \<times> kstate) option" where
  "thread_sleep_handler t s = do {
     ASSERT (th_magic (thr s t) = THREAD_MAGIC);
     ASSERT (th_state (thr s t) = THREAD_SLEEPING);
     s \<leftarrow> insert_in_run_queue_head t (upd_thread t (\<lambda>r. r\<lparr>th_state := THREAD_READY\<rparr>) s);
     Some (INT_RESCHEDULE, s)
   }"

fun fire_callback ::
    "kernel_cb \<Rightarrow> timer_id \<Rightarrow> lk_time \<Rightarrow> nat \<Rightarrow> kstate \<Rightarrow> (handler_return \<times> kstate) option" where
  "fire_callback CB_thread_sleep timer now arg s = thread_sleep_handler arg s"
| "fire_callback CB_wait_queue_timeout timer now arg s = wait_queue_timeout_handler arg s"

definition thread_sleep :: "lk_time \<Rightarrow> kstate \<Rightarrow> kstate option" where
  "thread_sleep delay s = do {
     ASSERT (th_magic (cur s) = THREAD_MAGIC);
     ASSERT (th_state (cur s) = THREAD_RUNNING);
     let t = current_thread s;
     let s = timer_initialize (TM_stack t) s;
     let s = enter_critical_section s;
     s \<leftarrow> timer_set_oneshot (TM_stack t) delay CB_thread_sleep t s;
     let s = upd_cur (\<lambda>r. r\<lparr>th_state := THREAD_SLEEPING\<rparr>) s;
     thread_resched [Fr_exit_cs] s
   }"

text \<open>\<^verbatim>\<open>timer_irq\<close>: acknowledge, advance the tick counter, dispatch.\<close>

definition timer_irq :: "kstate \<Rightarrow> (handler_return \<times> kstate) option" where
  "timer_irq s =
     (let s = s\<lparr>ticks := ticks s + ucast (timer_interval s)\<rparr>
      in timer_tick fire_callback thread_timer_tick (current_time s) s)"

text \<open>
  \<^verbatim>\<open>platform_irq\<close> for the interrupt the kernel itself uses, that of the tick timer (the interrupt
  number is below \<^verbatim>\<open>TEGRA_MAX_INT\<close> and its handler is \<open>timer_irq\<close>). The exception entry saves the
  registers of the interrupted code, which the return restores.
\<close>

definition platform_irq :: "kstate \<Rightarrow> kstate option" where
  "platform_irq s = do {
     let s = inc_critical_section s;
     let s = upd_stats (\<lambda>x. x\<lparr>interrupts := interrupts x + 1\<rparr>) s;
     (ret, s) \<leftarrow> timer_irq s;
     if ret \<noteq> INT_NO_RESCHEDULE then thread_preempt [Fr_irq (x0 (cur s))] s
     else Some (dec_critical_section s)
   }"

section \<open>Thread life cycle\<close>

definition zero_thread :: thread where
  "zero_thread =
     \<lparr>th_magic = 0, queue_node = None, priority = 0, th_state = THREAD_SUSPENDED,
      saved_critical_section_count = 0, remaining_quantum = 0, th_flags = 0,
      blocking_wait_queue = None, wait_queue_block_ret = 0, kframes = [], th_stack = None,
      stack_size = 0, th_entry = 0, th_arg = 0, retcode = 0, th_name = [], x0 = 0,
      out_param = None\<rparr>"

text \<open>\<^verbatim>\<open>strlcpy(t->name, name, sizeof(t->name))\<close> keeps at most 31 characters.\<close>

definition init_thread_struct :: "tid \<Rightarrow> string \<Rightarrow> kstate \<Rightarrow> kstate" where
  "init_thread_struct t name s =
     upd_thread t (\<lambda>_. zero_thread\<lparr>th_magic := THREAD_MAGIC, th_name := take 31 name\<rparr>) s"

text \<open>
  \<^verbatim>\<open>arch_thread_initialize\<close>: a fresh stack on which the first switch enters
  \<^verbatim>\<open>initial_thread_func\<close>.
\<close>

definition arch_thread_initialize :: "tid \<Rightarrow> kstate \<Rightarrow> kstate" where
  "arch_thread_initialize t s = upd_thread t (\<lambda>r. r\<lparr>kframes := [Fr_initial_thread]\<rparr>) s"

text \<open>
  \<open>malloc_struct\<close> and \<open>malloc_stack\<close> are what the two calls of \<^verbatim>\<open>malloc\<close> return, if they are made.
\<close>

definition thread_create_etc ::
    "tid option \<Rightarrow> tid option \<Rightarrow> nat option \<Rightarrow> string \<Rightarrow> nat \<Rightarrow> nat \<Rightarrow> int \<Rightarrow> nat option \<Rightarrow> nat
       \<Rightarrow> kstate \<Rightarrow> tid option \<times> kstate" where
  "thread_create_etc malloc_struct t malloc_stack name entry arg prio stack stk_size s =
     (case (case t of None \<Rightarrow> malloc_struct | Some t \<Rightarrow> Some t) of
        None \<Rightarrow> (None, s)
      | Some t' \<Rightarrow>
          (let flags = (if t = None then THREAD_FLAG_FREE_STRUCT else 0);
               s = init_thread_struct t' name s;
               s = upd_thread t' (\<lambda>r. r\<lparr>th_entry := entry, th_arg := arg, priority := prio,
                     saved_critical_section_count := 1, th_state := THREAD_SUSPENDED,
                     blocking_wait_queue := None, wait_queue_block_ret := NO_ERROR,
                     retcode := 0\<rparr>) s;
               s = wait_queue_init (WQ_retcode t') s
           in if stack = None \<and> malloc_stack = None
              then (None, if flags AND THREAD_FLAG_FREE_STRUCT \<noteq> 0
                          then s\<lparr>freed_structs := t' # freed_structs s\<rparr> else s)
              else
                (let s = (if stack = None
                          then upd_thread t' (\<lambda>r. r\<lparr>th_stack := malloc_stack\<rparr>) s else s);
                     flags = (if stack = None then flags OR THREAD_FLAG_FREE_STACK else flags);
                     s = upd_thread t' (\<lambda>r. r\<lparr>stack_size := stk_size, th_flags := flags\<rparr>) s;
                     s = arch_thread_initialize t' s;
                     s = enter_critical_section s;
                     s = s\<lparr>thread_list := t' # thread_list s\<rparr>;
                     s = exit_critical_section s
                 in (Some t', s))))"

definition thread_create ::
    "tid option \<Rightarrow> nat option \<Rightarrow> string \<Rightarrow> nat \<Rightarrow> nat \<Rightarrow> int \<Rightarrow> nat \<Rightarrow> kstate \<Rightarrow> tid option \<times> kstate"
where
  "thread_create malloc_struct malloc_stack name entry arg prio stk_size s =
     thread_create_etc malloc_struct None malloc_stack name entry arg prio None stk_size s"

definition thread_resume :: "frame list \<Rightarrow> tid \<Rightarrow> kstate \<Rightarrow> kstate option" where
  "thread_resume ks t s = do {
     ASSERT (th_magic (thr s t) = THREAD_MAGIC);
     ASSERT (th_state (thr s t) \<noteq> THREAD_DEATH);
     let s = enter_critical_section s;
     if th_state (thr s t) = THREAD_SUSPENDED
     then do {
       s \<leftarrow> insert_in_run_queue_head t (upd_thread t (\<lambda>r. r\<lparr>th_state := THREAD_READY\<rparr>) s);
       thread_yield (Fr_thread_resume # ks) s
     }
     else run_frames (Fr_thread_resume # ks) 0 s
   }"

text \<open>\<^verbatim>\<open>thread_join\<close> up to the point where it has either finished or must wait.\<close>

definition thread_join_start ::
    "tid \<Rightarrow> bool \<Rightarrow> kstate \<Rightarrow> ((status \<times> kstate) + kstate) option" where
  "thread_join_start t want s = do {
     ASSERT (th_magic (thr s t) = THREAD_MAGIC);
     let s = enter_critical_section s;
     if th_flags (thr s t) AND THREAD_FLAG_DETACHED \<noteq> 0
     then Some (Inl (ERR_THREAD_DETACHED, exit_critical_section s))
     else if th_state (thr s t) \<noteq> THREAD_DEATH then Some (Inr s)
     else map_option Inl (thread_join_finish t want s)
   }"

definition thread_join :: "frame list \<Rightarrow> tid \<Rightarrow> bool \<Rightarrow> lk_time \<Rightarrow> kstate \<Rightarrow> kstate option" where
  "thread_join ks t want timeout s = do {
     x \<leftarrow> thread_join_start t want s;
     case x of
       Inl (r, s) \<Rightarrow> run_frames ks r s
     | Inr s \<Rightarrow> wait_queue_block (Fr_thread_join t want # ks) (WQ_retcode t) timeout s
   }"

text \<open>
  \<^verbatim>\<open>thread_detach\<close> never reschedules: it wakes the joiners without rescheduling, and the join it
  performs on a dead thread has nothing to wait for (and would use a timeout of 0).
\<close>

definition thread_detach :: "tid \<Rightarrow> kstate \<Rightarrow> (status \<times> kstate) option" where
  "thread_detach t s = do {
     ASSERT (th_magic (thr s t) = THREAD_MAGIC);
     let s = enter_critical_section s;
     (n, s) \<leftarrow> wait_queue_wake_all_body (WQ_retcode t) False ERR_THREAD_DETACHED s;
     if th_state (thr s t) = THREAD_DEATH
     then do {
       let s = upd_thread t (\<lambda>r. r\<lparr>th_flags := th_flags r AND NOT THREAD_FLAG_DETACHED\<rparr>) s;
       let s = exit_critical_section s;
       x \<leftarrow> thread_join_start t False s;
       Some (case x of Inl p \<Rightarrow> p | Inr s \<Rightarrow> (ERR_TIMED_OUT, exit_critical_section s))
     }
     else do {
       let s = upd_thread t (\<lambda>r. r\<lparr>th_flags := th_flags r OR THREAD_FLAG_DETACHED\<rparr>) s;
       Some (NO_ERROR, exit_critical_section s)
     }
   }"

definition thread_detach_and_resume :: "frame list \<Rightarrow> tid \<Rightarrow> kstate \<Rightarrow> kstate option" where
  "thread_detach_and_resume ks t s = do {
     (err, s) \<leftarrow> thread_detach t s;
     if err < 0 then run_frames ks err s else thread_resume ks t s
   }"

definition thread_exit :: "int \<Rightarrow> kstate \<Rightarrow> kstate option" where
  "thread_exit rc s = do {
     ASSERT (th_magic (cur s) = THREAD_MAGIC);
     ASSERT (th_state (cur s) = THREAD_RUNNING);
     let s = enter_critical_section s;
     let s = upd_cur (\<lambda>r. r\<lparr>th_state := THREAD_DEATH, retcode := rc\<rparr>) s;
     let t = current_thread s;
     s \<leftarrow> (if th_flags (thr s t) AND THREAD_FLAG_DETACHED \<noteq> 0
           then do {
             let s = s\<lparr>thread_list := remove1 t (thread_list s)\<rparr>;
             let s = upd_thread t (\<lambda>r. r\<lparr>th_magic := 0\<rparr>) s;
             let s = (if th_flags (thr s t) AND THREAD_FLAG_FREE_STACK \<noteq> 0
                      then s\<lparr>freed_stacks := (case th_stack (thr s t) of None \<Rightarrow> [] | Some a \<Rightarrow> [a])
                                                @ freed_stacks s\<rparr>
                      else s);
             Some (if th_flags (thr s t) AND THREAD_FLAG_FREE_STRUCT \<noteq> 0
                   then s\<lparr>freed_structs := t # freed_structs s\<rparr> else s)
           }
           else map_option snd (wait_queue_wake_all_body (WQ_retcode t) False 0 s));
     thread_resched [Fr_thread_exit] s
   }"

definition thread_set_name :: "string \<Rightarrow> kstate \<Rightarrow> kstate" where
  "thread_set_name name s = upd_cur (\<lambda>r. r\<lparr>th_name := take 31 name\<rparr>) s"

definition thread_set_priority :: "int \<Rightarrow> kstate \<Rightarrow> kstate" where
  "thread_set_priority p s =
     (let p = (if p < LOWEST_PRIORITY then LOWEST_PRIORITY else p);
          p = (if p > HIGHEST_PRIORITY then HIGHEST_PRIORITY else p)
      in upd_cur (\<lambda>r. r\<lparr>priority := p\<rparr>) s)"

text \<open>\<open>t\<close> is the statically allocated \<^verbatim>\<open>bootstrap_thread\<close>.\<close>

definition thread_init_early :: "tid \<Rightarrow> kstate \<Rightarrow> kstate" where
  "thread_init_early t s =
     (let s = s\<lparr>run_queue := (\<lambda>i. if i < NUM_PRIORITIES then [] else run_queue s i),
                thread_list := []\<rparr>;
          s = init_thread_struct t ''bootstrap'' s;
          s = upd_thread t (\<lambda>r. r\<lparr>priority := HIGHEST_PRIORITY, th_state := THREAD_RUNNING,
                saved_critical_section_count := 1, th_flags := THREAD_FLAG_DETACHED\<rparr>) s;
          s = wait_queue_init (WQ_retcode t) s
      in s\<lparr>thread_list := t # thread_list s, current_thread := t\<rparr>)"

definition thread_become_idle :: "kstate \<Rightarrow> kstate option" where
  "thread_become_idle s =
     (let s = thread_set_name ''idle'' s;
          s = thread_set_priority IDLE_PRIORITY s;
          s = s\<lparr>idle_thread := Some (current_thread s)\<rparr>;
          s = exit_critical_section s
      in thread_yield [Fr_become_idle] s)"

section \<open>Mutexes\<close>

definition mutex_init :: "nat \<Rightarrow> kstate \<Rightarrow> kstate" where
  "mutex_init m s =
     wait_queue_init (WQ_mutex m)
       (upd_mutex m (\<lambda>_. \<lparr>m_magic = MUTEX_MAGIC, holder = None, m_count = 0\<rparr>) s)"

definition mutex_destroy :: "frame list \<Rightarrow> nat \<Rightarrow> kstate \<Rightarrow> kstate option" where
  "mutex_destroy ks m s = do {
     ASSERT (m_magic (mutexes s m) = MUTEX_MAGIC);
     ASSERT (\<not> (holder (mutexes s m) \<noteq> None \<and> Some (current_thread s) \<noteq> holder (mutexes s m)));
     let s = enter_critical_section s;
     let s = upd_mutex m (\<lambda>x. x\<lparr>m_magic := 0, m_count := 0\<rparr>) s;
     wait_queue_destroy (Fr_exit_cs # ks) (WQ_mutex m) True s
   }"

definition mutex_acquire_timeout :: "frame list \<Rightarrow> nat \<Rightarrow> lk_time \<Rightarrow> kstate \<Rightarrow> kstate option" where
  "mutex_acquire_timeout ks m timeout s = do {
     ASSERT (m_magic (mutexes s m) = MUTEX_MAGIC);
     ASSERT (Some (current_thread s) \<noteq> holder (mutexes s m));
     let s = enter_critical_section s;
     let s = upd_mutex m (\<lambda>x. x\<lparr>m_count := m_count x + 1\<rparr>) s;
     if 1 < m_count (mutexes s m)
     then wait_queue_block (Fr_mutex_acquire m # ks) (WQ_mutex m) timeout s
     else run_frames (Fr_mutex_acquire m # ks) NO_ERROR s
   }"

definition mutex_acquire :: "frame list \<Rightarrow> nat \<Rightarrow> kstate \<Rightarrow> kstate option" where
  "mutex_acquire ks m s = mutex_acquire_timeout ks m INFINITE_TIME s"

definition mutex_release :: "frame list \<Rightarrow> nat \<Rightarrow> kstate \<Rightarrow> kstate option" where
  "mutex_release ks m s = do {
     ASSERT (m_magic (mutexes s m) = MUTEX_MAGIC);
     ASSERT (Some (current_thread s) = holder (mutexes s m));
     let s = enter_critical_section s;
     let s = upd_mutex m (\<lambda>x. x\<lparr>holder := None, m_count := m_count x - 1\<rparr>) s;
     if 1 \<le> m_count (mutexes s m)
     then wait_queue_wake_one (Fr_exit_cs_ok # ks) (WQ_mutex m) True NO_ERROR s
     else run_frames (Fr_exit_cs_ok # ks) NO_ERROR s
   }"

section \<open>Semaphores\<close>

definition sem_init :: "nat \<Rightarrow> u32 \<Rightarrow> kstate \<Rightarrow> kstate" where
  "sem_init m v s =
     wait_queue_init (WQ_sem m)
       (upd_sem m (\<lambda>_. \<lparr>sem_magic = SEMAPHORE_MAGIC, sem_count = sint v\<rparr>) s)"

definition sem_destroy :: "frame list \<Rightarrow> nat \<Rightarrow> kstate \<Rightarrow> kstate option" where
  "sem_destroy ks m s =
     (let s = enter_critical_section s;
          s = upd_sem m (\<lambda>x. x\<lparr>sem_count := 0\<rparr>) s
      in wait_queue_destroy (Fr_exit_cs # ks) (WQ_sem m) True s)"

definition sem_post :: "frame list \<Rightarrow> nat \<Rightarrow> kstate \<Rightarrow> kstate option" where
  "sem_post ks m s =
     (let s = enter_critical_section s;
          s = upd_sem m (\<lambda>x. x\<lparr>sem_count := sem_count x + 1\<rparr>) s
      in if sem_count (semaphores s m) \<le> 0
         then wait_queue_wake_one (Fr_exit_cs_ok # ks) (WQ_sem m) True NO_ERROR s
         else run_frames (Fr_exit_cs_ok # ks) NO_ERROR s)"

definition sem_wait :: "frame list \<Rightarrow> nat \<Rightarrow> kstate \<Rightarrow> kstate option" where
  "sem_wait ks m s =
     (let s = enter_critical_section s;
          s = upd_sem m (\<lambda>x. x\<lparr>sem_count := sem_count x - 1\<rparr>) s
      in if sem_count (semaphores s m) < 0
         then wait_queue_block (Fr_sem_wait # ks) (WQ_sem m) INFINITE_TIME s
         else run_frames (Fr_sem_wait # ks) NO_ERROR s)"

definition sem_trywait :: "frame list \<Rightarrow> nat \<Rightarrow> kstate \<Rightarrow> kstate option" where
  "sem_trywait ks m s =
     (let s = enter_critical_section s
      in if sem_count (semaphores s m) \<le> 0
         then run_frames ks ERR_NOT_READY (exit_critical_section s)
         else run_frames ks NO_ERROR
                (exit_critical_section (upd_sem m (\<lambda>x. x\<lparr>sem_count := sem_count x - 1\<rparr>) s)))"

definition sem_timedwait :: "frame list \<Rightarrow> nat \<Rightarrow> lk_time \<Rightarrow> kstate \<Rightarrow> kstate option" where
  "sem_timedwait ks m timeout s =
     (let s = enter_critical_section s;
          s = upd_sem m (\<lambda>x. x\<lparr>sem_count := sem_count x - 1\<rparr>) s
      in if sem_count (semaphores s m) < 0
         then wait_queue_block (Fr_sem_timedwait m # ks) (WQ_sem m) timeout s
         else run_frames (Fr_sem_timedwait m # ks) NO_ERROR s)"

section \<open>Events\<close>

definition event_init :: "nat \<Rightarrow> bool \<Rightarrow> u32 \<Rightarrow> kstate \<Rightarrow> kstate" where
  "event_init e initial flags s =
     wait_queue_init (WQ_event e)
       (upd_event e (\<lambda>_. \<lparr>e_magic = EVENT_MAGIC, signalled = initial, e_flags = flags\<rparr>) s)"

definition event_destroy :: "frame list \<Rightarrow> nat \<Rightarrow> kstate \<Rightarrow> kstate option" where
  "event_destroy ks e s = do {
     ASSERT (e_magic (events s e) = EVENT_MAGIC);
     let s = enter_critical_section s;
     let s = upd_event e (\<lambda>v. v\<lparr>e_magic := 0, signalled := False, e_flags := 0\<rparr>) s;
     wait_queue_destroy (Fr_exit_cs # ks) (WQ_event e) True s
   }"

definition event_wait_timeout :: "frame list \<Rightarrow> nat \<Rightarrow> lk_time \<Rightarrow> kstate \<Rightarrow> kstate option" where
  "event_wait_timeout ks e timeout s = do {
     ASSERT (e_magic (events s e) = EVENT_MAGIC);
     let s = enter_critical_section s;
     if signalled (events s e)
     then run_frames (Fr_event_wait # ks) NO_ERROR
            (if e_flags (events s e) AND EVENT_FLAG_AUTOUNSIGNAL \<noteq> 0
             then upd_event e (\<lambda>v. v\<lparr>signalled := False\<rparr>) s else s)
     else wait_queue_block (Fr_event_wait # ks) (WQ_event e) timeout s
   }"

definition event_signal :: "frame list \<Rightarrow> nat \<Rightarrow> bool \<Rightarrow> kstate \<Rightarrow> kstate option" where
  "event_signal ks e reschedule s = do {
     ASSERT (e_magic (events s e) = EVENT_MAGIC);
     let s = enter_critical_section s;
     if \<not> signalled (events s e)
     then (if e_flags (events s e) AND EVENT_FLAG_AUTOUNSIGNAL \<noteq> 0
           then wait_queue_wake_one (Fr_event_signal_one e # ks) (WQ_event e) reschedule NO_ERROR s
           else wait_queue_wake_all (Fr_exit_cs_ok # ks) (WQ_event e) reschedule NO_ERROR
                  (upd_event e (\<lambda>v. v\<lparr>signalled := True\<rparr>) s))
     else run_frames (Fr_exit_cs_ok # ks) NO_ERROR s
   }"

definition event_unsignal :: "frame list \<Rightarrow> nat \<Rightarrow> kstate \<Rightarrow> kstate option" where
  "event_unsignal ks e s = do {
     ASSERT (e_magic (events s e) = EVENT_MAGIC);
     run_frames ks NO_ERROR (upd_event e (\<lambda>v. v\<lparr>signalled := False\<rparr>) s)
   }"

section \<open>Boot\<close>

text \<open>The static data as the loader leaves it: zeroed memory, no thread yet.\<close>

definition zero_state :: kstate where
  "zero_state =
     \<lparr>critical_section_count = 0, ints_enabled = False, ticks = 0, timer_interval = 0,
      stat_timer_ints = 0, stat_timers = 0,
      timers = (\<lambda>_. \<lparr>tm_magic = 0, tm_linked = False, scheduled_time = 0, periodic_time = 0,
                    callback = None, tm_arg = 0\<rparr>),
      timer_queue = [], threads = (\<lambda>_. zero_thread), thread_list = [], current_thread = 0,
      idle_thread = None, run_queue = (\<lambda>_. []), run_queue_bitmap = 0,
      wait_queues = (\<lambda>_. \<lparr>wq_magic = 0, wq_list = [], wq_count = 0\<rparr>),
      mutexes = (\<lambda>_. \<lparr>m_magic = 0, holder = None, m_count = 0\<rparr>),
      semaphores = (\<lambda>_. \<lparr>sem_magic = 0, sem_count = 0\<rparr>),
      events = (\<lambda>_. \<lparr>e_magic = 0, signalled = False, e_flags = 0\<rparr>),
      stats = \<lparr>idle_time = 0, last_idle_timestamp = 0, reschedules = 0, context_switches = 0,
               preempts = 0, yields = 0, interrupts = 0\<rparr>,
      freed_structs = [], freed_stacks = []\<rparr>"

text \<open>
  The kernel part of \<^verbatim>\<open>lk_main\<close>: enter the boot critical section, make the running code a thread,
  start the timers, create and start \<^verbatim>\<open>bootstrap2\<close>, and become the idle thread. \<open>malloc_struct\<close> and
  \<open>malloc_stack\<close> are the memory \<^verbatim>\<open>malloc\<close> gives the second thread. The boot thread has the highest priority, so
  \<^verbatim>\<open>thread_resume\<close> returns to it without a switch and the calls follow each other directly.
\<close>

definition DEFAULT_PRIORITY :: int where "DEFAULT_PRIORITY = 16"

definition kernel_init :: "kstate \<Rightarrow> kstate" where
  "kernel_init s = timer_init s"

definition lk_main :: "tid \<Rightarrow> tid option \<Rightarrow> nat option \<Rightarrow> kstate \<Rightarrow> kstate option" where
  "lk_main t0 malloc_struct malloc_stack s = do {
     let s = inc_critical_section s;
     let s = thread_init_early t0 s;
     let s = kernel_init s;
     let (t, s) = thread_create malloc_struct malloc_stack ''bootstrap2'' 1 0 DEFAULT_PRIORITY 8192 s;
     t \<leftarrow> t;
     (err, s) \<leftarrow> thread_detach t s;
     s \<leftarrow> thread_resume [] t s;
     thread_become_idle s
   }"

end
