(* ===== verification/LK_Invariant.thy ===== *)
theory LK_Invariant
  imports LK_Kernel
begin

text \<open>
  The invariant of the thread layer: the run queues, their bitmap, the wait queues and the timer
  queue agree with the state of every thread, the frames saved for a thread leave the
  critical-section counter where the interrupted code had it, and there is always a thread to
  run. The lemmas follow the invariant through the single steps the operations are made of;
  during an operation a thread may be off every queue, so the invariant takes the set of those.
\<close>

unbundle bit_operations_syntax

section \<open>Field access after an update\<close>

lemma upd_thread_simps [simp]:
  "threads (upd_thread t f s) = (threads s)(t := f (threads s t))"
  "current_thread (upd_thread t f s) = current_thread s"
  "idle_thread (upd_thread t f s) = idle_thread s"
  "run_queue (upd_thread t f s) = run_queue s"
  "run_queue_bitmap (upd_thread t f s) = run_queue_bitmap s"
  "wait_queues (upd_thread t f s) = wait_queues s"
  "mutexes (upd_thread t f s) = mutexes s"
  "semaphores (upd_thread t f s) = semaphores s"
  "events (upd_thread t f s) = events s"
  "stats (upd_thread t f s) = stats s"
  "thread_list (upd_thread t f s) = thread_list s"
  "freed_structs (upd_thread t f s) = freed_structs s"
  "freed_stacks (upd_thread t f s) = freed_stacks s"
  "critical_section_count (upd_thread t f s) = critical_section_count s"
  "ints_enabled (upd_thread t f s) = ints_enabled s"
  "ticks (upd_thread t f s) = ticks s"
  "timer_interval (upd_thread t f s) = timer_interval s"
  "timers (upd_thread t f s) = timers s"
  "timer_queue (upd_thread t f s) = timer_queue s"
  by (simp_all add: upd_thread_def)

lemma upd_wq_simps [simp]:
  "wait_queues (upd_wq w f s) = (wait_queues s)(w := f (wait_queues s w))"
  "threads (upd_wq w f s) = threads s"
  "current_thread (upd_wq w f s) = current_thread s"
  "idle_thread (upd_wq w f s) = idle_thread s"
  "run_queue (upd_wq w f s) = run_queue s"
  "run_queue_bitmap (upd_wq w f s) = run_queue_bitmap s"
  "mutexes (upd_wq w f s) = mutexes s"
  "semaphores (upd_wq w f s) = semaphores s"
  "events (upd_wq w f s) = events s"
  "critical_section_count (upd_wq w f s) = critical_section_count s"
  "ticks (upd_wq w f s) = ticks s"
  "timers (upd_wq w f s) = timers s"
  "timer_queue (upd_wq w f s) = timer_queue s"
  by (simp_all add: upd_wq_def)

lemma upd_other_simps [simp]:
  "threads (upd_mutex m f s) = threads s" "threads (upd_sem m g s) = threads s"
  "threads (upd_event m h s) = threads s" "threads (upd_stats k s) = threads s"
  "current_thread (upd_mutex m f s) = current_thread s"
  "current_thread (upd_sem m g s) = current_thread s"
  "current_thread (upd_event m h s) = current_thread s"
  "current_thread (upd_stats k s) = current_thread s"
  "idle_thread (upd_mutex m f s) = idle_thread s" "idle_thread (upd_sem m g s) = idle_thread s"
  "idle_thread (upd_event m h s) = idle_thread s" "idle_thread (upd_stats k s) = idle_thread s"
  "run_queue (upd_mutex m f s) = run_queue s" "run_queue (upd_sem m g s) = run_queue s"
  "run_queue (upd_event m h s) = run_queue s" "run_queue (upd_stats k s) = run_queue s"
  "run_queue_bitmap (upd_mutex m f s) = run_queue_bitmap s"
  "run_queue_bitmap (upd_sem m g s) = run_queue_bitmap s"
  "run_queue_bitmap (upd_event m h s) = run_queue_bitmap s"
  "run_queue_bitmap (upd_stats k s) = run_queue_bitmap s"
  "wait_queues (upd_mutex m f s) = wait_queues s" "wait_queues (upd_sem m g s) = wait_queues s"
  "wait_queues (upd_event m h s) = wait_queues s" "wait_queues (upd_stats k s) = wait_queues s"
  "critical_section_count (upd_mutex m f s) = critical_section_count s"
  "critical_section_count (upd_sem m g s) = critical_section_count s"
  "critical_section_count (upd_event m h s) = critical_section_count s"
  "critical_section_count (upd_stats k s) = critical_section_count s"
  "timers (upd_mutex m f s) = timers s" "timers (upd_sem m g s) = timers s"
  "timers (upd_event m h s) = timers s" "timers (upd_stats k s) = timers s"
  "timer_queue (upd_mutex m f s) = timer_queue s" "timer_queue (upd_sem m g s) = timer_queue s"
  "timer_queue (upd_event m h s) = timer_queue s" "timer_queue (upd_stats k s) = timer_queue s"
  "mutexes (upd_mutex m f s) = (mutexes s)(m := f (mutexes s m))"
  "mutexes (upd_sem m g s) = mutexes s" "mutexes (upd_event m h s) = mutexes s"
  "mutexes (upd_stats k s) = mutexes s"
  "semaphores (upd_sem m g s) = (semaphores s)(m := g (semaphores s m))"
  "semaphores (upd_mutex m f s) = semaphores s" "semaphores (upd_event m h s) = semaphores s"
  "semaphores (upd_stats k s) = semaphores s"
  "events (upd_event m h s) = (events s)(m := h (events s m))"
  "events (upd_mutex m f s) = events s" "events (upd_sem m g s) = events s"
  "events (upd_stats k s) = events s"
  by (simp_all add: upd_defs)

section \<open>The invariant\<close>

definition queues_ok :: "kstate \<Rightarrow> bool" where
  "queues_ok s \<longleftrightarrow>
     (\<forall>p t. t \<in> set (run_queue s p) \<longleftrightarrow> queue_node (thr s t) = Some (RunQ p)) \<and>
     (\<forall>p. distinct (run_queue s p)) \<and>
     (\<forall>p. bit (run_queue_bitmap s) p \<longleftrightarrow> run_queue s p \<noteq> []) \<and>
     (\<forall>w t. t \<in> set (wq_list (wait_queues s w)) \<longleftrightarrow> queue_node (thr s t) = Some (WaitQ w)) \<and>
     (\<forall>w. distinct (wq_list (wait_queues s w))) \<and>
     (\<forall>w. wq_count (wait_queues s w) = int (length (wq_list (wait_queues s w)))) \<and>
     (\<forall>w. wq_list (wait_queues s w) \<noteq> [] \<longrightarrow> wq_magic (wait_queues s w) = WAIT_QUEUE_MAGIC)"

definition valid_thread :: "thread \<Rightarrow> bool" where
  "valid_thread r \<longleftrightarrow> th_magic r = THREAD_MAGIC"

definition live :: "thread \<Rightarrow> bool" where
  "live r \<longleftrightarrow> valid_thread r \<and> th_state r \<noteq> THREAD_DEATH"

definition prio_ok :: "thread \<Rightarrow> bool" where
  "prio_ok r \<longleftrightarrow> 0 \<le> priority r \<and> priority r < 32"

text \<open>The place of a thread in the queues agrees with its state.\<close>

definition thread_ok :: "thread \<Rightarrow> bool" where
  "thread_ok r \<longleftrightarrow>
     (case queue_node r of
        None \<Rightarrow> valid_thread r \<longrightarrow> th_state r \<noteq> THREAD_READY \<and> th_state r \<noteq> THREAD_BLOCKED
      | Some (RunQ p) \<Rightarrow> valid_thread r \<and> th_state r = THREAD_READY \<and> priority r = int p
      | Some (WaitQ w) \<Rightarrow> valid_thread r \<and> th_state r = THREAD_BLOCKED
                           \<and> blocking_wait_queue r = Some w) \<and>
     (valid_thread r \<longrightarrow> prio_ok r) \<and>
     (valid_thread r \<and> th_state r \<noteq> THREAD_BLOCKED \<longrightarrow> blocking_wait_queue r = None)"

text \<open>A thread an operation has taken off the queues and not yet put back.\<close>

definition floating :: "thread \<Rightarrow> bool" where
  "floating r \<longleftrightarrow> live r \<and> queue_node r = None \<and> blocking_wait_queue r = None \<and> prio_ok r"

text \<open>By how much a frame lowers the critical-section counter when it runs.\<close>

fun frame_dec :: "frame \<Rightarrow> int" where
  "frame_dec Fr_thread_exit = 0"
| "frame_dec (Fr_return n) = 0"
| "frame_dec Fr_become_idle = 0"
| "frame_dec (Fr_wait_queue_block d) = 0"
| "frame_dec (Fr_wait_queue_destroy w) = 0"
| "frame_dec f = 1"

definition cs_decs :: "frame list \<Rightarrow> int" where
  "cs_decs fs = sum_list (map frame_dec fs)"

fun plain_frame :: "frame \<Rightarrow> bool" where
  "plain_frame Fr_thread_exit = False"
| "plain_frame (Fr_wait_queue_destroy w) = False"
| "plain_frame (Fr_thread_join t b) = False"
| "plain_frame _ = True"

fun timeout_frame :: "frame \<Rightarrow> bool" where
  "timeout_frame (Fr_wait_queue_block d) = (d \<noteq> INFINITE_TIME)"
| "timeout_frame _ = False"

definition timeouts :: "frame list \<Rightarrow> nat" where
  "timeouts fs = length (filter timeout_frame fs)"

definition timer_ok :: "tid set \<Rightarrow> (tid \<Rightarrow> frame list) \<Rightarrow> kstate \<Rightarrow> tid \<Rightarrow> bool" where
  "timer_ok T F s t \<longleftrightarrow>
     (let m = timers s (TM_stack t) in
      tm_arg m = t \<and> tm_magic m = TIMER_MAGIC \<and> periodic_time m = 0 \<and> live (thr s t) \<and>
      (callback m = Some CB_thread_sleep \<and> (th_state (thr s t) = THREAD_SLEEPING \<or> t \<in> T) \<or>
       callback m = Some CB_wait_queue_timeout \<and> 0 < timeouts (F t)))"

definition timers_ok :: "tid set \<Rightarrow> (tid \<Rightarrow> frame list) \<Rightarrow> kstate \<Rightarrow> bool" where
  "timers_ok T F s \<longleftrightarrow>
     distinct (timer_queue s) \<and>
     (\<forall>i. tm_linked (timers s i) \<longleftrightarrow> i \<in> set (timer_queue s)) \<and>
     (\<forall>i. i \<in> set (timer_queue s) \<longrightarrow> (\<exists>t. i = TM_stack t \<and> timer_ok T F s t)) \<and>
     (\<forall>t. live (thr s t) \<and> 0 < timeouts (F t) \<longrightarrow> tm_magic (timers s (TM_stack t)) = TIMER_MAGIC) \<and>
     (\<forall>t. live (thr s t) \<and> th_state (thr s t) = THREAD_SLEEPING \<and> t \<notin> T
        \<longrightarrow> TM_stack t \<in> set (timer_queue s) \<and> callback (timers s (TM_stack t)) = Some CB_thread_sleep)"

definition frames_ok :: "(tid \<Rightarrow> frame list) \<Rightarrow> (tid \<Rightarrow> int) \<Rightarrow> kstate \<Rightarrow> bool" where
  "frames_ok F S s \<longleftrightarrow> (\<forall>t. live (thr s t) \<longrightarrow>
     list_all plain_frame (F t) \<and> cs_decs (F t) \<le> S t \<and> timeouts (F t) \<le> 1)"

definition idle_ok :: "kstate \<Rightarrow> bool" where
  "idle_ok s \<longleftrightarrow> (\<exists>i. idle_thread s = Some i \<and> valid_thread (thr s i) \<and>
                    th_state (thr s i) \<in> {THREAD_READY, THREAD_RUNNING})"

text \<open>Every thread structure in use has an initialised queue of joiners.\<close>

definition retq_ok :: "kstate \<Rightarrow> bool" where
  "retq_ok s \<longleftrightarrow> (\<forall>t. valid_thread (thr s t) \<longrightarrow>
                     wq_magic (wait_queues s (WQ_retcode t)) = WAIT_QUEUE_MAGIC)"

definition ginv :: "tid set \<Rightarrow> (tid \<Rightarrow> frame list) \<Rightarrow> (tid \<Rightarrow> int) \<Rightarrow> kstate \<Rightarrow> bool" where
  "ginv T F S s \<longleftrightarrow> queues_ok s \<and>
     (\<forall>t. if t \<in> T then floating (thr s t) else thread_ok (thr s t)) \<and>
     timers_ok T F s \<and> frames_ok F S s \<and> idle_ok s \<and> retq_ok s"

definition frames_of :: "frame list \<Rightarrow> kstate \<Rightarrow> tid \<Rightarrow> frame list" where
  "frames_of ks s t = (if t = current_thread s then ks else kframes (thr s t))"

definition saved_of :: "kstate \<Rightarrow> tid \<Rightarrow> int" where
  "saved_of s t = (if t = current_thread s then critical_section_count s
                   else saved_critical_section_count (thr s t))"

text \<open>A thread runs, and \<open>ks\<close> is what is left of the kernel call it is in.\<close>

definition only_running :: "kstate \<Rightarrow> bool" where
  "only_running s \<longleftrightarrow> (\<forall>t. valid_thread (thr s t) \<and> th_state (thr s t) = THREAD_RUNNING
                         \<longrightarrow> t = current_thread s)"

definition saved_pos :: "kstate \<Rightarrow> bool" where
  "saved_pos s \<longleftrightarrow> (\<forall>t. t \<noteq> current_thread s \<and> live (thr s t)
                       \<longrightarrow> 0 < saved_critical_section_count (thr s t))"

definition running_inv :: "frame list \<Rightarrow> kstate \<Rightarrow> bool" where
  "running_inv ks s \<longleftrightarrow> ginv {} (frames_of ks s) (saved_of s) s \<and>
     valid_thread (cur s) \<and> th_state (cur s) = THREAD_RUNNING \<and> only_running s \<and> saved_pos s"

definition kinv :: "kstate \<Rightarrow> bool" where
  "kinv s \<longleftrightarrow> running_inv [] s"

text \<open>The current thread has given up the processor and \<^verbatim>\<open>thread_resched\<close> is about to choose.\<close>

definition resched_inv :: "tid set \<Rightarrow> frame list \<Rightarrow> kstate \<Rightarrow> bool" where
  "resched_inv T ks s \<longleftrightarrow> ginv T (frames_of ks s) (saved_of s) s \<and> in_critical_section s \<and>
     (\<forall>t. valid_thread (thr s t) \<longrightarrow> th_state (thr s t) \<noteq> THREAD_RUNNING) \<and> saved_pos s"

section \<open>Queues\<close>

lemma bit_or_push_bit32: "bit ((b::u32) OR 2 ^ p) n \<longleftrightarrow> bit b n \<or> (n = p \<and> n < 32)"
  by (auto simp: bit_simps)

lemma bit_and_not_push_bit32: "bit ((b::u32) AND NOT (2 ^ p)) n \<longleftrightarrow> bit b n \<and> n \<noteq> p"
  by (auto simp: bit_simps dest: bit_imp_le_length)

lemma queues_ok_insert:
  assumes "queues_ok s" "queue_node (thr s t) = None" "p < 32"
    and "set l = insert t (set (run_queue s p))" "length l = Suc (length (run_queue s p))"
    and "\<And>u. u \<noteq> t \<Longrightarrow> queue_node (thr s' u) = queue_node (thr s u)" "queue_node (thr s' t) = Some (RunQ p)"
    and "run_queue s' = (run_queue s)(p := l)"
    and "run_queue_bitmap s' = run_queue_bitmap s OR push_bit p 1" "wait_queues s' = wait_queues s"
  shows "queues_ok s'"
proof -
  have n: "t \<notin> set (run_queue s p)" "distinct (run_queue s p)" using assms(1,2) by (simp_all add: queues_ok_def)
  have d: "distinct l" using n assms(4,5) by (simp add: card_distinct distinct_card)
  have l: "l \<noteq> []" using assms(5) by auto
  have q: "queue_node (thr s' u) = (if u = t then Some (RunQ p) else queue_node (thr s u))" for u
    using assms(6,7) by simp
  show ?thesis
    using assms(1,2,3,4) n d l unfolding queues_ok_def assms(8,9,10) q
    by (auto simp: bit_or_push_bit32)
qed

lemma queues_ok_take:
  assumes "queues_ok s" "run_queue s p = t # ts"
    and "\<And>u. u \<noteq> t \<Longrightarrow> queue_node (thr s' u) = queue_node (thr s u)" "queue_node (thr s' t) = None"
    and "run_queue s' = (run_queue s)(p := ts)"
    and "run_queue_bitmap s' = (if ts = [] then run_queue_bitmap s AND NOT (push_bit p 1) else run_queue_bitmap s)"
    and "wait_queues s' = wait_queues s"
  shows "queues_ok s'"
proof -
  have n: "t \<notin> set ts" "distinct ts" "queue_node (thr s t) = Some (RunQ p)"
    using assms(1,2) unfolding queues_ok_def by (metis distinct.simps(2), metis distinct.simps(2), metis list.set_intros(1))
  have q: "queue_node (thr s' u) = (if u = t then None else queue_node (thr s u))" for u
    using assms(3,4) by simp
  have r: "u \<in> set ts \<longleftrightarrow> u \<noteq> t \<and> queue_node (thr s u) = Some (RunQ p)" for u
    using assms(1,2) n unfolding queues_ok_def by (metis set_ConsD list.set_intros(2))
  show ?thesis
    using assms(1,2) n r unfolding queues_ok_def assms(5,6,7) q
    by (auto simp: bit_and_not_push_bit32)
qed

lemma queues_ok_leave_wait:
  assumes "queues_ok s" "queue_node (thr s t) = Some (WaitQ w)"
    and "\<And>u. u \<noteq> t \<Longrightarrow> queue_node (thr s' u) = queue_node (thr s u)" "queue_node (thr s' t) = None"
    and "run_queue s' = run_queue s" "run_queue_bitmap s' = run_queue_bitmap s"
    and "wait_queues s' = (wait_queues s)(w := (wait_queues s w)\<lparr>wq_list := remove1 t (wq_list (wait_queues s w)),
           wq_count := wq_count (wait_queues s w) - 1\<rparr>)"
  shows "queues_ok s'"
proof -
  have q: "queue_node (thr s' u) = (if u = t then None else queue_node (thr s u))" for u
    using assms(3,4) by simp
  have m: "t \<in> set (wq_list (wait_queues s w))" using assms(1,2) by (simp add: queues_ok_def)
  have g: "wq_magic (wait_queues s w) = WAIT_QUEUE_MAGIC"
    using assms(1) m unfolding queues_ok_def by (metis list.set_cases list.distinct(1))
  have c: "int (length (remove1 t (wq_list (wait_queues s w)))) = int (length (wq_list (wait_queues s w))) - 1"
    using m by (rule length_remove1_int)
  show ?thesis
    using assms(1,2) m c g unfolding queues_ok_def assms(5,6,7) q
    by (auto simp: set_remove1_eq)
qed

lemma queues_ok_enter_wait:
  assumes "queues_ok s" "queue_node (thr s t) = None" "wq_magic (wait_queues s w) = WAIT_QUEUE_MAGIC"
    and "\<And>u. u \<noteq> t \<Longrightarrow> queue_node (thr s' u) = queue_node (thr s u)" "queue_node (thr s' t) = Some (WaitQ w)"
    and "run_queue s' = run_queue s" "run_queue_bitmap s' = run_queue_bitmap s"
    and "wait_queues s' = (wait_queues s)(w := (wait_queues s w)\<lparr>wq_list := wq_list (wait_queues s w) @ [t],
           wq_count := wq_count (wait_queues s w) + 1\<rparr>)"
  shows "queues_ok s'"
proof -
  have q: "queue_node (thr s' u) = (if u = t then Some (WaitQ w) else queue_node (thr s u))" for u
    using assms(4,5) by simp
  have m: "t \<notin> set (wq_list (wait_queues s w))" using assms(1,2) by (simp add: queues_ok_def)
  show ?thesis
    using assms(1,2,3) m unfolding queues_ok_def assms(6,7,8) q
    by (auto simp: set_remove1_eq)
qed

lemma queues_ok_cong:
  assumes "queues_ok s" "\<And>t. queue_node (thr s' t) = queue_node (thr s t)"
    and "run_queue s' = run_queue s" "run_queue_bitmap s' = run_queue_bitmap s" "wait_queues s' = wait_queues s"
  shows "queues_ok s'"
  using assms by (simp add: queues_ok_def)

lemma enter_cs_simps [simp]:
  "threads (enter_critical_section s) = threads s"
  "thread_list (enter_critical_section s) = thread_list s"
  "current_thread (enter_critical_section s) = current_thread s"
  "idle_thread (enter_critical_section s) = idle_thread s"
  "run_queue (enter_critical_section s) = run_queue s"
  "run_queue_bitmap (enter_critical_section s) = run_queue_bitmap s"
  "wait_queues (enter_critical_section s) = wait_queues s"
  "mutexes (enter_critical_section s) = mutexes s"
  "semaphores (enter_critical_section s) = semaphores s"
  "events (enter_critical_section s) = events s"
  "stats (enter_critical_section s) = stats s"
  "freed_structs (enter_critical_section s) = freed_structs s"
  "freed_stacks (enter_critical_section s) = freed_stacks s"
  "critical_section_count (enter_critical_section s) = critical_section_count s + 1"
  "ticks (enter_critical_section s) = ticks s"
  "timers (enter_critical_section s) = timers s"
  "timer_queue (enter_critical_section s) = timer_queue s"
  by (simp_all add: enter_critical_section_def)

lemma exit_cs_simps [simp]:
  "threads (exit_critical_section s) = threads s"
  "thread_list (exit_critical_section s) = thread_list s"
  "current_thread (exit_critical_section s) = current_thread s"
  "idle_thread (exit_critical_section s) = idle_thread s"
  "run_queue (exit_critical_section s) = run_queue s"
  "run_queue_bitmap (exit_critical_section s) = run_queue_bitmap s"
  "wait_queues (exit_critical_section s) = wait_queues s"
  "mutexes (exit_critical_section s) = mutexes s"
  "semaphores (exit_critical_section s) = semaphores s"
  "events (exit_critical_section s) = events s"
  "stats (exit_critical_section s) = stats s"
  "freed_structs (exit_critical_section s) = freed_structs s"
  "freed_stacks (exit_critical_section s) = freed_stacks s"
  "critical_section_count (exit_critical_section s) = critical_section_count s - 1"
  "ticks (exit_critical_section s) = ticks s"
  "timers (exit_critical_section s) = timers s"
  "timer_queue (exit_critical_section s) = timer_queue s"
  by (simp_all add: exit_critical_section_def)

lemma inc_cs_simps [simp]:
  "threads (inc_critical_section s) = threads s"
  "thread_list (inc_critical_section s) = thread_list s"
  "current_thread (inc_critical_section s) = current_thread s"
  "idle_thread (inc_critical_section s) = idle_thread s"
  "run_queue (inc_critical_section s) = run_queue s"
  "run_queue_bitmap (inc_critical_section s) = run_queue_bitmap s"
  "wait_queues (inc_critical_section s) = wait_queues s"
  "mutexes (inc_critical_section s) = mutexes s"
  "semaphores (inc_critical_section s) = semaphores s"
  "events (inc_critical_section s) = events s"
  "stats (inc_critical_section s) = stats s"
  "freed_structs (inc_critical_section s) = freed_structs s"
  "freed_stacks (inc_critical_section s) = freed_stacks s"
  "critical_section_count (inc_critical_section s) = critical_section_count s + 1"
  "ticks (inc_critical_section s) = ticks s"
  "timers (inc_critical_section s) = timers s"
  "timer_queue (inc_critical_section s) = timer_queue s"
  by (simp_all add: inc_critical_section_def)

lemma dec_cs_simps [simp]:
  "threads (dec_critical_section s) = threads s"
  "thread_list (dec_critical_section s) = thread_list s"
  "current_thread (dec_critical_section s) = current_thread s"
  "idle_thread (dec_critical_section s) = idle_thread s"
  "run_queue (dec_critical_section s) = run_queue s"
  "run_queue_bitmap (dec_critical_section s) = run_queue_bitmap s"
  "wait_queues (dec_critical_section s) = wait_queues s"
  "mutexes (dec_critical_section s) = mutexes s"
  "semaphores (dec_critical_section s) = semaphores s"
  "events (dec_critical_section s) = events s"
  "stats (dec_critical_section s) = stats s"
  "freed_structs (dec_critical_section s) = freed_structs s"
  "freed_stacks (dec_critical_section s) = freed_stacks s"
  "critical_section_count (dec_critical_section s) = critical_section_count s - 1"
  "ticks (dec_critical_section s) = ticks s"
  "timers (dec_critical_section s) = timers s"
  "timer_queue (dec_critical_section s) = timer_queue s"
  by (simp_all add: dec_critical_section_def)

lemma set_timer_simps [simp]:
  "threads (set_timer i f s) = threads s"
  "thread_list (set_timer i f s) = thread_list s"
  "current_thread (set_timer i f s) = current_thread s"
  "idle_thread (set_timer i f s) = idle_thread s"
  "run_queue (set_timer i f s) = run_queue s"
  "run_queue_bitmap (set_timer i f s) = run_queue_bitmap s"
  "wait_queues (set_timer i f s) = wait_queues s"
  "mutexes (set_timer i f s) = mutexes s"
  "semaphores (set_timer i f s) = semaphores s"
  "events (set_timer i f s) = events s"
  "stats (set_timer i f s) = stats s"
  "freed_structs (set_timer i f s) = freed_structs s"
  "freed_stacks (set_timer i f s) = freed_stacks s"
  "critical_section_count (set_timer i f s) = critical_section_count s"
  "ticks (set_timer i f s) = ticks s"
  "timers (set_timer i f s) = (timers s)(i := f (timers s i))"
  "timer_queue (set_timer i f s) = timer_queue s"
  by (simp_all add: set_timer_def)

lemma insert_timer_simps [simp]:
  "threads (insert_timer_in_queue i s) = threads s"
  "thread_list (insert_timer_in_queue i s) = thread_list s"
  "current_thread (insert_timer_in_queue i s) = current_thread s"
  "idle_thread (insert_timer_in_queue i s) = idle_thread s"
  "run_queue (insert_timer_in_queue i s) = run_queue s"
  "run_queue_bitmap (insert_timer_in_queue i s) = run_queue_bitmap s"
  "wait_queues (insert_timer_in_queue i s) = wait_queues s"
  "mutexes (insert_timer_in_queue i s) = mutexes s"
  "semaphores (insert_timer_in_queue i s) = semaphores s"
  "events (insert_timer_in_queue i s) = events s"
  "stats (insert_timer_in_queue i s) = stats s"
  "freed_structs (insert_timer_in_queue i s) = freed_structs s"
  "freed_stacks (insert_timer_in_queue i s) = freed_stacks s"
  "critical_section_count (insert_timer_in_queue i s) = critical_section_count s"
  "ticks (insert_timer_in_queue i s) = ticks s"
  "timers (insert_timer_in_queue i s) = (timers s)(i := (timers s i)\<lparr>tm_linked := True\<rparr>)"
  "timer_queue (insert_timer_in_queue i s) = insert_before_later (\<lambda>j. scheduled_time (timers s j)) i (timer_queue s)"
  by (simp_all add: insert_timer_in_queue_def)

lemma delete_timer_simps [simp]:
  "threads (list_delete_timer i s) = threads s"
  "thread_list (list_delete_timer i s) = thread_list s"
  "current_thread (list_delete_timer i s) = current_thread s"
  "idle_thread (list_delete_timer i s) = idle_thread s"
  "run_queue (list_delete_timer i s) = run_queue s"
  "run_queue_bitmap (list_delete_timer i s) = run_queue_bitmap s"
  "wait_queues (list_delete_timer i s) = wait_queues s"
  "mutexes (list_delete_timer i s) = mutexes s"
  "semaphores (list_delete_timer i s) = semaphores s"
  "events (list_delete_timer i s) = events s"
  "stats (list_delete_timer i s) = stats s"
  "freed_structs (list_delete_timer i s) = freed_structs s"
  "freed_stacks (list_delete_timer i s) = freed_stacks s"
  "critical_section_count (list_delete_timer i s) = critical_section_count s"
  "ticks (list_delete_timer i s) = ticks s"
  "timers (list_delete_timer i s) = (timers s)(i := (timers s i)\<lparr>tm_linked := False\<rparr>)"
  "timer_queue (list_delete_timer i s) = remove1 i (timer_queue s)"
  by (simp_all add: list_delete_timer_def)

lemma timer_initialize_simps [simp]:
  "threads (timer_initialize i s) = threads s"
  "thread_list (timer_initialize i s) = thread_list s"
  "current_thread (timer_initialize i s) = current_thread s"
  "idle_thread (timer_initialize i s) = idle_thread s"
  "run_queue (timer_initialize i s) = run_queue s"
  "run_queue_bitmap (timer_initialize i s) = run_queue_bitmap s"
  "wait_queues (timer_initialize i s) = wait_queues s"
  "mutexes (timer_initialize i s) = mutexes s"
  "semaphores (timer_initialize i s) = semaphores s"
  "events (timer_initialize i s) = events s"
  "stats (timer_initialize i s) = stats s"
  "freed_structs (timer_initialize i s) = freed_structs s"
  "freed_stacks (timer_initialize i s) = freed_stacks s"
  "critical_section_count (timer_initialize i s) = critical_section_count s"
  "ticks (timer_initialize i s) = ticks s"
  "timers (timer_initialize i s) = (timers s)(i := TIMER_INITIAL_VALUE)"
  "timer_queue (timer_initialize i s) = timer_queue s"
  by (simp_all add: timer_initialize_def)


lemma in_critical_section_iff [simp]: "in_critical_section s \<longleftrightarrow> 0 < critical_section_count s"
  by (simp add: in_critical_section_def)

section \<open>Enqueueing\<close>

definition enq :: "bool \<Rightarrow> tid \<Rightarrow> kstate \<Rightarrow> kstate" where
  "enq at_head t s =
     (let p = nat (priority (thr s t));
          s = upd_thread t (\<lambda>r. r\<lparr>queue_node := Some (RunQ p)\<rparr>) s
      in s\<lparr>run_queue := (run_queue s)(p := (if at_head then t # run_queue s p else run_queue s p @ [t])),
           run_queue_bitmap := run_queue_bitmap s OR push_bit p 1\<rparr>)"

definition enq_pre :: "tid \<Rightarrow> kstate \<Rightarrow> bool" where
  "enq_pre t s \<longleftrightarrow> valid_thread (thr s t) \<and> th_state (thr s t) = THREAD_READY \<and>
     queue_node (thr s t) = None \<and> 0 < critical_section_count s \<and> prio_ok (thr s t)"

lemma insert_in_run_queue_eq:
  "insert_in_run_queue_head t s = (if enq_pre t s then Some (enq True t s) else None)"
  "insert_in_run_queue_tail t s = (if enq_pre t s then Some (enq False t s) else None)"
  by (simp_all add: insert_in_run_queue_head_def insert_in_run_queue_tail_def enq_def enq_pre_def
      valid_thread_def prio_ok_def Let_def NUM_PRIORITIES_def ASSERT_def)

lemma enq_simps [simp]:
  "threads (enq b t s) = (threads s)(t := (thr s t)\<lparr>queue_node := Some (RunQ (nat (priority (thr s t))))\<rparr>)"
  "thread_list (enq b t s) = thread_list s"
  "current_thread (enq b t s) = current_thread s"
  "idle_thread (enq b t s) = idle_thread s"
  "wait_queues (enq b t s) = wait_queues s"
  "mutexes (enq b t s) = mutexes s"
  "semaphores (enq b t s) = semaphores s"
  "events (enq b t s) = events s"
  "stats (enq b t s) = stats s"
  "freed_structs (enq b t s) = freed_structs s"
  "freed_stacks (enq b t s) = freed_stacks s"
  "critical_section_count (enq b t s) = critical_section_count s"
  "ticks (enq b t s) = ticks s"
  "timers (enq b t s) = timers s"
  "timer_queue (enq b t s) = timer_queue s"
  by (simp_all add: enq_def Let_def)


lemma ginv_cong:
  assumes "ginv T F S s" "threads s' = threads s" "run_queue s' = run_queue s"
    "run_queue_bitmap s' = run_queue_bitmap s" "wait_queues s' = wait_queues s"
    "timers s' = timers s" "timer_queue s' = timer_queue s" "idle_thread s' = idle_thread s"
  shows "ginv T F S s'"
  using assms by (simp add: ginv_def queues_ok_def timers_ok_def timer_ok_def frames_ok_def idle_ok_def retq_ok_def)

text \<open>A step that changes one thread \<open>t\<close> and leaves the timers alone.\<close>

lemma ginv_step_thread:
  assumes g: "ginv T F S s"
    and s': "threads s' = (threads s)(t := r)" "timers s' = timers s" "timer_queue s' = timer_queue s"
      "idle_thread s' = idle_thread s" "queues_ok s'"
    and T': "\<And>u. u \<noteq> t \<Longrightarrow> u \<in> T' \<longleftrightarrow> u \<in> T"
    and r: "if t \<in> T' then floating r else thread_ok r" "live r = live (thr s t)" "valid_thread r = valid_thread (thr s t)"
    and wm: "\<And>w. wq_magic (wait_queues s' w) = wq_magic (wait_queues s w)"
    and tm: "TM_stack t \<in> set (timer_queue s) \<Longrightarrow>
        callback (timers s (TM_stack t)) = Some CB_wait_queue_timeout \<or> th_state r = THREAD_SLEEPING \<or> t \<in> T'"
    and sl: "th_state r = THREAD_SLEEPING \<Longrightarrow> t \<notin> T' \<Longrightarrow> TM_stack t \<in> set (timer_queue s) \<and>
        callback (timers s (TM_stack t)) = Some CB_thread_sleep"
    and id: "idle_thread s = Some t \<Longrightarrow> valid_thread r \<and> th_state r \<in> {THREAD_READY, THREAD_RUNNING}"
  shows "ginv T' F S s'"
proof -
  have live: "live (thr s' u) = live (thr s u)" for u using s'(1) r(2) by simp
  have "timers_ok T F s" using g by (simp add: ginv_def)
  hence "timers_ok T' F s'"
    unfolding timers_ok_def live s'(2,3)
  proof (elim conjE, intro conjI allI impI)
    fix i assume a: "\<forall>i. i \<in> set (timer_queue s) \<longrightarrow> (\<exists>t. i = TM_stack t \<and> timer_ok T F s t)"
      and i: "i \<in> set (timer_queue s)"
    then obtain u where u: "i = TM_stack u" "timer_ok T F s u" by blast
    have "timer_ok T' F s' u"
    proof (cases "u = t")
      case True
      thus ?thesis using u i tm live[of t] by (auto simp: timer_ok_def Let_def s')
    next
      case False
      thus ?thesis using u T'[OF False] live[of u] by (simp add: timer_ok_def Let_def s')
    qed
    thus "\<exists>t. i = TM_stack t \<and> timer_ok T' F s' t" using u(1) by blast
  next
    fix u assume a: "\<forall>t. live (thr s t) \<and> th_state (thr s t) = THREAD_SLEEPING \<and> t \<notin> T \<longrightarrow>
           TM_stack t \<in> set (timer_queue s) \<and> callback (timers s (TM_stack t)) = Some CB_thread_sleep"
      and u: "live (thr s u) \<and> th_state (thr s' u) = THREAD_SLEEPING \<and> u \<notin> T'"
    have *: "TM_stack u \<in> set (timer_queue s) \<and> callback (timers s (TM_stack u)) = Some CB_thread_sleep"
      using a u sl T'[of u] s'(1) by (cases "u = t") auto
    show "TM_stack u \<in> set (timer_queue s)" "callback (timers s (TM_stack u)) = Some CB_thread_sleep"
      using * by simp_all
  qed blast+
  moreover have "frames_ok F S s'" using g by (simp add: ginv_def frames_ok_def live)
  moreover have "idle_ok s'" using g id by (auto simp: ginv_def idle_ok_def s')
  moreover have "if u \<in> T' then floating (thr s' u) else thread_ok (thr s' u)" for u
    using g r(1) T'[of u] by (cases "u = t") (simp_all add: ginv_def s')
  moreover have "retq_ok s'" using g r(3) by (auto simp: ginv_def retq_ok_def s' wm)
  ultimately show ?thesis using s'(5) by (simp add: ginv_def)
qed

lemma thread_ok_off_queue:
  "queue_node r = None \<Longrightarrow> thread_ok r \<longleftrightarrow>
     (valid_thread r \<longrightarrow> th_state r \<noteq> THREAD_READY \<and> th_state r \<noteq> THREAD_BLOCKED \<and> prio_ok r
                         \<and> blocking_wait_queue r = None)"
  by (auto simp: thread_ok_def)

lemma running_off_queue:
  "thread_ok r \<Longrightarrow> valid_thread r \<Longrightarrow> th_state r \<notin> {THREAD_READY, THREAD_BLOCKED} \<Longrightarrow>
     queue_node r = None \<and> blocking_wait_queue r = None \<and> prio_ok r"
  by (auto simp: thread_ok_def split: option.splits queue.splits)

lemma thread_upd_simps [simp]:
  "valid_thread (r\<lparr>queue_node := a\<rparr>) = valid_thread r" "valid_thread (r\<lparr>th_state := b\<rparr>) = valid_thread r"
  "valid_thread (r\<lparr>remaining_quantum := c\<rparr>) = valid_thread r"
  "prio_ok (r\<lparr>queue_node := a\<rparr>) = prio_ok r" "prio_ok (r\<lparr>th_state := b\<rparr>) = prio_ok r"
  "prio_ok (r\<lparr>remaining_quantum := c\<rparr>) = prio_ok r"
  "live (r\<lparr>queue_node := a\<rparr>) = live r"
  "live (r\<lparr>remaining_quantum := c\<rparr>) = live r"
  "live (r\<lparr>th_state := b\<rparr>) = (valid_thread r \<and> b \<noteq> THREAD_DEATH)"
  by (simp_all add: valid_thread_def prio_ok_def live_def)

lemma live_valid: "live r \<Longrightarrow> valid_thread r"
  by (simp add: live_def)

lemma enq_queue_simps:
  "run_queue (enq b t s) = (run_queue s)(nat (priority (thr s t)) :=
     (if b then t # run_queue s (nat (priority (thr s t)))
      else run_queue s (nat (priority (thr s t))) @ [t]))"
  "run_queue_bitmap (enq b t s) = run_queue_bitmap s OR push_bit (nat (priority (thr s t))) 1"
  by (simp_all add: enq_def Let_def)

lemma queues_ok_enq:
  assumes "queues_ok s" "queue_node (thr s t) = None" "prio_ok (thr s t)"
  shows "queues_ok (enq b t s)"
  by (rule queues_ok_insert[OF assms(1,2) _ _ _ _ _ enq_queue_simps])
     (use assms(3) in \<open>simp_all add: prio_ok_def nat_less_iff\<close>)

lemma ginv_enq:
  assumes "ginv T F S s" "t \<in> T" "th_state (thr s t) = THREAD_READY"
    and "TM_stack t \<in> set (timer_queue s) \<Longrightarrow> callback (timers s (TM_stack t)) = Some CB_wait_queue_timeout"
  shows "ginv (T - {t}) F S (enq b t s)"
proof -
  have f: "floating (thr s t)" using assms(1,2) unfolding ginv_def by metis
  have q: "queues_ok (enq b t s)"
    using assms(1) f by - (rule queues_ok_enq, simp_all add: ginv_def floating_def)
  have "thread_ok (thr (enq b t s) t)"
    using f assms(3) by (simp add: floating_def thread_ok_def prio_ok_def live_valid)
  with q f assms(3,4) show ?thesis
    by (intro ginv_step_thread[OF assms(1), where t = t and r = "thr (enq b t s) t"])
       (simp_all add: floating_def live_valid)
qed

lemma ginv_threads_cong:
  assumes "ginv T F S s"
    and "\<And>u. th_magic (thr s' u) = th_magic (thr s u)" "\<And>u. queue_node (thr s' u) = queue_node (thr s u)"
    "\<And>u. priority (thr s' u) = priority (thr s u)" "\<And>u. th_state (thr s' u) = th_state (thr s u)"
    "\<And>u. blocking_wait_queue (thr s' u) = blocking_wait_queue (thr s u)"
    and "run_queue s' = run_queue s" "run_queue_bitmap s' = run_queue_bitmap s"
    "wait_queues s' = wait_queues s" "timers s' = timers s" "timer_queue s' = timer_queue s"
    "idle_thread s' = idle_thread s"
  shows "ginv T F S s'"
proof -
  have "queues_ok s'" using assms by - (rule queues_ok_cong[of s], simp_all add: ginv_def)
  moreover have e: "live (thr s' u) = live (thr s u)" "floating (thr s' u) = floating (thr s u)"
    "thread_ok (thr s' u) = thread_ok (thr s u)" "valid_thread (thr s' u) = valid_thread (thr s u)" for u
    using assms(2-6) by (simp_all add: live_def floating_def thread_ok_def valid_thread_def prio_ok_def
        cong: option.case_cong queue.case_cong)
  moreover have "timers_ok T F s' = timers_ok T F s" "frames_ok F S s' = frames_ok F S s" "idle_ok s' = idle_ok s"
    "retq_ok s' = retq_ok s"
    by (simp_all only: timers_ok_def timer_ok_def frames_ok_def idle_ok_def retq_ok_def e assms(5,9-12))
  ultimately show ?thesis using assms(1) by (simp add: ginv_def)
qed

lemma ginv_upd_thread:
  assumes "ginv T F S s" "\<And>r. th_magic (f r) = th_magic r" "\<And>r. queue_node (f r) = queue_node r"
    "\<And>r. priority (f r) = priority r" "\<And>r. th_state (f r) = th_state r"
    "\<And>r. blocking_wait_queue (f r) = blocking_wait_queue r"
  shows "ginv T F S (upd_thread t f s)"
  by (rule ginv_threads_cong[OF assms(1)]) (simp_all add: assms(2-))

text \<open>The running thread gives up the processor.\<close>

lemma ginv_float:
  assumes "ginv T F S s" "valid_thread (thr s t)" "th_state (thr s t) = THREAD_RUNNING" "t \<notin> T"
    and "f (thr s t) = (thr s t)\<lparr>th_state := THREAD_READY, remaining_quantum := q\<rparr>"
  shows "ginv (insert t T) F S (upd_thread t f s)"
proof -
  have ok: "thread_ok (thr s t)" using assms(1,4) unfolding ginv_def by metis
  have n: "queue_node (thr s t) = None" "blocking_wait_queue (thr s t) = None" "prio_ok (thr s t)"
    using running_off_queue[OF ok assms(2)] assms(3) by simp_all
  have q: "queues_ok (upd_thread t f s)"
    using assms n by - (rule queues_ok_cong[of s], simp_all add: ginv_def)
  show ?thesis
    by (rule ginv_step_thread[OF assms(1), where t = t and r = "f (thr s t)"])
       (use q n assms(2,3,5) in \<open>simp_all add: floating_def live_def\<close>)
qed

text \<open>A thread that was taken off the queues starts to run.\<close>

lemma ginv_run:
  assumes "ginv T F S s" "t \<in> T"
    and "TM_stack t \<in> set (timer_queue s) \<Longrightarrow> callback (timers s (TM_stack t)) = Some CB_wait_queue_timeout"
  shows "ginv (T - {t}) F S (upd_thread t (\<lambda>r. r\<lparr>th_state := THREAD_RUNNING\<rparr>) s)"
proof -
  have f: "floating (thr s t)" using assms(1,2) unfolding ginv_def by metis
  have q: "queues_ok (upd_thread t (\<lambda>r. r\<lparr>th_state := THREAD_RUNNING\<rparr>) s)"
    using assms by - (rule queues_ok_cong[of s], simp_all add: ginv_def)
  show ?thesis
    by (rule ginv_step_thread[OF assms(1), where t = t and
          r = "(thr s t)\<lparr>th_state := THREAD_RUNNING\<rparr>"])
       (use q f assms(3) in \<open>simp_all add: floating_def thread_ok_off_queue live_def\<close>)
qed

section \<open>Choosing the next thread\<close>

lemma next_queue_spec:
  assumes "queues_ok s" "run_queue_bitmap s \<noteq> 0"
  shows "run_queue s (next_queue s) \<noteq> []" "next_queue s < p \<Longrightarrow> run_queue s p = []"
proof -
  have n: "next_queue s = 31 - clz32 (run_queue_bitmap s)"
    by (simp add: next_queue_def HIGHEST_PRIORITY_def NUM_PRIORITIES_def nat_diff_distrib')
  show "run_queue s (next_queue s) \<noteq> []" "next_queue s < p \<Longrightarrow> run_queue s p = []"
    using clz32_highest[OF assms(2)] assms(1) unfolding n queues_ok_def by blast+
qed

definition deq :: "tid \<Rightarrow> nat \<Rightarrow> kstate \<Rightarrow> kstate" where
  "deq t q s =
     (let ts = tl (run_queue s q);
          s = upd_thread t (\<lambda>r. r\<lparr>queue_node := None\<rparr>) (s\<lparr>run_queue := (run_queue s)(q := ts)\<rparr>)
      in if ts = [] then s\<lparr>run_queue_bitmap := run_queue_bitmap s AND NOT (push_bit q 1)\<rparr> else s)"

lemma deq_simps [simp]:
  "threads (deq t q s) = (threads s)(t := (thr s t)\<lparr>queue_node := None\<rparr>)"
  "thread_list (deq t q s) = thread_list s"
  "current_thread (deq t q s) = current_thread s"
  "idle_thread (deq t q s) = idle_thread s"
  "run_queue (deq t q s) = (run_queue s)(q := tl (run_queue s q))"
  "wait_queues (deq t q s) = wait_queues s"
  "mutexes (deq t q s) = mutexes s"
  "semaphores (deq t q s) = semaphores s"
  "events (deq t q s) = events s"
  "stats (deq t q s) = stats s"
  "freed_structs (deq t q s) = freed_structs s"
  "freed_stacks (deq t q s) = freed_stacks s"
  "critical_section_count (deq t q s) = critical_section_count s"
  "ticks (deq t q s) = ticks s"
  "timers (deq t q s) = timers s"
  "timer_queue (deq t q s) = timer_queue s"
  by (simp_all add: deq_def Let_def)

lemma take_next_thread_eq:
  "run_queue s (next_queue s) = t # ts \<Longrightarrow> take_next_thread s = Some (t, deq t (next_queue s) s)"
  by (simp add: take_next_thread_def deq_def Let_def)

lemma in_run_queue:
  assumes "ginv T F S s" "t \<in> set (run_queue s p)"
  shows "valid_thread (thr s t)" "th_state (thr s t) = THREAD_READY" "priority (thr s t) = int p"
    "blocking_wait_queue (thr s t) = None" "t \<notin> T" "prio_ok (thr s t)" "live (thr s t)"
proof -
  have q: "queue_node (thr s t) = Some (RunQ p)" using assms by (simp add: ginv_def queues_ok_def)
  show T: "t \<notin> T" using assms(1) q unfolding ginv_def floating_def by (metis option.distinct(1))
  have "thread_ok (thr s t)" using assms(1) T unfolding ginv_def by metis
  thus "valid_thread (thr s t)" "th_state (thr s t) = THREAD_READY" "priority (thr s t) = int p"
    "blocking_wait_queue (thr s t) = None" "prio_ok (thr s t)" "live (thr s t)"
    using q by (auto simp: thread_ok_def live_def)
qed

text \<open>The timer of a thread that neither sleeps nor floats can only be that of a wait.\<close>

lemma linked_timer:
  assumes "ginv T F S s" "TM_stack t \<in> set (timer_queue s)"
  shows "timer_ok T F s t"
proof -
  have "\<forall>i. i \<in> set (timer_queue s) \<longrightarrow> (\<exists>t. i = TM_stack t \<and> timer_ok T F s t)"
    using assms(1) unfolding ginv_def timers_ok_def by blast
  thus ?thesis using assms(2) by blast
qed

lemma awake_timer:
  assumes "ginv T F S s" "th_state (thr s t) \<noteq> THREAD_SLEEPING" "t \<notin> T" "TM_stack t \<in> set (timer_queue s)"
  shows "callback (timers s (TM_stack t)) = Some CB_wait_queue_timeout" "0 < timeouts (F t)"
  using linked_timer[OF assms(1,4)] assms(2,3) by (auto simp: timer_ok_def Let_def)

lemma ginv_take:
  assumes g: "ginv {} F S s" and r: "run_queue s p = t # ts"
  shows "ginv {t} F S (deq t p s)"
proof -
  note t = in_run_queue[OF g, of t p]
  have q: "queues_ok (deq t p s)"
    by (rule queues_ok_take[where p = p and t = t and ts = ts and s = s])
       (use g r in \<open>simp_all add: ginv_def deq_def Let_def\<close>)
  show ?thesis
    by (rule ginv_step_thread[OF g, where t = t and r = "thr (deq t p s) t"])
       (use q t r in \<open>simp_all add: floating_def live_def\<close>)
qed

section \<open>Returning through the frames\<close>

lemma cs_decs_simps [simp]: "cs_decs [] = 0" "cs_decs (f # fs) = frame_dec f + cs_decs fs"
  by (simp_all add: cs_decs_def)

lemma timeouts_simps [simp]:
  "timeouts [] = 0" "timeouts (f # fs) = (if timeout_frame f then Suc (timeouts fs) else timeouts fs)"
  by (simp_all add: timeouts_def)

lemma ginv_frames:
  assumes "ginv T F S s"
    and "\<And>t. live (thr s t) \<Longrightarrow> list_all plain_frame (F' t) \<and> cs_decs (F' t) \<le> S' t \<and> timeouts (F' t) = timeouts (F t)"
  shows "ginv T F' S' s"
proof -
  have t: "timer_ok T F s t = timer_ok T F' s t" for t
    using assms(2)[of t] by (auto simp: timer_ok_def Let_def)
  have "timers_ok T F s" "frames_ok F S s" using assms(1) by (simp_all add: ginv_def)
  hence "timers_ok T F' s" "frames_ok F' S' s"
    using assms(2) unfolding timers_ok_def frames_ok_def t by (metis, metis)
  thus ?thesis using assms(1) by (simp add: ginv_def)
qed

text \<open>A timer is unlinked while its thread is awake and leaves its wait.\<close>

lemma ginv_cancel:
  assumes g: "ginv {} F S s" and t: "th_state (thr s t) \<noteq> THREAD_SLEEPING"
    and s': "threads s' = threads s" "run_queue s' = run_queue s" "run_queue_bitmap s' = run_queue_bitmap s"
      "wait_queues s' = wait_queues s" "idle_thread s' = idle_thread s"
      "timers s' = (timers s)(TM_stack t := m)" "timer_queue s' = remove1 (TM_stack t) (timer_queue s)"
    and m: "\<not> tm_linked m" "tm_magic m = TIMER_MAGIC"
    and F': "\<And>u. u \<noteq> t \<Longrightarrow> F' u = F u" "list_all plain_frame (F' t)" "cs_decs (F' t) \<le> S t"
      "timeouts (F' t) = 0"
  shows "ginv {} F' S s'"
proof -
  have tk: "timers_ok {} F s" and fr: "frames_ok F S s" using g by (simp_all add: ginv_def)
  have ds: "distinct (timer_queue s)" using tk by (simp add: timers_ok_def)
  have ok: "timer_ok {} F' s' u" if "timer_ok {} F s u" "u \<noteq> t" for u
    using that F' by (simp add: timer_ok_def Let_def s')
  have "timers_ok {} F' s'"
    using tk unfolding timers_ok_def s'(1)
  proof (elim conjE, intro conjI allI impI)
    show "distinct (timer_queue s')" using ds by (simp add: s')
  next
    fix i assume "\<forall>i. tm_linked (timers s i) = (i \<in> set (timer_queue s))"
    thus "tm_linked (timers s' i) = (i \<in> set (timer_queue s'))" using ds m by (simp add: s')
  next
    fix i assume "\<forall>i. i \<in> set (timer_queue s) \<longrightarrow> (\<exists>t. i = TM_stack t \<and> timer_ok {} F s t)"
      "i \<in> set (timer_queue s')"
    thus "\<exists>t. i = TM_stack t \<and> timer_ok {} F' s' t" using ok ds by (auto simp: s')
  next
    fix u assume "\<forall>t. live (thr s t) \<and> 0 < timeouts (F t) \<longrightarrow> tm_magic (timers s (TM_stack t)) = TIMER_MAGIC"
      "live (thr s u) \<and> 0 < timeouts (F' u)"
    thus "tm_magic (timers s' (TM_stack u)) = TIMER_MAGIC" using F' m by (cases "u = t") (simp_all add: s')
  next
    fix u assume a: "\<forall>t. live (thr s t) \<and> th_state (thr s t) = THREAD_SLEEPING \<and> t \<notin> {} \<longrightarrow>
        TM_stack t \<in> set (timer_queue s) \<and> callback (timers s (TM_stack t)) = Some CB_thread_sleep"
      and b: "live (thr s u) \<and> th_state (thr s u) = THREAD_SLEEPING \<and> u \<notin> {}"
    have "u \<noteq> t" "TM_stack u \<in> set (timer_queue s) \<and> callback (timers s (TM_stack u)) = Some CB_thread_sleep"
      using a b t by blast+
    thus "TM_stack u \<in> set (timer_queue s')" "callback (timers s' (TM_stack u)) = Some CB_thread_sleep"
      using ds by (simp_all add: s')
  qed
  moreover have "frames_ok F' S s'"
    using fr F' unfolding frames_ok_def s' by (metis le0 le_numeral_extra(3) zero_le)
  moreover have "queues_ok s'" using g by - (rule queues_ok_cong[of s], simp_all add: ginv_def s')
  ultimately show ?thesis using g by (simp add: ginv_def idle_ok_def retq_ok_def s')
qed

lemma timer_cancel_eq:
  fixes s :: kstate
  shows "tm_magic (timers s i) = TIMER_MAGIC \<Longrightarrow> timer_cancel i s =
     Some (exit_critical_section
       (set_timer i (\<lambda>r. r\<lparr>periodic_time := 0, callback := None, tm_arg := 0\<rparr>)
         (if tm_linked (timers s i) then list_delete_timer i (enter_critical_section s)
          else enter_critical_section s)))"
  by (simp add: timer_cancel_def Let_def)


lemma running_inv_pop:
  assumes r: "running_inv (f # fs) s" and f: "\<not> timeout_frame f"
    and s': "threads s' = threads s" "current_thread s' = current_thread s" "run_queue s' = run_queue s"
      "run_queue_bitmap s' = run_queue_bitmap s" "wait_queues s' = wait_queues s" "timers s' = timers s"
      "timer_queue s' = timer_queue s" "idle_thread s' = idle_thread s"
      "critical_section_count s' = critical_section_count s - frame_dec f"
  shows "running_inv fs s'"
proof -
  have "ginv {} (frames_of (f # fs) s) (saved_of s) s'"
    using r s' by (intro ginv_cong[of _ _ _ s s']) (simp_all add: running_inv_def)
  moreover have "list_all plain_frame (frames_of fs s' t) \<and> cs_decs (frames_of fs s' t) \<le> saved_of s' t \<and>
      timeouts (frames_of fs s' t) = timeouts (frames_of (f # fs) s t)" if "live (thr s' t)" for t
  proof -
    have "frames_ok (frames_of (f # fs) s) (saved_of s) s" using r by (simp add: running_inv_def ginv_def)
    thus ?thesis using that f unfolding frames_ok_def s' by (auto simp: frames_of_def saved_of_def s')
  qed
  ultimately have "ginv {} (frames_of fs s') (saved_of s') s'" by (rule ginv_frames)
  thus ?thesis using r by (simp add: running_inv_def only_running_def saved_pos_def s')
qed

lemma running_inv_cancel:
  assumes r: "running_inv (f # fs) s" and f: "timeout_frame f"
  shows "\<exists>s'. timer_cancel (TM_stack (current_thread s)) s = Some s' \<and> running_inv fs s'"
proof -
  define t where "t = current_thread s"
  have g: "ginv {} (frames_of (f # fs) s) (saved_of s) s" using r by (simp add: running_inv_def)
  have l: "live (thr s t)" "th_state (thr s t) = THREAD_RUNNING"
    using r by (simp_all add: running_inv_def t_def live_def)
  have fr: "list_all plain_frame fs" "cs_decs fs \<le> critical_section_count s" "timeouts fs = 0"
    using g l(1) f by (auto simp: ginv_def frames_ok_def frames_of_def saved_of_def t_def timeout_frame.simps
        elim!: allE[of _ t] timeout_frame.elims)
  have "timers_ok {} (frames_of (f # fs) s) s" using g by (simp add: ginv_def)
  hence m: "tm_magic (timers s (TM_stack t)) = TIMER_MAGIC"
    and d: "tm_linked (timers s (TM_stack t)) \<longleftrightarrow> TM_stack t \<in> set (timer_queue s)"
    using l(1) f unfolding timers_ok_def by (auto simp: frames_of_def t_def)
  let ?s' = "exit_critical_section
       (set_timer (TM_stack t) (\<lambda>r. r\<lparr>periodic_time := 0, callback := None, tm_arg := 0\<rparr>)
         (if tm_linked (timers s (TM_stack t)) then list_delete_timer (TM_stack t) (enter_critical_section s)
          else enter_critical_section s))"
  have "ginv {} (frames_of fs s) (saved_of s) ?s'"
    by (rule ginv_cancel[OF g, where t = t and m = "timers ?s' (TM_stack t)"])
       (use l m d fr in \<open>simp_all add: frames_of_def saved_of_def t_def remove1_idem\<close>)
  moreover have "frames_of fs ?s' = frames_of fs s" "saved_of ?s' = saved_of s"
    by (auto simp: frames_of_def saved_of_def)
  ultimately have "running_inv fs ?s'"
    using r by (simp add: running_inv_def only_running_def saved_pos_def)
  thus ?thesis using timer_cancel_eq[OF m] by (simp add: t_def)
qed

lemma run_frame_ok:
  assumes "running_inv (f # fs) s"
  shows "\<exists>r' s'. run_frame f r s = Some (r', s') \<and> running_inv fs s'"
proof (cases "timeout_frame f")
  case True
  then obtain d where "f = Fr_wait_queue_block d" "d \<noteq> INFINITE_TIME" by (cases f) auto
  with running_inv_cancel[OF assms True] show ?thesis by auto
next
  case False
  have "plain_frame f"
    using assms by (auto simp: running_inv_def ginv_def frames_ok_def frames_of_def live_def)
  then show ?thesis
    using False by (cases f) (auto intro!: running_inv_pop[OF assms False])
qed

lemma run_frames_ok:
  "running_inv fs s \<Longrightarrow> \<exists>s'. run_frames fs r s = Some s' \<and> kinv s'"
proof (induction fs arbitrary: r s)
  case Nil
  let ?s' = "upd_cur (\<lambda>t. t\<lparr>x0 := r\<rparr>) s"
  have "frames_of [] ?s' = frames_of [] s" "saved_of ?s' = saved_of s"
    by (auto simp: frames_of_def saved_of_def)
  moreover have "ginv {} (frames_of [] s) (saved_of s) ?s'"
    using Nil by (intro ginv_upd_thread) (simp_all add: running_inv_def)
  ultimately have "running_inv [] ?s'"
    using Nil by (auto simp: running_inv_def only_running_def saved_pos_def valid_thread_def live_def)
  thus ?case by (simp add: kinv_def)
next
  case (Cons f fs)
  from run_frame_ok[OF Cons.prems] obtain r' s' where
    "run_frame f r s = Some (r', s')" "running_inv fs s'" by blast
  with Cons.IH show ?case by simp
qed

end
