(* ===== verification/LK_Sched.thy ===== *)
theory LK_Sched
  imports LK_Invariant
begin

text \<open>
  The scheduler keeps the invariant: the context switch and the return through the saved frames,
  yielding, preemption, waking, blocking with and without a timeout, sleeping, and the timer
  interrupt. Each result has the form ``the operation returns and the invariant holds
  afterwards'', so it includes that none of the assertions on the way fails.
\<close>

unbundle bit_operations_syntax

section \<open>The context switch\<close>

lemma upd_stats_ginv [simp]: "ginv T F S (upd_stats f s) = ginv T F S s"
  by (rule iffI; erule ginv_cong) simp_all

lemma frames_of_upd [simp]:
  "frames_of ks (upd_stats f s) = frames_of ks s" "saved_of (upd_stats f s) = saved_of s"
  "frames_of ks (enq b t s) = frames_of ks s" "saved_of (enq b t s) = saved_of s"
  "frames_of ks (deq t p s) = frames_of ks s" "saved_of (deq t p s) = saved_of s"
  "frames_of ks (upd_thread t (\<lambda>r. r\<lparr>th_state := st\<rparr>) s) = frames_of ks s"
  "saved_of (upd_thread t (\<lambda>r. r\<lparr>th_state := st\<rparr>) s) = saved_of s"
  by (auto simp: frames_of_def saved_of_def)

lemma switch_stats_simps [simp]:
  "threads (switch_stats a b s) = threads s" "current_thread (switch_stats a b s) = current_thread s"
  "idle_thread (switch_stats a b s) = idle_thread s" "run_queue (switch_stats a b s) = run_queue s"
  "run_queue_bitmap (switch_stats a b s) = run_queue_bitmap s"
  "wait_queues (switch_stats a b s) = wait_queues s" "mutexes (switch_stats a b s) = mutexes s"
  "semaphores (switch_stats a b s) = semaphores s" "events (switch_stats a b s) = events s"
  "critical_section_count (switch_stats a b s) = critical_section_count s"
  "timers (switch_stats a b s) = timers s" "timer_queue (switch_stats a b s) = timer_queue s"
  by (simp_all add: switch_stats_def Let_def)

lemma some_ready:
  assumes "resched_inv {} ks s"
  shows "run_queue_bitmap s \<noteq> 0"
proof -
  obtain i where i: "valid_thread (thr s i)" "th_state (thr s i) \<in> {THREAD_READY, THREAD_RUNNING}"
    using assms by (auto simp: resched_inv_def ginv_def idle_ok_def)
  have "th_state (thr s i) = THREAD_READY" using i assms by (auto simp: resched_inv_def)
  moreover have "thread_ok (thr s i)" using assms by (simp add: resched_inv_def ginv_def)
  ultimately obtain p where "queue_node (thr s i) = Some (RunQ p)"
    using i(1) by (auto simp: thread_ok_def split: option.splits queue.splits)
  moreover have "queues_ok s" using assms by (simp add: resched_inv_def ginv_def)
  ultimately have "i \<in> set (run_queue s p)" "bit (run_queue_bitmap s) p \<longleftrightarrow> run_queue s p \<noteq> []"
    by (simp_all add: queues_ok_def)
  thus ?thesis by (cases "run_queue s p") auto
qed

text \<open>The state in which the chosen thread continues.\<close>

definition switched :: "tid \<Rightarrow> frame list \<Rightarrow> kstate \<Rightarrow> kstate" where
  "switched n ks s =
     (let old = current_thread s;
          s = upd_thread n (\<lambda>r. r\<lparr>th_state := THREAD_RUNNING\<rparr>) s
      in if n = old then s
         else let s = upd_thread n (\<lambda>r. if remaining_quantum r \<le> 0 then r\<lparr>remaining_quantum := 5\<rparr> else r) s;
                  s = switch_stats old n s;
                  s = upd_thread old (\<lambda>r. r\<lparr>saved_critical_section_count := critical_section_count s,
                                            kframes := ks\<rparr>) s
              in s\<lparr>current_thread := n, critical_section_count := saved_critical_section_count (thr s n)\<rparr>)"

lemma thread_resched_eq:
  assumes "0 < critical_section_count s" "run_queue_bitmap s \<noteq> 0" "run_queue s (next_queue s) = n # ts"
    and "n \<noteq> current_thread s \<Longrightarrow> 0 < saved_critical_section_count (thr s n)"
  shows "thread_resched ks s =
    (let s1 = switched n ks (deq n (next_queue s) (upd_stats (\<lambda>x. x\<lparr>reschedules := reschedules x + 1\<rparr>) s))
     in run_frames (frames_of ks s n) 0 s1)"
proof -
  let ?s = "upd_stats (\<lambda>x. x\<lparr>reschedules := reschedules x + 1\<rparr>) s"
  have n: "next_queue ?s = next_queue s" by (simp add: next_queue_def)
  have t: "take_next_thread ?s = Some (n, deq n (next_queue s) ?s)"
    using assms(3) take_next_thread_eq[of ?s n ts] by (simp add: n)
  show ?thesis
    using assms(1,2,4) by (simp add: thread_resched_def Let_def NUM_PRIORITIES_def t switched_def frames_of_def)
qed

lemma switched_simps:
  "current_thread (switched n ks s) = n"
  "run_queue (switched n ks s) = run_queue s" "run_queue_bitmap (switched n ks s) = run_queue_bitmap s"
  "wait_queues (switched n ks s) = wait_queues s" "timers (switched n ks s) = timers s"
  "timer_queue (switched n ks s) = timer_queue s" "idle_thread (switched n ks s) = idle_thread s"
  "th_magic (thr (switched n ks s) t) = th_magic (thr s t)"
  "queue_node (thr (switched n ks s) t) = queue_node (thr s t)"
  "priority (thr (switched n ks s) t) = priority (thr s t)"
  "blocking_wait_queue (thr (switched n ks s) t) = blocking_wait_queue (thr s t)"
  "th_state (thr (switched n ks s) t) = (if t = n then THREAD_RUNNING else th_state (thr s t))"
  "frames_of (frames_of ks s n) (switched n ks s) t = frames_of ks s t"
  "saved_of (switched n ks s) t = saved_of s t"
  by (simp_all add: switched_def Let_def frames_of_def saved_of_def)

lemma switched_ok:
  assumes g: "ginv {n} (frames_of ks s) (saved_of s) s" and c: "0 < critical_section_count s"
    and n: "th_state (thr s n) = THREAD_READY" and p: "saved_pos s"
    and r: "\<And>t. valid_thread (thr s t) \<Longrightarrow> th_state (thr s t) \<noteq> THREAD_RUNNING"
    and tm: "TM_stack n \<in> set (timer_queue s) \<Longrightarrow> callback (timers s (TM_stack n)) = Some CB_wait_queue_timeout"
  shows "running_inv (frames_of ks s n) (switched n ks s)"
proof -
  let ?s = "upd_thread n (\<lambda>r. r\<lparr>th_state := THREAD_RUNNING\<rparr>) s" and ?s' = "switched n ks s"
  have "ginv {} (frames_of ks s) (saved_of s) ?s" using ginv_run[OF g _ tm] by simp
  hence "ginv {} (frames_of ks s) (saved_of s) ?s'"
    by (rule ginv_threads_cong) (simp_all add: switched_simps)
  moreover have "frames_of (frames_of ks s n) ?s' = frames_of ks s" "saved_of ?s' = saved_of s"
    by (simp_all add: fun_eq_iff switched_simps)
  moreover have "floating (thr s n)" using g by (simp add: ginv_def)
  moreover have v: "valid_thread (thr ?s' t) = valid_thread (thr s t)" for t
    by (simp add: valid_thread_def switched_simps)
  moreover have "saved_pos ?s'"
    using p c unfolding saved_pos_def live_def v switched_simps
    by (simp add: switched_def Let_def)
  ultimately show ?thesis
    using r by (auto simp: running_inv_def only_running_def switched_simps floating_def live_def)
qed

lemma resched_inv_head:
  assumes "resched_inv {} ks s"
  obtains n ts where "run_queue s (next_queue s) = n # ts" "valid_thread (thr s n)"
    "th_state (thr s n) = THREAD_READY" "priority (thr s n) = int (next_queue s)"
    "n \<noteq> current_thread s \<Longrightarrow> 0 < saved_critical_section_count (thr s n)"
proof -
  have g: "ginv {} (frames_of ks s) (saved_of s) s" using assms by (simp add: resched_inv_def)
  have q: "queues_ok s" using g by (simp add: ginv_def)
  obtain n ts where n: "run_queue s (next_queue s) = n # ts"
    using next_queue_spec(1)[OF q some_ready[OF assms]] by (cases "run_queue s (next_queue s)") auto
  hence "n \<in> set (run_queue s (next_queue s))" by simp
  from in_run_queue[OF g this] n that show ?thesis
    using assms by (simp add: resched_inv_def saved_pos_def)
qed

lemma thread_resched_ok:
  assumes "resched_inv {} ks s"
  shows "\<exists>s'. thread_resched ks s = Some s' \<and> kinv s'"
proof -
  obtain n ts where n: "run_queue s (next_queue s) = n # ts" "th_state (thr s n) = THREAD_READY"
    "n \<noteq> current_thread s \<Longrightarrow> 0 < saved_critical_section_count (thr s n)"
    using resched_inv_head[OF assms] by metis
  let ?u = "upd_stats (\<lambda>x. x\<lparr>reschedules := reschedules x + 1\<rparr>) s"
  let ?s = "deq n (next_queue s) ?u"
  have g: "ginv {} (frames_of ks s) (saved_of s) s" and c: "0 < critical_section_count s"
    using assms by (simp_all add: resched_inv_def)
  have "ginv {n} (frames_of ks s) (saved_of s) ?s"
    by (rule ginv_take) (use g n(1) in simp_all)
  moreover have "saved_pos ?s" "\<And>t. valid_thread (thr ?s t) \<Longrightarrow> th_state (thr ?s t) \<noteq> THREAD_RUNNING"
    using assms by (auto simp: resched_inv_def saved_pos_def valid_thread_def split: if_splits)
  ultimately have "running_inv (frames_of ks ?s n) (switched n ks ?s)"
    using c n(2) awake_timer[OF g, of n] by (intro switched_ok) simp_all
  hence "\<exists>s'. run_frames (frames_of ks s n) 0 (switched n ks ?s) = Some s' \<and> kinv s'"
    using run_frames_ok by simp
  thus ?thesis
    using thread_resched_eq[OF c some_ready[OF assms] n(1,3)] by (simp add: Let_def)
qed

text \<open>Returning never changes which thread runs.\<close>

lemma timer_cancel_current: "timer_cancel i s = Some s' \<Longrightarrow> current_thread s' = current_thread (s :: kstate)"
  by (auto simp: timer_cancel_def Let_def)

lemma run_frame_current: "run_frame f r s = Some (r', s') \<Longrightarrow> current_thread s' = current_thread s"
  by (cases f) (auto simp: timer_cancel_current thread_join_finish_def Let_def split: if_splits)

lemma run_frames_current: "run_frames fs r s = Some s' \<Longrightarrow> current_thread s' = current_thread s"
  by (induction fs arbitrary: r s) (auto simp: bind_Some_iff dest!: run_frame_current)

section \<open>Steps of the operations\<close>

text \<open>
  \<open>kst T R ks s\<close>: the threads in \<open>T\<close> are off the queues, the threads in \<open>R\<close> are the ones in state
  \<^verbatim>\<open>THREAD_RUNNING\<close>, and \<open>ks\<close> is what is left of the call the current thread is in.
\<close>

definition kst :: "tid set \<Rightarrow> tid set \<Rightarrow> frame list \<Rightarrow> kstate \<Rightarrow> bool" where
  "kst T R ks s \<longleftrightarrow> ginv T (frames_of ks s) (saved_of s) s \<and> saved_pos s \<and>
     (\<forall>t. valid_thread (thr s t) \<and> th_state (thr s t) = THREAD_RUNNING \<longleftrightarrow> t \<in> R)"

lemma running_inv_kst: "running_inv ks s \<longleftrightarrow> kst {} {current_thread s} ks s"
  by (auto simp: running_inv_def kst_def only_running_def)

lemma resched_inv_kst: "resched_inv T ks s \<longleftrightarrow> kst T {} ks s \<and> 0 < critical_section_count s"
  by (auto simp: resched_inv_def kst_def)

lemma kst_ginv: "kst T R ks s \<Longrightarrow> ginv T (frames_of ks s) (saved_of s) s"
  by (simp add: kst_def)

lemma frame_dec_nonneg: "0 \<le> frame_dec f"
  by (cases f) simp_all

lemma cs_decs_nonneg: "0 \<le> cs_decs fs"
  by (induction fs) (simp_all add: frame_dec_nonneg)

lemma running_frames:
  assumes "running_inv ks s"
  shows "list_all plain_frame ks" "cs_decs ks \<le> critical_section_count s" "0 \<le> critical_section_count s"
proof -
  have "frames_ok (frames_of ks s) (saved_of s) s" "live (cur s)"
    using assms by (simp_all add: running_inv_def ginv_def live_def)
  thus "list_all plain_frame ks" "cs_decs ks \<le> critical_section_count s"
    by (auto simp: frames_ok_def frames_of_def saved_of_def)
  thus "0 \<le> critical_section_count s" using cs_decs_nonneg[of ks] by linarith
qed

text \<open>The rest of the state may change freely.\<close>

lemma kst_cong:
  assumes "kst T R ks s" "threads s' = threads s" "run_queue s' = run_queue s"
    "run_queue_bitmap s' = run_queue_bitmap s" "wait_queues s' = wait_queues s"
    "timers s' = timers s" "timer_queue s' = timer_queue s" "idle_thread s' = idle_thread s"
    "current_thread s' = current_thread s" "critical_section_count s' = critical_section_count s"
  shows "kst T R ks s'"
proof -
  have "frames_of ks s' = frames_of ks s" "saved_of s' = saved_of s"
    using assms(2,9,10) by (auto simp: frames_of_def saved_of_def)
  thus ?thesis using assms by (auto simp: kst_def saved_pos_def intro: ginv_cong)
qed

text \<open>A function calls another one: its own rest goes on the frames.\<close>

lemma kst_frames:
  assumes k: "kst T R ks s"
    and ks': "list_all plain_frame ks'" "timeouts ks' = timeouts ks" "cs_decs ks' \<le> critical_section_count s'"
    and s': "threads s' = threads s" "run_queue s' = run_queue s"
    "run_queue_bitmap s' = run_queue_bitmap s" "wait_queues s' = wait_queues s"
    "timers s' = timers s" "timer_queue s' = timer_queue s" "idle_thread s' = idle_thread s"
    "current_thread s' = current_thread s"
  shows "kst T R ks' s'"
proof -
  have "ginv T (frames_of ks s) (saved_of s) s'"
    by (rule ginv_cong[OF kst_ginv[OF k]]) (simp_all add: s')
  moreover have "frames_ok (frames_of ks s) (saved_of s) s" using k by (simp add: kst_def ginv_def)
  ultimately have "ginv T (frames_of ks' s') (saved_of s') s'"
    using ks' by - (rule ginv_frames, auto simp: frames_ok_def frames_of_def saved_of_def s')
  thus ?thesis using k by (simp add: kst_def saved_pos_def s')
qed

lemma running_push:
  assumes "running_inv ks s" "plain_frame f" "\<not> timeout_frame f"
    and "threads s' = threads s" "run_queue s' = run_queue s"
    "run_queue_bitmap s' = run_queue_bitmap s" "wait_queues s' = wait_queues s"
    "timers s' = timers s" "timer_queue s' = timer_queue s" "idle_thread s' = idle_thread s"
    "current_thread s' = current_thread s"
    "critical_section_count s' = critical_section_count s + frame_dec f"
  shows "running_inv (f # ks) s'"
proof -
  have "kst {} {current_thread s} ks s" using assms(1) by (simp add: running_inv_kst)
  hence "kst {} {current_thread s} (f # ks) s'"
    by (rule kst_frames) (use assms running_frames[OF assms(1)] in simp_all)
  thus ?thesis by (simp add: running_inv_kst assms)
qed

lemma kst_enq:
  assumes "kst T R ks s" "t \<in> T" "th_state (thr s t) = THREAD_READY"
    and "TM_stack t \<in> set (timer_queue s) \<Longrightarrow> callback (timers s (TM_stack t)) = Some CB_wait_queue_timeout"
  shows "kst (T - {t}) R ks (enq b t s)"
proof -
  have "t \<notin> R" using assms(1,3) by (force simp: kst_def)
  thus ?thesis using assms ginv_enq[of T _ _ s t b] by (auto simp: kst_def saved_pos_def)
qed

lemma kst_float:
  assumes "kst T {current_thread s} ks s" "current_thread s \<notin> T"
    and "f (cur s) = (cur s)\<lparr>th_state := THREAD_READY, remaining_quantum := q\<rparr>"
  shows "kst (insert (current_thread s) T) {} ks (upd_cur f s)"
proof -
  have r: "valid_thread (cur s)" "th_state (cur s) = THREAD_RUNNING" using assms(1) by (auto simp: kst_def)
  have "frames_of ks (upd_cur f s) = frames_of ks s" "saved_of (upd_cur f s) = saved_of s"
    by (auto simp: frames_of_def saved_of_def)
  thus ?thesis
    using assms(1) r ginv_float[OF kst_ginv[OF assms(1)] r assms(2), of f q] assms(3)
    by (auto simp: kst_def saved_pos_def live_def split: if_splits)
qed

lemma floating_enq_pre:
  assumes "kst T R ks s" "t \<in> T" "th_state (thr s t) = THREAD_READY" "0 < critical_section_count s"
  shows "enq_pre t s"
proof -
  have "floating (thr s t)" using assms(1,2) unfolding kst_def ginv_def by metis
  thus ?thesis using assms(3,4) by (simp add: enq_pre_def floating_def live_def)
qed

text \<open>The running thread puts itself back on its run queue.\<close>

lemma give_up:
  assumes r: "running_inv ks s" and c: "0 < critical_section_count s"
    and f: "f (cur s) = (cur s)\<lparr>th_state := THREAD_READY, remaining_quantum := q\<rparr>"
  shows "enq_pre (current_thread s) (upd_cur f s)"
    "resched_inv {} ks (enq b (current_thread s) (upd_cur f s))"
proof -
  have k: "kst {current_thread s} {} ks (upd_cur f s)"
    using kst_float[of "{}" s ks f q] r f by (simp add: running_inv_kst)
  have tm: "TM_stack (current_thread s) \<in> set (timer_queue s) \<Longrightarrow>
      callback (timers s (TM_stack (current_thread s))) = Some CB_wait_queue_timeout"
    by (rule awake_timer[of "{}" "frames_of ks s" "saved_of s"]) (use r in \<open>simp_all add: running_inv_def\<close>)
  show "enq_pre (current_thread s) (upd_cur f s)"
    by (rule floating_enq_pre[OF k]) (use c f in simp_all)
  have "kst ({current_thread s} - {current_thread s}) {} ks (enq b (current_thread s) (upd_cur f s))"
    by (rule kst_enq[OF k]) (use f tm in simp_all)
  thus "resched_inv {} ks (enq b (current_thread s) (upd_cur f s))" using c by (simp add: resched_inv_kst)
qed

lemma running_cur: "running_inv ks s \<Longrightarrow> th_magic (cur s) = THREAD_MAGIC \<and> th_state (cur s) = THREAD_RUNNING"
  by (simp add: running_inv_def valid_thread_def)

theorem thread_yield_ok:
  assumes "running_inv ks s"
  shows "\<exists>s'. thread_yield ks s = Some s' \<and> kinv s'"
proof -
  let ?s = "upd_stats (\<lambda>x. x\<lparr>yields := yields x + 1\<rparr>) (enter_critical_section s)"
  let ?f = "\<lambda>r. r\<lparr>th_state := THREAD_READY, remaining_quantum := 0\<rparr>"
  have r: "running_inv (Fr_exit_cs # ks) ?s"
    by (rule running_push[OF assms]) simp_all
  have c: "0 < critical_section_count ?s" using running_frames(3)[OF assms] by simp
  note g = give_up[OF r c, of ?f 0]
  show ?thesis
    using thread_resched_ok[OF g(2)[where b = False]] g(1) running_cur[OF assms]
    by (simp add: thread_yield_def Let_def insert_in_run_queue_eq)
qed

theorem thread_preempt_ok:
  assumes "running_inv ks s"
  shows "\<exists>s'. thread_preempt ks s = Some s' \<and> kinv s'"
proof -
  define u where "u = (if Some (current_thread (enter_critical_section s)) \<noteq> idle_thread (enter_critical_section s)
            then upd_stats (\<lambda>x. x\<lparr>preempts := preempts x + 1\<rparr>) (enter_critical_section s)
            else enter_critical_section s)"
  let ?f = "\<lambda>r. r\<lparr>th_state := THREAD_READY\<rparr>"
  have r: "running_inv (Fr_exit_cs # ks) u"
    by (rule running_push[OF assms]) (simp_all add: u_def)
  have c: "0 < critical_section_count u" using running_frames(3)[OF assms] by (simp add: u_def)
  have f: "?f (cur u) = (cur u)\<lparr>th_state := THREAD_READY, remaining_quantum := remaining_quantum (cur u)\<rparr>"
    by simp
  note g = give_up[where f = ?f, OF r c f]
  show ?thesis
    using thread_resched_ok[OF g(2)[where b = "0 < remaining_quantum (cur u)"]] g(1) running_cur[OF assms]
    by (cases "Some (current_thread s) = idle_thread s"; cases "0 < remaining_quantum (cur s)")
       (simp_all add: thread_preempt_def Let_def insert_in_run_queue_eq u_def)
qed

section \<open>Waking\<close>

text \<open>A waiter leaves its wait queue and becomes ready, not yet on a run queue.\<close>

definition woken :: "wq_id \<Rightarrow> tid \<Rightarrow> status \<Rightarrow> kstate \<Rightarrow> kstate" where
  "woken w t err s =
     upd_thread t (\<lambda>r. r\<lparr>th_state := THREAD_READY, wait_queue_block_ret := err,
                         blocking_wait_queue := None, queue_node := None\<rparr>)
       (upd_wq w (\<lambda>q. q\<lparr>wq_list := remove1 t (wq_list q), wq_count := wq_count q - 1\<rparr>) s)"

lemma woken_simps [simp]:
  "threads (woken w t err s) = (threads s)(t := (thr s t)\<lparr>th_state := THREAD_READY, wait_queue_block_ret := err, blocking_wait_queue := None, queue_node := None\<rparr>)"
  "current_thread (woken w t err s) = current_thread s"
  "idle_thread (woken w t err s) = idle_thread s"
  "run_queue (woken w t err s) = run_queue s"
  "run_queue_bitmap (woken w t err s) = run_queue_bitmap s"
  "wait_queues (woken w t err s) = (wait_queues s)(w := (wait_queues s w)\<lparr>wq_list := remove1 t (wq_list (wait_queues s w)), wq_count := wq_count (wait_queues s w) - 1\<rparr>)"
  "mutexes (woken w t err s) = mutexes s"
  "semaphores (woken w t err s) = semaphores s"
  "events (woken w t err s) = events s"
  "critical_section_count (woken w t err s) = critical_section_count s"
  "ticks (woken w t err s) = ticks s"
  "timers (woken w t err s) = timers s"
  "timer_queue (woken w t err s) = timer_queue s"
  by (simp_all add: woken_def)

lemma frames_of_woken [simp]:
  "frames_of ks (woken w t err s) = frames_of ks s" "saved_of (woken w t err s) = saved_of s"
  by (auto simp: frames_of_def saved_of_def)

lemma in_wait_queue:
  assumes "ginv T F S s" "t \<in> set (wq_list (wait_queues s w))"
  shows "valid_thread (thr s t)" "th_state (thr s t) = THREAD_BLOCKED" "blocking_wait_queue (thr s t) = Some w"
    "queue_node (thr s t) = Some (WaitQ w)" "t \<notin> T" "prio_ok (thr s t)"
    "wq_magic (wait_queues s w) = WAIT_QUEUE_MAGIC"
proof -
  show q: "queue_node (thr s t) = Some (WaitQ w)" using assms by (simp add: ginv_def queues_ok_def)
  show T: "t \<notin> T" using assms(1) q unfolding ginv_def floating_def by (metis option.distinct(1))
  have "thread_ok (thr s t)" using assms(1) T unfolding ginv_def by metis
  thus "valid_thread (thr s t)" "th_state (thr s t) = THREAD_BLOCKED"
    "blocking_wait_queue (thr s t) = Some w" "prio_ok (thr s t)"
    using q by (auto simp: thread_ok_def)
  have "wq_list (wait_queues s w) \<noteq> []" using assms(2) by auto
  thus "wq_magic (wait_queues s w) = WAIT_QUEUE_MAGIC" using assms(1) by (simp add: ginv_def queues_ok_def)
qed

lemma blocked_waits:
  assumes "ginv T F S s" "valid_thread (thr s t)" "th_state (thr s t) = THREAD_BLOCKED" "t \<notin> T"
  obtains w where "t \<in> set (wq_list (wait_queues s w))" "blocking_wait_queue (thr s t) = Some w"
proof -
  have "thread_ok (thr s t)" using assms(1,4) unfolding ginv_def by metis
  with assms(2,3) obtain w where "queue_node (thr s t) = Some (WaitQ w)" "blocking_wait_queue (thr s t) = Some w"
    by (auto simp: thread_ok_def split: option.splits queue.splits)
  thus ?thesis using that assms(1) by (simp add: ginv_def queues_ok_def)
qed

lemma not_idle:
  "ginv T F S s \<Longrightarrow> th_state (thr s t) \<notin> {THREAD_READY, THREAD_RUNNING} \<Longrightarrow> idle_thread s \<noteq> Some t"
  by (auto simp: ginv_def idle_ok_def)

lemma ginv_woken:
  assumes g: "ginv T F S s" and t: "t \<in> set (wq_list (wait_queues s w))"
  shows "ginv (insert t T) F S (woken w t err s)"
proof -
  note i = in_wait_queue[OF g t]
  have q: "queues_ok (woken w t err s)"
    by (rule queues_ok_leave_wait[where t = t and w = w and s = s]) (use g i in \<open>simp_all add: ginv_def\<close>)
  have v: "valid_thread (thr (woken w t err s) t)" "prio_ok (thr (woken w t err s) t)"
    using i by (simp_all add: valid_thread_def prio_ok_def)
  show ?thesis
    by (rule ginv_step_thread[OF g, where t = t and r = "thr (woken w t err s) t"])
       (use q i v not_idle[OF g, of t] in \<open>simp_all add: floating_def live_def\<close>)
qed

lemma kst_woken:
  assumes k: "kst T R ks s" and t: "t \<in> set (wq_list (wait_queues s w))"
  shows "kst (insert t T) R ks (woken w t err s)"
    "TM_stack t \<in> set (timer_queue s) \<Longrightarrow> callback (timers s (TM_stack t)) = Some CB_wait_queue_timeout"
proof -
  note i = in_wait_queue[OF kst_ginv[OF k] t]
  have R: "t \<notin> R" using k i(2) by (force simp: kst_def)
  have v: "valid_thread (thr (woken w t err s) u) = valid_thread (thr s u)"
    "th_state (thr (woken w t err s) u) = (if u = t then THREAD_READY else th_state (thr s u))"
    "saved_critical_section_count (thr (woken w t err s) u) = saved_critical_section_count (thr s u)" for u
    by (simp_all add: valid_thread_def)
  show "kst (insert t T) R ks (woken w t err s)"
    using k ginv_woken[OF kst_ginv[OF k] t, of err] R i(1,2)
    unfolding kst_def saved_pos_def live_def v by auto
  show "TM_stack t \<in> set (timer_queue s) \<Longrightarrow> callback (timers s (TM_stack t)) = Some CB_wait_queue_timeout"
    by (rule awake_timer[OF kst_ginv[OF k]]) (use i in simp_all)
qed

lemma pop_wake_eq:
  assumes "ginv T F S s"
  shows "wq_remove_head w s = None \<longleftrightarrow> wq_list (wait_queues s w) = []"
    "wq_list (wait_queues s w) = t # ts \<Longrightarrow> \<exists>u. wq_remove_head w s = Some (t, u) \<and>
       wake_thread w t err u = Some (woken w t err s)"
proof -
  show "wq_remove_head w s = None \<longleftrightarrow> wq_list (wait_queues s w) = []"
    by (simp add: wq_remove_head_def split: list.splits)
  assume l: "wq_list (wait_queues s w) = t # ts"
  hence "th_state (thr s t) = THREAD_BLOCKED" using in_wait_queue(2)[OF assms, of t w] by simp
  thus "\<exists>u. wq_remove_head w s = Some (t, u) \<and> wake_thread w t err u = Some (woken w t err s)"
    using l by (simp add: wq_remove_head_def wake_thread_def Let_def woken_def upd_thread_def upd_wq_def fun_upd_def)
       (simp add: fun_eq_iff)
qed

lemma kst_wake_insert:
  assumes k: "kst T R ks s" and t: "t \<in> set (wq_list (wait_queues s w))" and c: "0 < critical_section_count s"
  shows "insert_in_run_queue_head t (woken w t err s) = Some (enq True t (woken w t err s))"
    "kst T R ks (enq True t (woken w t err s))"
proof -
  note w = kst_woken[OF k t]
  have T: "t \<notin> T" using in_wait_queue(5)[OF kst_ginv[OF k] t] .
  have "enq_pre t (woken w t err s)" by (rule floating_enq_pre[OF w(1)]) (use c in simp_all)
  thus "insert_in_run_queue_head t (woken w t err s) = Some (enq True t (woken w t err s))"
    by (simp add: insert_in_run_queue_eq)
  have "kst (insert t T - {t}) R ks (enq True t (woken w t err s))"
    by (rule kst_enq[OF w(1)]) (use w(2) in simp_all)
  thus "kst T R ks (enq True t (woken w t err s))" using T by simp
qed

lemma wake_all_loop_ok:
  assumes "kst T R ks s" "0 < critical_section_count s" "length (wq_list (wait_queues s w)) = n"
  shows "\<exists>s'. wake_all_loop n w err r s = Some (r + int n, s') \<and> kst T R ks s' \<and>
     wq_list (wait_queues s' w) = [] \<and> wq_magic (wait_queues s' w) = wq_magic (wait_queues s w) \<and>
     current_thread s' = current_thread s \<and> critical_section_count s' = critical_section_count s \<and>
     (\<forall>t. th_magic (thr s' t) = th_magic (thr s t)) \<and>
     (\<forall>t. if t \<in> set (wq_list (wait_queues s w))
          then th_state (thr s' t) = THREAD_READY \<and> wait_queue_block_ret (thr s' t) = err
          else thr s' t = thr s t)"
  using assms
proof (induction n arbitrary: r s)
  case 0
  thus ?case using pop_wake_eq(1)[OF kst_ginv[OF 0(1)], of w] by simp
next
  case (Suc n)
  obtain t ts where l: "wq_list (wait_queues s w) = t # ts" using Suc.prems(3) by (auto simp: length_Suc_conv)
  obtain u where u: "wq_remove_head w s = Some (t, u)" "wake_thread w t err u = Some (woken w t err s)"
    using pop_wake_eq(2)[OF kst_ginv[OF Suc.prems(1)] l] by blast
  let ?s = "enq True t (woken w t err s)"
  have i: "insert_in_run_queue_head t (woken w t err s) = Some ?s" "kst T R ks ?s"
    using kst_wake_insert[OF Suc.prems(1) _ Suc.prems(2), of t w] l by simp_all
  have d: "t \<notin> set ts" using kst_ginv[OF Suc.prems(1)] l by (auto simp: ginv_def queues_ok_def dest!: spec[of _ w])
  obtain s' where s': "wake_all_loop n w err (r + 1) ?s = Some (r + 1 + int n, s')" "kst T R ks s'"
    "wq_list (wait_queues s' w) = []" "wq_magic (wait_queues s' w) = wq_magic (wait_queues ?s w)"
    "current_thread s' = current_thread ?s" "critical_section_count s' = critical_section_count ?s"
    "\<forall>v. th_magic (thr s' v) = th_magic (thr ?s v)"
    "\<forall>v. if v \<in> set (wq_list (wait_queues ?s w))
         then th_state (thr s' v) = THREAD_READY \<and> wait_queue_block_ret (thr s' v) = err
         else thr s' v = thr ?s v"
    using Suc.IH[OF i(2), of "r + 1"] Suc.prems l by auto
  have m: "th_magic (thr s' v) = th_magic (thr s v)" for v using s'(7) by simp
  have v: "if v \<in> set (wq_list (wait_queues s w))
      then th_state (thr s' v) = THREAD_READY \<and> wait_queue_block_ret (thr s' v) = err
      else thr s' v = thr s v" for v
    using s'(8)[THEN spec, of v] l d by (cases "v = t") auto
  have "wake_all_loop (Suc n) w err r s = Some (r + int (Suc n), s')"
    using u i(1) s'(1) by (simp add: algebra_simps)
  moreover have "wq_magic (wait_queues s' w) = wq_magic (wait_queues s w)" "current_thread s' = current_thread s"
    "critical_section_count s' = critical_section_count s" using s'(4-6) by simp_all
  ultimately show ?case using s'(2,3) m v by blast
qed

lemma wq_count_empty: "ginv T F S s \<Longrightarrow> wq_count (wait_queues s w) = int (length (wq_list (wait_queues s w)))"
  by (simp add: ginv_def queues_ok_def)

lemma wait_queue_wake_all_ok:
  assumes r: "running_inv ks s" and c: "0 < critical_section_count s"
    and m: "wq_magic (wait_queues s w) = WAIT_QUEUE_MAGIC"
  shows "\<exists>s'. wait_queue_wake_all ks w b err s = Some s' \<and> kinv s'"
proof -
  note g = r[unfolded running_inv_kst, THEN kst_ginv]
  let ?n = "length (wq_list (wait_queues s w))"
  show ?thesis
  proof (cases "b \<and> 0 < ?n")
    case True
    let ?f = "\<lambda>r. r\<lparr>th_state := THREAD_READY\<rparr>"
    have f: "?f (cur s) = (cur s)\<lparr>th_state := THREAD_READY, remaining_quantum := remaining_quantum (cur s)\<rparr>"
      by simp
    note gu = give_up[where f = ?f, OF r c f]
    let ?u = "enq True (current_thread s) (upd_cur ?f s)"
    obtain s' where s': "wake_all_loop ?n w err 0 ?u = Some (int ?n, s')" "kst {} {} ks s'"
      "wq_list (wait_queues s' w) = []" "critical_section_count s' = critical_section_count s"
      using wake_all_loop_ok[of "{}" "{}" ks ?u w ?n err 0] gu(2)[of True] c by (auto simp: resched_inv_kst)
    have z: "wq_count (wait_queues s' w) = 0" using wq_count_empty[OF kst_ginv[OF s'(2)]] s'(3) by simp
    have "resched_inv {} (Fr_return (int ?n) # ks) s'"
      using s'(2,4) c running_frames[OF r]
      by (auto simp: resched_inv_kst intro!: kst_frames[OF s'(2)])
    from thread_resched_ok[OF this] show ?thesis
      using True gu(1) s'(1) z m c wq_count_empty[OF g, of w]
      by (auto simp: wait_queue_wake_all_def wait_queue_wake_all_body_def insert_in_run_queue_eq)
  next
    case False
    obtain s' where s': "wake_all_loop ?n w err 0 s = Some (int ?n, s')" "kst {} {current_thread s} ks s'"
      "wq_list (wait_queues s' w) = []" "current_thread s' = current_thread s"
      using wake_all_loop_ok[of "{}" "{current_thread s}" ks s w ?n err 0] r c by (auto simp: running_inv_kst)
    have z: "wq_count (wait_queues s' w) = 0" using wq_count_empty[OF kst_ginv[OF s'(2)]] s'(3) by simp
    have "running_inv ks s'" using s'(2,4) by (simp add: running_inv_kst)
    from run_frames_ok[OF this, of "int ?n"] show ?thesis
      using False s'(1) z m c wq_count_empty[OF g, of w]
      by (auto simp: wait_queue_wake_all_def wait_queue_wake_all_body_def)
  qed
qed

lemma wait_queue_wake_one_ok:
  assumes r: "running_inv ks s" and c: "0 < critical_section_count s"
    and m: "wq_magic (wait_queues s w) = WAIT_QUEUE_MAGIC"
  shows "\<exists>s'. wait_queue_wake_one ks w b err s = Some s' \<and> kinv s'"
proof (cases "wq_list (wait_queues s w)")
  case Nil
  note g = r[unfolded running_inv_kst, THEN kst_ginv]
  show ?thesis
    using pop_wake_eq(1)[OF g, of w] Nil m c run_frames_ok[OF r, of 0]
    by (simp add: wait_queue_wake_one_def)
next
  case (Cons t ts)
  have k: "kst {} {current_thread s} ks s" using r by (simp add: running_inv_kst)
  have t: "t \<in> set (wq_list (wait_queues s w))" using Cons by simp
  obtain u where u: "wq_remove_head w s = Some (t, u)" "wake_thread w t err u = Some (woken w t err s)"
    using pop_wake_eq(2)[OF kst_ginv[OF k] Cons] by blast
  show ?thesis
  proof (cases b)
    case False
    note i = kst_wake_insert[OF k t c, of err]
    have "running_inv ks (enq True t (woken w t err s))" using i(2) by (simp add: running_inv_kst)
    from run_frames_ok[OF this, of 1] show ?thesis
      using False u i(1) m c by (simp add: wait_queue_wake_one_def)
  next
    case True
    let ?c = "current_thread s" and ?f = "\<lambda>r. r\<lparr>th_state := THREAD_READY\<rparr>"
    let ?s1 = "woken w t err s"
    let ?s2 = "upd_thread ?c ?f ?s1"
    let ?s3 = "enq True ?c ?s2"
    let ?s4 = "enq True t ?s3"
    note wk = kst_woken[OF k t]
    have ne: "t \<noteq> ?c"
      using in_wait_queue(2)[OF kst_ginv[OF k] t] r by (auto simp: running_inv_def)
    have tm: "TM_stack ?c \<in> set (timer_queue s) \<Longrightarrow> callback (timers s (TM_stack ?c)) = Some CB_wait_queue_timeout"
      by (rule awake_timer[OF kst_ginv[OF k]]) (use r in \<open>simp_all add: running_inv_def\<close>)
    have k2: "kst {?c, t} {} ks ?s2"
      using kst_float[of "{t}" ?s1 ks ?f "remaining_quantum (cur s)"] wk(1) ne by simp
    have p2: "enq_pre ?c ?s2" by (rule floating_enq_pre[OF k2]) (use c in simp_all)
    have "kst ({?c, t} - {?c}) {} ks ?s3" by (rule kst_enq[OF k2]) (use tm in simp_all)
    hence k3: "kst {t} {} ks ?s3" using ne by (simp add: insert_Diff_if)
    have p3: "enq_pre t ?s3" by (rule floating_enq_pre[OF k3]) (use c ne in simp_all)
    have "kst ({t} - {t}) {} ks ?s4" by (rule kst_enq[OF k3]) (use wk(2) ne in simp_all)
    hence k4: "kst {} {} ks ?s4" by simp
    have "kst {} {} (Fr_return 1 # ks) ?s4"
      by (rule kst_frames[OF k4]) (use running_frames[OF r] in simp_all)
    hence "resched_inv {} (Fr_return 1 # ks) ?s4" using c by (simp add: resched_inv_kst)
    from thread_resched_ok[OF this] show ?thesis
      using True u p2 p3 m c by (simp add: wait_queue_wake_one_def insert_in_run_queue_eq)
  qed
qed

lemma thread_unblock_from_wait_queue_ok:
  assumes k: "kst {} R ks s" and c: "0 < critical_section_count s" and v: "valid_thread (thr s t)"
  shows "\<exists>r s'. thread_unblock_from_wait_queue t err s = Some (r, s') \<and> kst {} R ks s' \<and>
     current_thread s' = current_thread s \<and> critical_section_count s' = critical_section_count s \<and>
     timer_queue s' = timer_queue s \<and> timers s' = timers s"
proof (cases "th_state (thr s t) = THREAD_BLOCKED")
  case False
  thus ?thesis using c v k by (simp add: thread_unblock_from_wait_queue_def valid_thread_def)
next
  case True
  obtain w where w: "t \<in> set (wq_list (wait_queues s w))" "blocking_wait_queue (thr s t) = Some w"
    using blocked_waits[OF kst_ginv[OF k] v True] by auto
  note i = in_wait_queue[OF kst_ginv[OF k] w(1)]
  note e = kst_wake_insert[OF k w(1) c, of err]
  have "upd_thread t (\<lambda>r. r\<lparr>blocking_wait_queue := None, th_state := THREAD_READY, wait_queue_block_ret := err\<rparr>)
      (upd_wq w (\<lambda>q. q\<lparr>wq_count := wq_count q - 1\<rparr>) (list_delete_queue_node t s)) = woken w t err s"
    using i(4) by (simp add: list_delete_queue_node_def woken_def upd_thread_def upd_wq_def fun_upd_def)
       (simp add: fun_eq_iff)
  thus ?thesis
    using True c v w(2) i(4,7) e by (simp add: thread_unblock_from_wait_queue_def valid_thread_def Let_def)
qed

section \<open>Arming a timer: waiting with a timeout, and sleeping\<close>

lemma ginv_arm:
  assumes g: "ginv {} F S s" and u: "TM_stack t \<notin> set (timer_queue s)" and l: "live (thr s t)"
    and s': "threads s' = (threads s)(t := r)" "timers s' = (timers s)(TM_stack t := m)"
      "set (timer_queue s') = insert (TM_stack t) (set (timer_queue s))" "distinct (timer_queue s')"
      "idle_thread s' = idle_thread s" "queues_ok s'" "wait_queues s' = wait_queues s"
    and r: "thread_ok r" "live r" "idle_thread s \<noteq> Some t"
    and m: "tm_linked m" "tm_arg m = t" "tm_magic m = TIMER_MAGIC" "periodic_time m = 0"
      "callback m = Some (if th_state r = THREAD_SLEEPING then CB_thread_sleep else CB_wait_queue_timeout)"
    and F': "\<And>u. u \<noteq> t \<Longrightarrow> F' u = F u \<and> S' u = S u" "list_all plain_frame (F' t)"
      "cs_decs (F' t) \<le> S' t" "timeouts (F' t) = (if th_state r = THREAD_SLEEPING then 0 else 1)"
  shows "ginv {} F' S' s'"
proof -
  have tk: "timers_ok {} F s" and fr: "frames_ok F S s" and th: "\<And>t. thread_ok (thr s t)"
    using g by (simp_all add: ginv_def)
  have ok: "timer_ok {} F' s' u" if "timer_ok {} F s u" "u \<noteq> t" for u
    using that F'(1)[of u] by (simp add: timer_ok_def Let_def s')
  have okt: "timer_ok {} F' s' t" using m r F' by (auto simp: timer_ok_def Let_def s')
  have lv: "live (thr s' u) = live (thr s u)" for u using l r(2) by (simp add: s')
  have "timers_ok {} F' s'"
    using tk unfolding timers_ok_def lv
  proof (elim conjE, intro conjI allI impI)
    fix i assume "\<forall>i. tm_linked (timers s i) = (i \<in> set (timer_queue s))"
    thus "tm_linked (timers s' i) = (i \<in> set (timer_queue s'))" using m by (simp add: s')
  next
    fix i assume "\<forall>i. i \<in> set (timer_queue s) \<longrightarrow> (\<exists>t. i = TM_stack t \<and> timer_ok {} F s t)"
      "i \<in> set (timer_queue s')"
    thus "\<exists>t. i = TM_stack t \<and> timer_ok {} F' s' t" using ok okt u by (auto simp: s')
  next
    fix u assume "\<forall>t. live (thr s t) \<and> 0 < timeouts (F t) \<longrightarrow> tm_magic (timers s (TM_stack t)) = TIMER_MAGIC"
      "live (thr s u) \<and> 0 < timeouts (F' u)"
    thus "tm_magic (timers s' (TM_stack u)) = TIMER_MAGIC" using F'(1)[of u] m by (cases "u = t") (simp_all add: s')
  next
    fix u assume a: "\<forall>t. live (thr s t) \<and> th_state (thr s t) = THREAD_SLEEPING \<and> t \<notin> {} \<longrightarrow>
        TM_stack t \<in> set (timer_queue s) \<and> callback (timers s (TM_stack t)) = Some CB_thread_sleep"
      and b: "live (thr s u) \<and> th_state (thr s' u) = THREAD_SLEEPING \<and> u \<notin> {}"
    have "TM_stack u \<in> set (timer_queue s') \<and> callback (timers s' (TM_stack u)) = Some CB_thread_sleep"
    proof (cases "u = t")
      case True
      thus ?thesis using b m(5) by (simp add: s')
    next
      case False
      thus ?thesis using spec[OF a, of u] b by (simp add: s')
    qed
    thus "TM_stack u \<in> set (timer_queue s')" "callback (timers s' (TM_stack u)) = Some CB_thread_sleep"
      by simp_all
  qed (simp_all add: s')
  moreover have "frames_ok F' S' s'"
    unfolding frames_ok_def lv
  proof (intro allI impI)
    fix u assume "live (thr s u)"
    thus "list_all plain_frame (F' u) \<and> cs_decs (F' u) \<le> S' u \<and> timeouts (F' u) \<le> 1"
      using fr F' by (cases "u = t") (simp_all add: frames_ok_def)
  qed
  moreover have "idle_ok s'" using g r(3) by (auto simp: ginv_def idle_ok_def s')
  moreover have "retq_ok s'" using g l by (auto simp: ginv_def retq_ok_def live_def s')
  ultimately show ?thesis using th r(1) s' by (simp add: ginv_def)
qed

lemma timer_set_oneshot_ok:
  fixes s :: kstate
  assumes "timers s i = TIMER_INITIAL_VALUE"
  shows "\<exists>s' m. timer_set_oneshot i d cb a s = Some s' \<and> threads s' = threads s \<and>
     run_queue s' = run_queue s \<and> run_queue_bitmap s' = run_queue_bitmap s \<and> wait_queues s' = wait_queues s \<and>
     idle_thread s' = idle_thread s \<and> current_thread s' = current_thread s \<and>
     critical_section_count s' = critical_section_count s \<and> timers s' = (timers s)(i := m) \<and>
     set (timer_queue s') = insert i (set (timer_queue s)) \<and>
     distinct (timer_queue s') = (i \<notin> set (timer_queue s) \<and> distinct (timer_queue s)) \<and>
     tm_linked m \<and> tm_arg m = a \<and> tm_magic m = TIMER_MAGIC \<and> periodic_time m = 0 \<and> callback m = Some cb"
  using assms by (simp add: timer_set_oneshot_def timer_set_def TIMER_INITIAL_VALUE_def Let_def)
     (intro conjI impI; rule exI, rule conjI, rule refl, simp)

lemma awake_unlinked:
  assumes "running_inv ks s" "timeouts ks = 0"
  shows "TM_stack (current_thread s) \<notin> set (timer_queue s)"
  using awake_timer(2)[of "{}" "frames_of ks s" "saved_of s" s "current_thread s"] assms
  by (auto simp: running_inv_def frames_of_def)

text \<open>The running thread puts itself on a wait queue.\<close>

definition blocked_on :: "wq_id \<Rightarrow> kstate \<Rightarrow> kstate" where
  "blocked_on w s =
     upd_cur (\<lambda>r. r\<lparr>queue_node := Some (WaitQ w), th_state := THREAD_BLOCKED,
                    blocking_wait_queue := Some w, wait_queue_block_ret := NO_ERROR\<rparr>)
       (upd_wq w (\<lambda>q. q\<lparr>wq_list := wq_list q @ [current_thread s], wq_count := wq_count q + 1\<rparr>) s)"

lemma blocked_on_simps [simp]:
  "threads (blocked_on w s) = (threads s)(current_thread s := (cur s)\<lparr>queue_node := Some (WaitQ w),
     th_state := THREAD_BLOCKED, blocking_wait_queue := Some w, wait_queue_block_ret := NO_ERROR\<rparr>)"
  "current_thread (blocked_on w s) = current_thread s" "idle_thread (blocked_on w s) = idle_thread s"
  "run_queue (blocked_on w s) = run_queue s" "run_queue_bitmap (blocked_on w s) = run_queue_bitmap s"
  "wait_queues (blocked_on w s) = (wait_queues s)(w := (wait_queues s w)\<lparr>
     wq_list := wq_list (wait_queues s w) @ [current_thread s], wq_count := wq_count (wait_queues s w) + 1\<rparr>)"
  "critical_section_count (blocked_on w s) = critical_section_count s" "ticks (blocked_on w s) = ticks s"
  "timers (blocked_on w s) = timers s" "timer_queue (blocked_on w s) = timer_queue s"
  "mutexes (blocked_on w s) = mutexes s" "semaphores (blocked_on w s) = semaphores s"
  "events (blocked_on w s) = events s"
  by (simp_all add: blocked_on_def)

lemma kst_blocked_on:
  assumes r: "running_inv ks s" and m: "wq_magic (wait_queues s w) = WAIT_QUEUE_MAGIC"
    and i: "idle_thread s \<noteq> Some (current_thread s)" and o: "timeouts ks = 0"
  shows "kst {} {} ks (blocked_on w s)"
proof -
  let ?c = "current_thread s"
  have k: "kst {} {?c} ks s" using r by (simp add: running_inv_kst)
  have c: "valid_thread (cur s)" "th_state (cur s) = THREAD_RUNNING" using r by (simp_all add: running_inv_def)
  have q: "queue_node (cur s) = None" "prio_ok (cur s)"
    using running_off_queue[of "cur s"] kst_ginv[OF k] c by (auto simp: ginv_def)
  have qs: "queues_ok (blocked_on w s)"
    by (rule queues_ok_enter_wait[where s = s and t = ?c and w = w])
       (use kst_ginv[OF k] q m in \<open>simp_all add: ginv_def\<close>)
  have v: "valid_thread (thr (blocked_on w s) t) = valid_thread (thr s t)"
    "prio_ok (thr (blocked_on w s) t) = prio_ok (thr s t)"
    "th_state (thr (blocked_on w s) t) = (if t = ?c then THREAD_BLOCKED else th_state (thr s t))"
    "t \<noteq> ?c \<Longrightarrow> thr (blocked_on w s) t = thr s t" for t
    by (simp_all add: valid_thread_def prio_ok_def)
  have f: "frames_of ks (blocked_on w s) = frames_of ks s" "saved_of (blocked_on w s) = saved_of s"
    by (auto simp: frames_of_def saved_of_def)
  have "ginv {} (frames_of ks s) (saved_of s) (blocked_on w s)"
    by (rule ginv_step_thread[OF kst_ginv[OF k], where t = ?c and r = "thr (blocked_on w s) ?c"])
       (use qs v[of ?c] c q i awake_unlinked[OF r o] in \<open>simp_all add: live_def thread_ok_def\<close>)
  thus ?thesis using k unfolding kst_def f saved_pos_def live_def v(1,3) by auto
qed

lemma thread_block_ok:
  assumes k: "kst {} {} (Fr_exit_cs # ks) (enter_critical_section s)" and c: "0 < critical_section_count s"
    and st: "valid_thread (cur s)" "th_state (cur s) = THREAD_BLOCKED"
  shows "\<exists>s'. thread_block ks s = Some s' \<and> kinv s'"
proof -
  have "resched_inv {} (Fr_exit_cs # ks) (enter_critical_section s)"
    using k c by (simp add: resched_inv_kst)
  from thread_resched_ok[OF this] show ?thesis
    using st by (simp add: thread_block_def valid_thread_def)
qed

lemma wait_queue_block_ok:
  assumes r: "running_inv ks s" and m: "wq_magic (wait_queues s w) = WAIT_QUEUE_MAGIC"
    and i: "idle_thread s \<noteq> Some (current_thread s)" and o: "timeouts ks = 0"
    and c: "0 < critical_section_count s"
  shows "\<exists>s'. wait_queue_block ks w d s = Some s' \<and> kinv s'"
proof -
  let ?b = "blocked_on w s" and ?c = "current_thread s"
  note k = kst_blocked_on[OF r m i o] and fr = running_frames[OF r]
  have v: "valid_thread (thr ?b ?c)" using r by (simp add: running_inv_def valid_thread_def)
  have st: "th_state (cur s) = THREAD_RUNNING" using r by (simp add: running_inv_def)
  consider "d = 0" | "d = INFINITE_TIME" "d \<noteq> 0" | "d \<noteq> 0" "d \<noteq> INFINITE_TIME" by blast
  thus ?thesis
  proof cases
    case 1
    thus ?thesis using run_frames_ok[OF r] m st c by (simp add: wait_queue_block_def)
  next
    case 2
    have "kst {} {} (Fr_exit_cs # Fr_wait_queue_block d # ks) (enter_critical_section ?b)"
      by (rule kst_frames[OF k]) (use fr 2(1) in simp_all)
    from thread_block_ok[OF this] show ?thesis
      using 2 m st c v by (simp add: wait_queue_block_def Let_def blocked_on_def)
  next
    case 3
    let ?u = "timer_initialize (TM_stack ?c) ?b"
    obtain s' t where s': "timer_set_oneshot (TM_stack ?c) d CB_wait_queue_timeout ?c ?u = Some s'"
      "threads s' = threads ?b" "run_queue s' = run_queue ?b" "run_queue_bitmap s' = run_queue_bitmap ?b"
      "wait_queues s' = wait_queues ?b" "idle_thread s' = idle_thread ?b"
      "current_thread s' = ?c" "critical_section_count s' = critical_section_count ?b"
      "timers s' = (timers ?u)(TM_stack ?c := t)"
      "set (timer_queue s') = insert (TM_stack ?c) (set (timer_queue ?b))"
      "distinct (timer_queue s') = (TM_stack ?c \<notin> set (timer_queue ?b) \<and> distinct (timer_queue ?b))"
      "tm_linked t" "tm_arg t = ?c" "tm_magic t = TIMER_MAGIC" "periodic_time t = 0"
      "callback t = Some CB_wait_queue_timeout"
      using timer_set_oneshot_ok[of ?u "TM_stack ?c" d CB_wait_queue_timeout ?c] by auto
    let ?e = "enter_critical_section s'" and ?ks = "Fr_exit_cs # Fr_wait_queue_block d # ks"
    have u: "TM_stack ?c \<notin> set (timer_queue s)" by (rule awake_unlinked[OF r o])
    have bg: "queues_ok ?b" "\<And>t. thread_ok (thr ?b t)" "distinct (timer_queue ?b)"
      using kst_ginv[OF k] by (simp_all add: ginv_def timers_ok_def)
    have q: "queues_ok ?e" by (rule queues_ok_cong[OF bg(1)]) (simp_all add: s')
    have "ginv {} (frames_of ?ks ?e) (saved_of ?e) ?e"
      by (rule ginv_arm[OF kst_ginv[OF k], where t = ?c and r = "thr ?b ?c" and m = t])
         (use q bg(2)[of ?c] bg(3) u v i s' 3 o fr in
            \<open>simp_all add: live_def frames_of_def saved_of_def del: blocked_on_simps(1)\<close>,
          use v in \<open>simp_all add: fun_eq_iff\<close>)
    hence "kst {} {} ?ks ?e"
      using k unfolding kst_def by (simp add: saved_pos_def s')
    from thread_block_ok[OF this] show ?thesis
      using 3 m st c v s'(1,2,7,8) by (simp add: wait_queue_block_def Let_def blocked_on_def[symmetric])
        (simp add: blocked_on_def)
  qed
qed

lemma thread_sleep_ok:
  assumes r: "running_inv [] s" and i: "idle_thread s \<noteq> Some (current_thread s)"
  shows "\<exists>s'. thread_sleep d s = Some s' \<and> kinv s'"
proof -
  let ?c = "current_thread s" and ?u = "enter_critical_section (timer_initialize (TM_stack (current_thread s)) s)"
  have k: "kst {} {?c} [] s" using r by (simp add: running_inv_kst)
  have c: "valid_thread (cur s)" "th_state (cur s) = THREAD_RUNNING" using r by (simp_all add: running_inv_def)
  have q: "queue_node (cur s) = None" "blocking_wait_queue (cur s) = None" "prio_ok (cur s)"
    using running_off_queue[of "cur s"] kst_ginv[OF k] c by (auto simp: ginv_def)
  obtain s' m where s': "timer_set_oneshot (TM_stack ?c) d CB_thread_sleep ?c ?u = Some s'"
    "threads s' = threads s" "run_queue s' = run_queue s" "run_queue_bitmap s' = run_queue_bitmap s"
    "wait_queues s' = wait_queues s" "idle_thread s' = idle_thread s"
    "current_thread s' = ?c" "critical_section_count s' = critical_section_count s + 1"
    "timers s' = (timers ?u)(TM_stack ?c := m)"
    "set (timer_queue s') = insert (TM_stack ?c) (set (timer_queue s))"
    "distinct (timer_queue s') = (TM_stack ?c \<notin> set (timer_queue s) \<and> distinct (timer_queue s))"
    "tm_linked m" "tm_arg m = ?c" "tm_magic m = TIMER_MAGIC" "periodic_time m = 0"
    "callback m = Some CB_thread_sleep"
    using timer_set_oneshot_ok[of ?u "TM_stack ?c" d CB_thread_sleep ?c] by auto
  let ?e = "upd_thread ?c (\<lambda>r. r\<lparr>th_state := THREAD_SLEEPING\<rparr>) s'"
  have u: "TM_stack ?c \<notin> set (timer_queue s)" by (rule awake_unlinked[OF r]) simp
  have bg: "queues_ok s" "distinct (timer_queue s)"
    using kst_ginv[OF k] by (simp_all add: ginv_def timers_ok_def)
  have qe: "queues_ok ?e" by (rule queues_ok_cong[OF bg(1)]) (simp_all add: s')
  have "ginv {} (frames_of [Fr_exit_cs] ?e) (saved_of ?e) ?e"
    by (rule ginv_arm[OF kst_ginv[OF k], where t = ?c and r = "(cur s)\<lparr>th_state := THREAD_SLEEPING\<rparr>" and m = m])
       (use qe bg(2) u c q i s' running_frames(3)[OF r] in
          \<open>simp_all add: live_def frames_of_def saved_of_def thread_ok_off_queue fun_eq_iff\<close>)
  hence "resched_inv {} [Fr_exit_cs] ?e"
    using k running_frames(3)[OF r] c unfolding resched_inv_kst kst_def
    by (auto simp: saved_pos_def s' split: if_splits)
  from thread_resched_ok[OF this] show ?thesis
    using c s'(1,7) by (simp add: thread_sleep_def valid_thread_def)
qed

section \<open>The timer interrupt\<close>

lemma ginv_unlink:
  assumes g: "ginv {} F S s" and l: "TM_stack t \<in> set (timer_queue s)"
  shows "ginv (if th_state (thr s t) = THREAD_SLEEPING then {t} else {}) F S (list_delete_timer (TM_stack t) s)"
    (is "ginv ?T F S ?s")
proof -
  have tk: "timers_ok {} F s" using g by (simp add: ginv_def)
  have ds: "distinct (timer_queue s)" using tk by (simp add: timers_ok_def)
  have lv: "live (thr s t)" using linked_timer[OF g l] by (simp add: timer_ok_def Let_def)
  have ok: "timer_ok ?T F ?s u" if "timer_ok {} F s u" "u \<noteq> t" for u
    using that by (auto simp: timer_ok_def Let_def)
  have "timers_ok ?T F ?s"
    using tk unfolding timers_ok_def
  proof (elim conjE, intro conjI allI impI)
    show "distinct (timer_queue ?s)" using ds by simp
  next
    fix i assume "\<forall>i. tm_linked (timers s i) = (i \<in> set (timer_queue s))"
    thus "tm_linked (timers ?s i) = (i \<in> set (timer_queue ?s))" using ds by simp
  next
    fix i assume "\<forall>i. i \<in> set (timer_queue s) \<longrightarrow> (\<exists>t. i = TM_stack t \<and> timer_ok {} F s t)"
      "i \<in> set (timer_queue ?s)"
    then obtain u where "i = TM_stack u" "timer_ok {} F s u" "u \<noteq> t" using ds by auto
    thus "\<exists>t. i = TM_stack t \<and> timer_ok ?T F ?s t" using ok by blast
  next
    fix u assume "\<forall>t. live (thr s t) \<and> 0 < timeouts (F t) \<longrightarrow> tm_magic (timers s (TM_stack t)) = TIMER_MAGIC"
      "live (thr ?s u) \<and> 0 < timeouts (F u)"
    thus "tm_magic (timers ?s (TM_stack u)) = TIMER_MAGIC" by auto
  next
    fix u assume a: "\<forall>t. live (thr s t) \<and> th_state (thr s t) = THREAD_SLEEPING \<and> t \<notin> {} \<longrightarrow>
        TM_stack t \<in> set (timer_queue s) \<and> callback (timers s (TM_stack t)) = Some CB_thread_sleep"
      and b: "live (thr ?s u) \<and> th_state (thr ?s u) = THREAD_SLEEPING \<and> u \<notin> ?T"
    have "u \<noteq> t" using b by (auto split: if_splits)
    moreover have "TM_stack u \<in> set (timer_queue s) \<and> callback (timers s (TM_stack u)) = Some CB_thread_sleep"
      using a b by auto
    ultimately show "TM_stack u \<in> set (timer_queue ?s)" "callback (timers ?s (TM_stack u)) = Some CB_thread_sleep"
      using ds by simp_all
  qed
  moreover have "queues_ok ?s" using g by - (rule queues_ok_cong[of s], simp_all add: ginv_def)
  moreover have "floating (thr s t)" if "th_state (thr s t) = THREAD_SLEEPING"
    using running_off_queue[of "thr s t"] lv that g by (auto simp: floating_def live_def ginv_def)
  ultimately show ?thesis using g by (auto simp: ginv_def frames_ok_def idle_ok_def retq_ok_def)
qed

lemma ginv_float_ready:
  assumes g: "ginv {t} F S s" and i: "idle_thread s \<noteq> Some t"
  shows "ginv {t} F S (upd_thread t (\<lambda>r. r\<lparr>th_state := THREAD_READY\<rparr>) s)" (is "ginv _ _ _ ?s")
proof -
  have f: "floating (thr s t)" using g by (simp add: ginv_def)
  have q: "queues_ok ?s" using g by - (rule queues_ok_cong[of s], simp_all add: ginv_def)
  show ?thesis
    by (rule ginv_step_thread[OF g, where t = t and r = "(thr s t)\<lparr>th_state := THREAD_READY\<rparr>"])
       (use f q i in \<open>simp_all add: floating_def live_def\<close>)
qed

lemma timer_fire_ok:
  assumes k: "kst {} R ks s" and c: "0 < critical_section_count s" and h: "i \<in> set (timer_queue s)"
  shows "\<exists>r s'. timer_fire fire_callback now i r0 s = Some (r, s') \<and> kst {} R ks s' \<and>
    current_thread s' = current_thread s \<and> critical_section_count s' = critical_section_count s \<and>
    timer_queue s' = remove1 i (timer_queue s) \<and>
    (\<forall>j. scheduled_time (timers s' j) = scheduled_time (timers s j))"
proof -
  note g = kst_ginv[OF k]
  have "timers_ok {} (frames_of ks s) s" using g by (simp add: ginv_def)
  then obtain t where i: "i = TM_stack t" using h unfolding timers_ok_def by blast
  have ok: "timer_ok {} (frames_of ks s) s t" using linked_timer[OF g, of t] h i by simp
  let ?d = "(list_delete_timer i s)\<lparr>stat_timers := stat_timers (list_delete_timer i s) + 1\<rparr>"
  have fd: "frames_of ks ?d = frames_of ks s" "saved_of ?d = saved_of s" by (auto simp: frames_of_def saved_of_def)
  have un: "ginv (if th_state (thr s t) = THREAD_SLEEPING then {t} else {}) (frames_of ks s) (saved_of s) ?d"
    by (rule ginv_cong[OF ginv_unlink[OF g, of t]]) (use h i in simp_all)
  have v: "valid_thread (thr s t)" using ok by (simp add: timer_ok_def Let_def live_def)
  from ok consider "callback (timers s i) = Some CB_thread_sleep" "th_state (thr s t) = THREAD_SLEEPING"
    | "callback (timers s i) = Some CB_wait_queue_timeout" "th_state (thr s t) \<noteq> THREAD_SLEEPING"
    | "callback (timers s i) = Some CB_wait_queue_timeout" "th_state (thr s t) = THREAD_SLEEPING"
    by (auto simp: timer_ok_def Let_def i)
  thus ?thesis
  proof cases
    case 1
    let ?u = "upd_thread t (\<lambda>r. r\<lparr>th_state := THREAD_READY\<rparr>) ?d"
    have "idle_thread s \<noteq> Some t" using not_idle[OF g, of t] 1(2) by simp
    hence gu: "ginv {t} (frames_of ks s) (saved_of s) ?u"
      using un 1(2) by (intro ginv_float_ready) simp_all
    have "t \<notin> R" using k 1(2) by (force simp: kst_def)
    hence ku: "kst {t} R ks ?u"
      using k gu 1(2) unfolding kst_def saved_pos_def
      by (auto simp: fd live_def split: if_splits)
    have p: "enq_pre t ?u" by (rule floating_enq_pre[OF ku]) (use c in simp_all)
    have "distinct (timer_queue s)" using g by (simp add: ginv_def timers_ok_def)
    hence "kst ({t} - {t}) R ks (enq True t ?u)"
      by - (rule kst_enq[OF ku], simp_all add: i)
    thus ?thesis
      using 1 ok p v by (simp add: timer_fire_def timer_ok_def Let_def i thread_sleep_handler_def
          insert_in_run_queue_eq valid_thread_def)
  next
    case 2
    have kd: "kst {} R ks ?d" using k un 2(2) by (simp add: kst_def fd saved_pos_def)
    obtain r s' where u: "thread_unblock_from_wait_queue t ERR_TIMED_OUT ?d = Some (r, s')" "kst {} R ks s'"
      "current_thread s' = current_thread s" "critical_section_count s' = critical_section_count s"
      "timer_queue s' = remove1 i (timer_queue s)" "timers s' = timers ?d"
      using thread_unblock_from_wait_queue_ok[OF kd, of t ERR_TIMED_OUT] c v by auto
    thus ?thesis
      using 2 ok v by (simp add: timer_fire_def timer_ok_def Let_def i wait_queue_timeout_handler_def valid_thread_def)
  next
    case 3
    have "live (thr s t) \<and> th_state (thr s t) = THREAD_SLEEPING \<and> t \<notin> {}"
      using ok 3(2) by (simp add: timer_ok_def Let_def)
    hence "callback (timers s (TM_stack t)) = Some CB_thread_sleep"
      using g unfolding ginv_def timers_ok_def by blast
    thus ?thesis using 3(1) i by simp
  qed
qed

lemma timer_tick_loop_ok:
  assumes "kst {} R ks s" "0 < critical_section_count s" "length (timer_queue s) = n"
  shows "\<exists>r s'. timer_tick_loop fire_callback now r0 s = Some (r, s') \<and> kst {} R ks s' \<and>
    current_thread s' = current_thread s \<and> critical_section_count s' = critical_section_count s"
  using assms
proof (induction n arbitrary: r0 s)
  case 0
  thus ?case by (subst timer_tick_loop.simps) simp
next
  case (Suc n)
  obtain i l where q: "timer_queue s = i # l" using Suc.prems(3) by (auto simp: length_Suc_conv)
  show ?case
  proof (cases "TIME_LT now (scheduled_time (timers s i))")
    case True
    thus ?thesis using Suc.prems q by (subst timer_tick_loop.simps) simp
  next
    case False
    obtain r s' where f: "timer_fire fire_callback now i r0 s = Some (r, s')" "kst {} R ks s'"
      "current_thread s' = current_thread s" "critical_section_count s' = critical_section_count s"
      "timer_queue s' = l"
      using timer_fire_ok[OF Suc.prems(1,2), of i now r0] q by auto
    have "\<exists>r' s''. timer_tick_loop fire_callback now r s' = Some (r', s'') \<and> kst {} R ks s'' \<and>
        current_thread s'' = current_thread s' \<and> critical_section_count s'' = critical_section_count s'"
      by (rule Suc.IH) (use f Suc.prems q in simp_all)
    thus ?thesis using False q f by (subst timer_tick_loop.simps) simp
  qed
qed

lemma thread_timer_tick_ok:
  assumes "running_inv ks s"
  shows "running_inv ks (snd (thread_timer_tick s))"
    "critical_section_count (snd (thread_timer_tick s)) = critical_section_count s"
proof -
  let ?u = "upd_cur (\<lambda>r. r\<lparr>remaining_quantum := remaining_quantum r - 1\<rparr>) s"
  have "frames_of ks ?u = frames_of ks s" "saved_of ?u = saved_of s"
    by (auto simp: frames_of_def saved_of_def)
  moreover have "ginv {} (frames_of ks s) (saved_of s) ?u"
    using assms by (intro ginv_upd_thread) (simp_all add: running_inv_def)
  ultimately have "running_inv ks ?u"
    using assms by (auto simp: running_inv_def only_running_def saved_pos_def)
  thus "running_inv ks (snd (thread_timer_tick s))"
    using assms by (simp add: thread_timer_tick_def Let_def)
  show "critical_section_count (snd (thread_timer_tick s)) = critical_section_count s"
    by (simp add: thread_timer_tick_def Let_def)
qed

theorem platform_irq_ok:
  assumes "kinv s"
  shows "\<exists>s'. platform_irq s = Some s' \<and> kinv s'"
proof -
  define u where "u = (let s = upd_stats (\<lambda>x. x\<lparr>interrupts := interrupts x + 1\<rparr>) (inc_critical_section s)
      in s\<lparr>ticks := ticks s + ucast (timer_interval s)\<rparr>)"
  let ?u = "u\<lparr>stat_timer_ints := stat_timer_ints u + 1\<rparr>"
  have s: "running_inv [] s" using assms by (simp add: kinv_def)
  have c: "0 < critical_section_count ?u" using running_frames(3)[OF s] by (simp add: u_def Let_def)
  have "running_inv [Fr_irq 0] ?u" by (rule running_push[OF s]) (simp_all add: u_def Let_def)
  hence "kst {} {current_thread ?u} [Fr_irq 0] ?u" by (simp only: running_inv_kst)
  then obtain r v where v: "timer_tick_loop fire_callback (current_time u) INT_NO_RESCHEDULE ?u = Some (r, v)"
    "kst {} {current_thread ?u} [Fr_irq 0] v" "current_thread v = current_thread ?u"
    "critical_section_count v = critical_section_count ?u"
    using timer_tick_loop_ok[OF _ c refl] by blast
  obtain r' w' where t: "thread_timer_tick v = (r', w')" by (cases "thread_timer_tick v") simp
  let ?w = w'
  have w: "running_inv [Fr_irq 0] ?w" "0 < critical_section_count ?w"
    using thread_timer_tick_ok[of "[Fr_irq 0]" v] v c t by (simp_all add: running_inv_kst)
  have q: "running_inv [Fr_irq n] ?w" for n
  proof -
    have "kst {} {current_thread ?w} [Fr_irq 0] ?w" using w(1) by (simp only: running_inv_kst)
    hence "kst {} {current_thread ?w} [Fr_irq n] ?w"
      by (rule kst_frames) (use running_frames[OF w(1)] in simp_all)
    thus ?thesis by (simp add: running_inv_kst)
  qed
  have d: "kinv (dec_critical_section ?w)"
    unfolding kinv_def by (rule running_inv_pop[OF q]) simp_all
  have irq: "timer_irq (upd_stats (\<lambda>x. x\<lparr>interrupts := interrupts x + 1\<rparr>) (inc_critical_section s))
      = Some (if r' = INT_RESCHEDULE then INT_RESCHEDULE else r, ?w)"
    using v(1) t w(2) unfolding timer_irq_def timer_tick_def u_def Let_def by simp
  show ?thesis
    using thread_preempt_ok[OF q, of "x0 (cur ?w)"] d unfolding platform_irq_def Let_def irq by simp
qed

lemma timer_tick_loop_fires:
  assumes "kst {} R ks s" "0 < critical_section_count s" "length (timer_queue s) = n"
    "timers_sorted base s" "in_window base now" "timer_tick_loop fire_callback now r0 s = Some (r, s')"
  shows "timer_queue s' = filter (\<lambda>j. TIME_LT now (scheduled_time (timers s j))) (timer_queue s)"
  using assms
proof (induction n arbitrary: r0 s)
  case 0
  thus ?case by (simp add: timer_tick_loop.simps[of _ _ _ s])
next
  case (Suc n)
  obtain i l where q: "timer_queue s = i # l" using Suc.prems(3) by (auto simp: length_Suc_conv)
  show ?case
  proof (cases "TIME_LT now (scheduled_time (timers s i))")
    case True
    have "s' = s" using Suc.prems(6) True q by (simp add: timer_tick_loop.simps[of _ _ _ s])
    thus ?thesis using sorted_expired[OF Suc.prems(4,5) q True] by simp
  next
    case False
    obtain r1 s1 where f: "timer_fire fire_callback now i r0 s = Some (r1, s1)" "kst {} R ks s1"
      "critical_section_count s1 = critical_section_count s" "timer_queue s1 = l"
      "\<And>j. scheduled_time (timers s1 j) = scheduled_time (timers s j)"
      using timer_fire_ok[OF Suc.prems(1,2), of i now r0] q by auto
    have t: "timer_tick_loop fire_callback now r1 s1 = Some (r, s')"
      using Suc.prems(6) False q f(1) by (simp add: timer_tick_loop.simps[of _ _ _ s])
    have so: "timers_sorted base s1" using Suc.prems(4) q by (simp add: timers_sorted_def f(4,5))
    show ?thesis using Suc.IH[OF f(2) _ _ so Suc.prems(5) t] Suc.prems(2,3) False q by (simp add: f(3-5))
  qed
qed

end
