(* ===== verification/LK_Calls.thy ===== *)
theory LK_Calls
  imports LK_Sched
begin

text \<open>
  The calls of the kernel interface on top of the scheduler: the life cycle of threads, mutexes,
  semaphores and events, the boot sequence, and the set of reachable kernel states.
\<close>

unbundle bit_operations_syntax

section \<open>Birth and death of threads\<close>

lemma ginv_life:
  assumes g: "ginv {} F S s" and u: "TM_stack t \<notin> set (timer_queue s)"
    and s': "threads s' = (threads s)(t := r)" "timers s' = timers s" "timer_queue s' = timer_queue s"
      "idle_thread s' = idle_thread s" "queues_ok s'"
    and wm: "\<And>w. wq_magic (wait_queues s w) = WAIT_QUEUE_MAGIC \<Longrightarrow> wq_magic (wait_queues s' w) = WAIT_QUEUE_MAGIC"
      "valid_thread r \<Longrightarrow> wq_magic (wait_queues s' (WQ_retcode t)) = WAIT_QUEUE_MAGIC"
    and r: "thread_ok r" "th_state r \<noteq> THREAD_SLEEPING" "idle_thread s \<noteq> Some t"
    and F': "\<And>u. u \<noteq> t \<Longrightarrow> F' u = F u \<and> S' u = S u"
      "live r \<Longrightarrow> list_all plain_frame (F' t) \<and> cs_decs (F' t) \<le> S' t \<and> timeouts (F' t) = 0"
  shows "ginv {} F' S' s'"
proof -
  have tk: "timers_ok {} F s" and fr: "frames_ok F S s" and th: "\<And>t. thread_ok (thr s t)" and rq: "retq_ok s"
    using g by (simp_all add: ginv_def)
  have ok: "timer_ok {} F' s' v" if "timer_ok {} F s v" "v \<noteq> t" for v
    using that F'(1)[of v] by (simp add: timer_ok_def Let_def s')
  have "timers_ok {} F' s'"
    using tk unfolding timers_ok_def s'(2,3)
  proof (elim conjE, intro conjI allI impI)
    fix i assume a: "\<forall>i. i \<in> set (timer_queue s) \<longrightarrow> (\<exists>t. i = TM_stack t \<and> timer_ok {} F s t)"
      "i \<in> set (timer_queue s)"
    then obtain v where "i = TM_stack v" "timer_ok {} F s v" by blast
    thus "\<exists>t. i = TM_stack t \<and> timer_ok {} F' s' t" using ok[of v] u a(2) by auto
  next
    fix v assume a: "\<forall>t. live (thr s t) \<and> 0 < timeouts (F t) \<longrightarrow> tm_magic (timers s (TM_stack t)) = TIMER_MAGIC"
      "live (thr s' v) \<and> 0 < timeouts (F' v)"
    hence "v \<noteq> t" using F'(2) by (auto simp: s')
    thus "tm_magic (timers s (TM_stack v)) = TIMER_MAGIC" using a F'(1)[of v] by (simp add: s')
  next
    fix v assume a: "\<forall>t. live (thr s t) \<and> th_state (thr s t) = THREAD_SLEEPING \<and> t \<notin> {} \<longrightarrow>
        TM_stack t \<in> set (timer_queue s) \<and> callback (timers s (TM_stack t)) = Some CB_thread_sleep"
      and b: "live (thr s' v) \<and> th_state (thr s' v) = THREAD_SLEEPING \<and> v \<notin> {}"
    have "v \<noteq> t" using b r(2) by (auto simp: s')
    hence "live (thr s v) \<and> th_state (thr s v) = THREAD_SLEEPING \<and> v \<notin> {}" using b by (simp add: s')
    thus "TM_stack v \<in> set (timer_queue s)" "callback (timers s (TM_stack v)) = Some CB_thread_sleep"
      using a by blast+
  qed blast+
  moreover have "frames_ok F' S' s'"
    unfolding frames_ok_def
  proof (intro allI impI)
    fix v assume "live (thr s' v)"
    thus "list_all plain_frame (F' v) \<and> cs_decs (F' v) \<le> S' v \<and> timeouts (F' v) \<le> 1"
      using fr F'(1)[of v] F'(2) by (cases "v = t") (simp_all add: frames_ok_def s')
  qed
  moreover have "idle_ok s'" using g r(3) by (auto simp: ginv_def idle_ok_def s')
  moreover have "retq_ok s'" using rq wm by (auto simp: retq_ok_def s')
  ultimately show ?thesis using th r(1) s' by (simp add: ginv_def)
qed

lemma dead_thread_idle:
  assumes "ginv {} F S s" "\<not> valid_thread (thr s t)"
  shows "queue_node (thr s t) = None" "TM_stack t \<notin> set (timer_queue s)" "idle_thread s \<noteq> Some t"
proof -
  have "thread_ok (thr s t)" using assms(1) by (simp add: ginv_def)
  thus "queue_node (thr s t) = None" using assms(2) by (auto simp: thread_ok_def split: option.splits queue.splits)
  show "TM_stack t \<notin> set (timer_queue s)"
    using linked_timer[OF assms(1), of t] assms(2) by (auto simp: timer_ok_def Let_def live_def)
  show "idle_thread s \<noteq> Some t" using assms by (auto simp: ginv_def idle_ok_def)
qed

text \<open>What \<^verbatim>\<open>malloc\<close> may hand out for a new thread: memory that is neither a thread nor joined on.\<close>

definition fresh_thread :: "tid \<Rightarrow> kstate \<Rightarrow> bool" where
  "fresh_thread t s \<longleftrightarrow> \<not> valid_thread (thr s t) \<and> t \<noteq> current_thread s \<and>
     wq_list (wait_queues s (WQ_retcode t)) = []"

lemma kinv_new_thread:
  assumes k: "kinv s" and f: "fresh_thread t s"
    and s': "threads s' = (threads s)(t := r)" "timers s' = timers s" "timer_queue s' = timer_queue s"
      "idle_thread s' = idle_thread s" "run_queue s' = run_queue s" "run_queue_bitmap s' = run_queue_bitmap s"
      "current_thread s' = current_thread s" "critical_section_count s' = critical_section_count s"
      "wait_queues s' = (wait_queues s)(WQ_retcode t := \<lparr>wq_magic = WAIT_QUEUE_MAGIC, wq_list = [], wq_count = 0\<rparr>)"
    and r: "valid_thread r" "th_state r = THREAD_SUSPENDED" "queue_node r = None" "blocking_wait_queue r = None"
      "prio_ok r" "saved_critical_section_count r = 1" "kframes r = [] \<or> kframes r = [Fr_initial_thread]"
  shows "kinv s'"
proof -
  have k': "kst {} {current_thread s} [] s" using k by (simp add: kinv_def running_inv_kst)
  note g = kst_ginv[OF k']
  have n: "\<not> valid_thread (thr s t)" "t \<noteq> current_thread s" "wq_list (wait_queues s (WQ_retcode t)) = []"
    using f by (simp_all add: fresh_thread_def)
  note d = dead_thread_idle[OF g n(1)]
  have q: "queues_ok s" using g by (simp add: ginv_def)
  have qn: "queue_node (thr s' v) = queue_node (thr s v)" for v using d(1) r(3) by (simp add: s')
  have wl: "wq_list (wait_queues s' w) = wq_list (wait_queues s w)" for w using n(3) by (simp add: s')
  have "queues_ok s'"
    using q n(3) unfolding queues_ok_def qn wl s'(5,6) by (auto simp: s')
  moreover have "thread_ok r" using r by (simp add: thread_ok_off_queue)
  ultimately have "ginv {} (frames_of [] s') (saved_of s') s'"
    using d r n by - (rule ginv_life[OF g, where t = t and r = r],
      auto simp: s' frames_of_def saved_of_def)
  thus ?thesis
    using k' r n unfolding kinv_def running_inv_kst kst_def by (auto simp: saved_pos_def s' split: if_splits)
qed

lemma thread_create_ok:
  assumes k: "kinv s" and f: "\<And>t. ms = Some t \<Longrightarrow> fresh_thread t s" and p: "0 \<le> prio" "prio < 32"
  shows "kinv (snd (thread_create ms stk name entry arg prio sz s))"
proof (cases ms)
  case None
  thus ?thesis using k by (simp add: thread_create_def thread_create_etc_def)
next
  case (Some t)
  let ?s' = "snd (thread_create ms stk name entry arg prio sz s)"
  show ?thesis
    by (rule kinv_new_thread[OF k f[OF Some], where r = "thr ?s' t"])
       (use Some p in \<open>auto simp: thread_create_def thread_create_etc_def Let_def init_thread_struct_def
          wait_queue_init_def arch_thread_initialize_def zero_thread_def valid_thread_def prio_ok_def
          split: option.splits\<close>)
qed

lemma thread_resume_ok:
  assumes r: "running_inv ks s" and t: "live (thr s t)"
  shows "\<exists>s'. thread_resume ks t s = Some s' \<and> kinv s'"
proof -
  let ?e = "enter_critical_section s" and ?f = "\<lambda>r. r\<lparr>th_state := THREAD_READY\<rparr>"
  have c: "0 < critical_section_count ?e" using running_frames(3)[OF r] by simp
  have re: "running_inv (Fr_thread_resume # ks) ?e" by (rule running_push[OF r]) simp_all
  show ?thesis
  proof (cases "th_state (thr s t) = THREAD_SUSPENDED")
    case False
    thus ?thesis using run_frames_ok[OF re, of 0] t
      by (simp add: thread_resume_def live_def valid_thread_def del: run_frames.simps)
  next
    case True
    let ?ks = "Fr_thread_resume # ks" and ?u = "upd_thread t ?f ?e"
    have k: "kst {} {current_thread s} ?ks ?e" using re by (simp add: running_inv_kst)
    note g = kst_ginv[OF k]
    have v: "valid_thread (thr s t)" using t by (simp add: live_def)
    have q: "queue_node (thr s t) = None" "blocking_wait_queue (thr s t) = None" "prio_ok (thr s t)"
      using running_off_queue[of "thr s t"] g v True by (auto simp: ginv_def)
    have ne: "t \<noteq> current_thread s" using True r by (auto simp: running_inv_def)
    have qs: "queues_ok ?u" by (rule queues_ok_cong[of ?e]) (use g in \<open>simp_all add: ginv_def\<close>)
    have "ginv {t} (frames_of ?ks ?e) (saved_of ?e) ?u"
      by (rule ginv_step_thread[OF g, where t = t and r = "?f (thr s t)"])
         (use qs q v True not_idle[OF g, of t] in \<open>simp_all add: floating_def live_def\<close>)
    hence ku: "kst {t} {current_thread s} ?ks ?u"
      using k ne v True unfolding kst_def by (auto simp: saved_pos_def live_def split: if_splits)
    have p: "enq_pre t ?u" by (rule floating_enq_pre[OF ku]) (use c in simp_all)
    have "kst ({t} - {t}) {current_thread s} ?ks (enq True t ?u)"
      by (rule kst_enq[OF ku]) (use awake_timer(1)[OF g, of t] True in simp_all)
    hence "running_inv ?ks (enq True t ?u)" by (simp add: running_inv_kst)
    from thread_yield_ok[OF this] show ?thesis
      using True t p by (simp add: thread_resume_def live_def valid_thread_def insert_in_run_queue_eq)
  qed
qed

lemma kst_die:
  assumes k: "kst {} {current_thread s} [] s" and i: "idle_thread s \<noteq> Some (current_thread s)"
    and s': "threads s' = (threads s)(current_thread s := r)" "timers s' = timers s"
      "timer_queue s' = timer_queue s" "idle_thread s' = idle_thread s" "run_queue s' = run_queue s"
      "run_queue_bitmap s' = run_queue_bitmap s" "wait_queues s' = wait_queues s"
      "current_thread s' = current_thread s"
    and r: "th_state r = THREAD_DEATH" "queue_node r = queue_node (cur s)" "priority r = priority (cur s)"
      "blocking_wait_queue r = blocking_wait_queue (cur s)"
  shows "kst {} {} [Fr_thread_exit] s'"
proof -
  note g = kst_ginv[OF k]
  have c: "valid_thread (cur s)" "th_state (cur s) = THREAD_RUNNING" using k by (auto simp: kst_def)
  have q: "queue_node (cur s) = None" "blocking_wait_queue (cur s) = None" "prio_ok (cur s)"
    using running_off_queue[of "cur s"] g c by (auto simp: ginv_def)
  have u: "TM_stack (current_thread s) \<notin> set (timer_queue s)"
    using awake_unlinked[of "[]" s] k by (simp add: running_inv_kst)
  have qs: "queues_ok s'" by (rule queues_ok_cong[of s]) (use g r in \<open>simp_all add: ginv_def s'\<close>)
  have rq: "retq_ok s" using g by (simp add: ginv_def)
  have "ginv {} (frames_of [Fr_thread_exit] s') (saved_of s') s'"
    by (rule ginv_life[OF g u, where r = r])
       (use qs q r i rq c in \<open>simp_all add: s' frames_of_def saved_of_def thread_ok_off_queue live_def
          prio_ok_def retq_ok_def\<close>)
  thus ?thesis
    using k r unfolding kst_def by (auto simp: saved_pos_def s' split: if_splits)
qed

lemma thread_exit_ok:
  assumes k: "kinv s" and i: "idle_thread s \<noteq> Some (current_thread s)"
  shows "\<exists>s'. thread_exit rc s = Some s' \<and> kinv s'"
proof -
  let ?t = "current_thread s"
  let ?d = "upd_cur (\<lambda>r. r\<lparr>th_state := THREAD_DEATH, retcode := rc\<rparr>) (enter_critical_section s)"
  have r: "running_inv [] s" and k': "kst {} {?t} [] s" using k by (simp_all add: kinv_def running_inv_kst)
  have c: "0 < critical_section_count ?d" using running_frames(3)[OF r] by simp
  have v: "th_magic (cur s) = THREAD_MAGIC" "th_state (cur s) = THREAD_RUNNING"
    using running_cur[OF r] by simp_all
  have rs: "resched_inv {} [Fr_thread_exit] u \<Longrightarrow> \<exists>s'. thread_resched [Fr_thread_exit] u = Some s' \<and> kinv s'" for u
    by (rule thread_resched_ok)
  show ?thesis
  proof (cases "th_flags (cur s) AND THREAD_FLAG_DETACHED = 0")
    case False
    obtain u where u: "thread_exit rc s = thread_resched [Fr_thread_exit] u"
      "threads u = (threads s)(?t := (cur s)\<lparr>th_state := THREAD_DEATH, retcode := rc, th_magic := 0\<rparr>)"
      "timers u = timers s" "timer_queue u = timer_queue s" "idle_thread u = idle_thread s"
      "run_queue u = run_queue s" "run_queue_bitmap u = run_queue_bitmap s" "wait_queues u = wait_queues s"
      "current_thread u = ?t" "critical_section_count u = critical_section_count s + 1"
      using False v by (simp add: thread_exit_def Let_def split del: if_split) (simp split: if_split)
    have "kst {} {} [Fr_thread_exit] u"
      by (rule kst_die[OF k' i u(2)]) (simp_all add: u)
    thus ?thesis using rs[of u] u(1,10) c by (simp add: resched_inv_kst)
  next
    case True
    have kd: "kst {} {} [Fr_thread_exit] ?d"
      by (rule kst_die[OF k' i, where r = "(cur s)\<lparr>th_state := THREAD_DEATH, retcode := rc\<rparr>"]) simp_all
    obtain n u where u: "wake_all_loop (length (wq_list (wait_queues ?d (WQ_retcode ?t)))) (WQ_retcode ?t) 0 0 ?d = Some (n, u)"
      "kst {} {} [Fr_thread_exit] u" "wq_list (wait_queues u (WQ_retcode ?t)) = []"
      "critical_section_count u = critical_section_count ?d"
      using wake_all_loop_ok[OF kd c refl] by blast
    have m: "wq_magic (wait_queues s (WQ_retcode ?t)) = WAIT_QUEUE_MAGIC"
      using kst_ginv[OF k'] v by (simp add: ginv_def retq_ok_def valid_thread_def)
    have "thread_exit rc s = thread_resched [Fr_thread_exit] u"
      using True v c u m wq_count_empty[OF kst_ginv[OF u(2)]]
      by (simp add: thread_exit_def Let_def wait_queue_wake_all_body_def)
    thus ?thesis using rs[of u] u(2,4) c by (simp add: resched_inv_kst)
  qed
qed

lemma kinv_upd_cur:
  assumes "kinv s" "\<And>r. th_magic (f r) = th_magic r" "\<And>r. queue_node (f r) = queue_node r"
    "\<And>r. th_state (f r) = th_state r" "\<And>r. blocking_wait_queue (f r) = blocking_wait_queue r"
    "prio_ok (f (cur s))"
  shows "kinv (upd_cur f s)"
proof -
  have k: "kst {} {current_thread s} [] s" using assms(1) by (simp add: kinv_def running_inv_kst)
  note g = kst_ginv[OF k]
  have c: "valid_thread (cur s)" "th_state (cur s) = THREAD_RUNNING" using k by (auto simp: kst_def)
  have q: "queue_node (cur s) = None" "blocking_wait_queue (cur s) = None"
    using running_off_queue[of "cur s"] g c by (auto simp: ginv_def)
  have u: "TM_stack (current_thread s) \<notin> set (timer_queue s)"
    using awake_unlinked[of "[]" s] k by (simp add: running_inv_kst)
  have v: "valid_thread (f r) = valid_thread r" "live (f r) = live r" for r
    using assms(2,4) by (simp_all add: valid_thread_def live_def)
  have qs: "queues_ok (upd_cur f s)" by (rule queues_ok_cong[of s]) (use g assms(3) in \<open>simp_all add: ginv_def\<close>)
  have fs: "frames_of [] (upd_cur f s) = frames_of [] s" "saved_of (upd_cur f s) = saved_of s"
    by (auto simp: frames_of_def saved_of_def)
  have "ginv {} (frames_of [] s) (saved_of s) (upd_cur f s)"
    by (rule ginv_step_thread[OF g, where t = "current_thread s" and r = "f (cur s)"])
       (use qs q c u v assms in \<open>simp_all add: thread_ok_off_queue\<close>)
  thus ?thesis
    using k v assms(4) unfolding kinv_def running_inv_kst kst_def fs by (auto simp: saved_pos_def)
qed

lemma thread_set_priority_ok: "kinv s \<Longrightarrow> kinv (thread_set_priority p s)"
  unfolding thread_set_priority_def Let_def
  by (rule kinv_upd_cur) (simp_all add: prio_ok_def LOWEST_PRIORITY_def HIGHEST_PRIORITY_def)

lemma thread_set_name_ok:
  assumes "kinv s"
  shows "kinv (thread_set_name n s)"
proof -
  have "valid_thread (cur s)" "thread_ok (cur s)" using assms by (simp_all add: kinv_def running_inv_def ginv_def)
  hence "prio_ok (cur s)" by (simp add: thread_ok_def)
  thus ?thesis unfolding thread_set_name_def by - (rule kinv_upd_cur[OF assms], simp_all add: prio_ok_def)
qed

section \<open>The blocking primitives\<close>

lemma op_push:
  assumes "kinv s" "plain_frame f" "\<not> timeout_frame f" "frame_dec f = 1"
    and "threads s' = threads s" "run_queue s' = run_queue s"
    "run_queue_bitmap s' = run_queue_bitmap s" "wait_queues s' = wait_queues s"
    "timers s' = timers s" "timer_queue s' = timer_queue s" "idle_thread s' = idle_thread s"
    "current_thread s' = current_thread s"
    "critical_section_count s' = critical_section_count s + 1"
  shows "running_inv [f] s'"
proof -
  have r: "running_inv [] s" using assms(1) by (simp add: kinv_def)
  show "running_inv [f] s'" by (rule running_push[OF r]) (use assms in simp_all)
qed

lemma kinv_cs: "kinv s \<Longrightarrow> 0 < critical_section_count s + 1"
  using running_frames(3)[of "[]" s] by (simp add: kinv_def)

definition idle_running :: "kstate \<Rightarrow> bool" where
  "idle_running s \<longleftrightarrow> idle_thread s = Some (current_thread s)"

definition mutex_ready :: "nat \<Rightarrow> kstate \<Rightarrow> bool" where
  "mutex_ready m s \<longleftrightarrow> m_magic (mutexes s m) = MUTEX_MAGIC \<and>
     wq_magic (wait_queues s (WQ_mutex m)) = WAIT_QUEUE_MAGIC"

definition event_ready :: "nat \<Rightarrow> kstate \<Rightarrow> bool" where
  "event_ready e s \<longleftrightarrow> e_magic (events s e) = EVENT_MAGIC \<and>
     wq_magic (wait_queues s (WQ_event e)) = WAIT_QUEUE_MAGIC"

definition sem_ready :: "nat \<Rightarrow> kstate \<Rightarrow> bool" where
  "sem_ready m s \<longleftrightarrow> wq_magic (wait_queues s (WQ_sem m)) = WAIT_QUEUE_MAGIC"

lemma mutex_acquire_timeout_ok:
  assumes k: "kinv s" and m: "mutex_ready m s" and h: "holder (mutexes s m) \<noteq> Some (current_thread s)"
    and i: "\<not> idle_running s"
  shows "\<exists>s'. mutex_acquire_timeout [] m d s = Some s' \<and> kinv s'"
proof -
  let ?u = "upd_mutex m (\<lambda>x. x\<lparr>m_count := m_count x + 1\<rparr>) (enter_critical_section s)"
  have r: "running_inv [Fr_mutex_acquire m] ?u" "0 < critical_section_count ?u"
    using kinv_cs[OF k] by (auto intro!: op_push[OF k])
  have "\<exists>s'. wait_queue_block [Fr_mutex_acquire m] (WQ_mutex m) d ?u = Some s' \<and> kinv s'"
    by (rule wait_queue_block_ok[OF r(1)]) (use m i r(2) in \<open>simp_all add: mutex_ready_def idle_running_def\<close>)
  thus ?thesis
    using run_frames_ok[OF r(1), of NO_ERROR] m h
    by (auto simp: mutex_acquire_timeout_def mutex_ready_def Let_def simp del: run_frames.simps)
qed

lemma mutex_release_ok:
  assumes k: "kinv s" and m: "mutex_ready m s" and h: "holder (mutexes s m) = Some (current_thread s)"
  shows "\<exists>s'. mutex_release [] m s = Some s' \<and> kinv s'"
proof -
  let ?u = "upd_mutex m (\<lambda>x. x\<lparr>holder := None, m_count := m_count x - 1\<rparr>) (enter_critical_section s)"
  have r: "running_inv [Fr_exit_cs_ok] ?u" "0 < critical_section_count ?u"
    using kinv_cs[OF k] by (auto intro!: op_push[OF k])
  have "\<exists>s'. wait_queue_wake_one [Fr_exit_cs_ok] (WQ_mutex m) True NO_ERROR ?u = Some s' \<and> kinv s'"
    by (rule wait_queue_wake_one_ok[OF r]) (use m in \<open>simp add: mutex_ready_def\<close>)
  thus ?thesis
    using run_frames_ok[OF r(1), of NO_ERROR] m h
    by (auto simp: mutex_release_def mutex_ready_def Let_def simp del: run_frames.simps)
qed

lemma sem_post_ok:
  assumes k: "kinv s" and m: "sem_ready m s"
  shows "\<exists>s'. sem_post [] m s = Some s' \<and> kinv s'"
proof -
  let ?u = "upd_sem m (\<lambda>x. x\<lparr>sem_count := sem_count x + 1\<rparr>) (enter_critical_section s)"
  have r: "running_inv [Fr_exit_cs_ok] ?u" "0 < critical_section_count ?u"
    using kinv_cs[OF k] by (auto intro!: op_push[OF k])
  have "\<exists>s'. wait_queue_wake_one [Fr_exit_cs_ok] (WQ_sem m) True NO_ERROR ?u = Some s' \<and> kinv s'"
    by (rule wait_queue_wake_one_ok[OF r]) (use m in \<open>simp add: sem_ready_def\<close>)
  thus ?thesis
    using run_frames_ok[OF r(1), of NO_ERROR] by (auto simp: sem_post_def Let_def simp del: run_frames.simps)
qed

lemma sem_wait_ok:
  assumes k: "kinv s" and m: "sem_ready m s" and i: "\<not> idle_running s"
  shows "\<exists>s'. sem_wait [] m s = Some s' \<and> kinv s'" "\<exists>s'. sem_timedwait [] m d s = Some s' \<and> kinv s'"
proof -
  let ?u = "upd_sem m (\<lambda>x. x\<lparr>sem_count := sem_count x - 1\<rparr>) (enter_critical_section s)"
  have r: "running_inv [f] ?u" "0 < critical_section_count ?u" if "f \<in> {Fr_sem_wait, Fr_sem_timedwait m}" for f
    using that kinv_cs[OF k] by (auto intro!: op_push[OF k])
  have b: "\<exists>s'. wait_queue_block [f] (WQ_sem m) d' ?u = Some s' \<and> kinv s'"
    if f: "f \<in> {Fr_sem_wait, Fr_sem_timedwait m}" for f d'
    by (rule wait_queue_block_ok[OF r(1)[OF f]])
       (use m i r(2)[OF f] f in \<open>auto simp: sem_ready_def idle_running_def\<close>)
  show "\<exists>s'. sem_wait [] m s = Some s' \<and> kinv s'"
    using b[of Fr_sem_wait INFINITE_TIME] run_frames_ok[OF r(1), of Fr_sem_wait NO_ERROR]
    by (auto simp: sem_wait_def Let_def simp del: run_frames.simps)
  show "\<exists>s'. sem_timedwait [] m d s = Some s' \<and> kinv s'"
    using b[of "Fr_sem_timedwait m" d] run_frames_ok[OF r(1), of "Fr_sem_timedwait m" NO_ERROR]
    by (auto simp: sem_timedwait_def Let_def simp del: run_frames.simps)
qed

lemma kinv_cong:
  assumes "kinv s" "threads s' = threads s" "run_queue s' = run_queue s"
    "run_queue_bitmap s' = run_queue_bitmap s" "wait_queues s' = wait_queues s"
    "timers s' = timers s" "timer_queue s' = timer_queue s" "idle_thread s' = idle_thread s"
    "current_thread s' = current_thread s" "critical_section_count s' = critical_section_count s"
  shows "kinv s'"
  using assms kst_cong[of "{}" "{current_thread s}" "[]" s s'] by (simp add: kinv_def running_inv_kst)

lemma sem_trywait_ok:
  assumes k: "kinv s"
  shows "\<exists>s'. sem_trywait [] m s = Some s' \<and> kinv s'"
proof -
  let ?a = "exit_critical_section (enter_critical_section s)"
  let ?b = "exit_critical_section (upd_sem m (\<lambda>x. x\<lparr>sem_count := sem_count x - 1\<rparr>) (enter_critical_section s))"
  have "running_inv [] ?a" "running_inv [] ?b"
    unfolding kinv_def[symmetric] by (rule kinv_cong[OF k]; simp)+
  from run_frames_ok[OF this(1), of ERR_NOT_READY] run_frames_ok[OF this(2), of NO_ERROR]
  show ?thesis by (simp add: sem_trywait_def Let_def)
qed

lemma event_wait_timeout_ok:
  assumes k: "kinv s" and m: "event_ready e s" and i: "\<not> idle_running s"
  shows "\<exists>s'. event_wait_timeout [] e d s = Some s' \<and> kinv s'"
proof -
  let ?e = "enter_critical_section s"
  let ?u = "if e_flags (events ?e e) AND EVENT_FLAG_AUTOUNSIGNAL \<noteq> 0
            then upd_event e (\<lambda>v. v\<lparr>signalled := False\<rparr>) ?e else ?e"
  have r: "running_inv [Fr_event_wait] ?e" "0 < critical_section_count ?e"
    using kinv_cs[OF k] by (auto intro!: op_push[OF k])
  have u: "running_inv [Fr_event_wait] ?u" by (rule op_push[OF k]) simp_all
  have "\<exists>s'. wait_queue_block [Fr_event_wait] (WQ_event e) d ?e = Some s' \<and> kinv s'"
    by (rule wait_queue_block_ok[OF r(1)]) (use m i r(2) in \<open>simp_all add: event_ready_def idle_running_def\<close>)
  thus ?thesis
    using run_frames_ok[OF u, of NO_ERROR] m
    by (auto simp: event_wait_timeout_def event_ready_def Let_def simp del: run_frames.simps)
qed

lemma event_signal_ok:
  assumes k: "kinv s" and m: "event_ready e s"
  shows "\<exists>s'. event_signal [] e b s = Some s' \<and> kinv s'"
proof -
  let ?e = "enter_critical_section s"
  let ?u = "upd_event e (\<lambda>v. v\<lparr>signalled := True\<rparr>) ?e"
  have r: "running_inv [Fr_event_signal_one e] ?e" "0 < critical_section_count ?e"
    "running_inv [Fr_exit_cs_ok] ?e" "running_inv [Fr_exit_cs_ok] ?u" "0 < critical_section_count ?u"
    using kinv_cs[OF k] by (auto intro!: op_push[OF k])
  have "\<exists>s'. wait_queue_wake_one [Fr_event_signal_one e] (WQ_event e) b NO_ERROR ?e = Some s' \<and> kinv s'"
    by (rule wait_queue_wake_one_ok[OF r(1,2)]) (use m in \<open>simp add: event_ready_def\<close>)
  moreover have "\<exists>s'. wait_queue_wake_all [Fr_exit_cs_ok] (WQ_event e) b NO_ERROR ?u = Some s' \<and> kinv s'"
    by (rule wait_queue_wake_all_ok[OF r(4,5)]) (use m in \<open>simp add: event_ready_def\<close>)
  ultimately show ?thesis
    using run_frames_ok[OF r(3), of NO_ERROR] m
    by (auto simp: event_signal_def event_ready_def Let_def simp del: run_frames.simps)
qed

lemma event_unsignal_ok:
  assumes k: "kinv s" and m: "event_ready e s"
  shows "\<exists>s'. event_unsignal [] e s = Some s' \<and> kinv s'"
proof -
  have "kinv (upd_event e (\<lambda>v. v\<lparr>signalled := False\<rparr>) s)" by (rule kinv_cong[OF k]) simp_all
  hence "running_inv [] (upd_event e (\<lambda>v. v\<lparr>signalled := False\<rparr>) s)" by (simp add: kinv_def)
  from run_frames_ok[OF this, of NO_ERROR] show ?thesis
    using m by (simp add: event_unsignal_def event_ready_def del: run_frames.simps)
qed

text \<open>Initialising a primitive nobody waits on.\<close>

lemma kinv_wait_queue_init:
  assumes k: "kinv s" and w: "wq_list (wait_queues s w) = []"
  shows "kinv (wait_queue_init w s)"
proof -
  let ?s = "wait_queue_init w s"
  have k': "kst {} {current_thread s} [] s" using k by (simp add: kinv_def running_inv_kst)
  have f: "threads ?s = threads s" "run_queue ?s = run_queue s" "run_queue_bitmap ?s = run_queue_bitmap s"
    "timers ?s = timers s" "timer_queue ?s = timer_queue s" "idle_thread ?s = idle_thread s"
    "current_thread ?s = current_thread s" "critical_section_count ?s = critical_section_count s"
    "wait_queues ?s = (wait_queues s)(w := \<lparr>wq_magic = WAIT_QUEUE_MAGIC, wq_list = [], wq_count = 0\<rparr>)"
    by (simp_all add: wait_queue_init_def)
  have wl: "wq_list (wait_queues ?s v) = wq_list (wait_queues s v)" for v using w by (simp add: f)
  have "queues_ok s" "retq_ok s" using kst_ginv[OF k'] by (simp_all add: ginv_def)
  hence "queues_ok ?s" "retq_ok ?s"
    unfolding queues_ok_def retq_ok_def wl f(1-3) using w by (auto simp: f)
  hence "ginv {} (frames_of [] s) (saved_of s) ?s"
    using kst_ginv[OF k'] by (simp add: ginv_def timers_ok_def timer_ok_def frames_ok_def idle_ok_def f(1-8))
  moreover have "frames_of [] ?s = frames_of [] s" "saved_of ?s = saved_of s"
    by (auto simp: frames_of_def saved_of_def f)
  ultimately show ?thesis using k' by (simp add: kinv_def running_inv_kst kst_def saved_pos_def f)
qed

lemma primitive_init_ok:
  assumes "kinv s"
  shows "wq_list (wait_queues s (WQ_mutex m)) = [] \<Longrightarrow> kinv (mutex_init m s)"
    "wq_list (wait_queues s (WQ_sem m)) = [] \<Longrightarrow> kinv (sem_init m v s)"
    "wq_list (wait_queues s (WQ_event m)) = [] \<Longrightarrow> kinv (event_init m b fl s)"
  unfolding mutex_init_def sem_init_def event_init_def
  by (rule kinv_wait_queue_init; (rule kinv_cong[OF assms])?; simp)+

lemma clz_from_numeral: "clz_from (numeral k) w = (if bit w (pred_numeral k) then 0 else Suc (clz_from (pred_numeral k) w))"
  by (simp add: numeral_eq_Suc)
lemma bind_weak_cong: "m = m' \<Longrightarrow> Option.bind m f = Option.bind m' f" by simp

lemmas kops = lk_main_def thread_init_early_def kernel_init_def timer_init_def platform_set_periodic_timer_def
  thread_create_def thread_create_etc_def init_thread_struct_def zero_thread_def zero_state_def wait_queue_init_def
  arch_thread_initialize_def enter_critical_section_def exit_critical_section_def inc_critical_section_def
  dec_critical_section_def upd_defs thread_detach_def wait_queue_wake_all_body_def wq_remove_head_def
  thread_resume_def insert_in_run_queue_head_def insert_in_run_queue_tail_def thread_yield_def
  thread_resched_def take_next_thread_def next_queue_def switch_stats_def thread_become_idle_def thread_set_name_def
  thread_set_priority_def clz32_def clz_from_numeral current_time_hires_def in_critical_section_def

lemma kinv_boot:
  assumes ne: "t0 \<noteq> t1" and c: "current_thread s = t1" "critical_section_count s = 0" "idle_thread s = Some t0"
    and q: "\<And>p. run_queue s p = (if p = 0 then [t0] else [])" "run_queue_bitmap s = 1"
      "\<And>w. wq_list (wait_queues s w) = [] \<and> wq_count (wait_queues s w) = 0"
      "wq_magic (wait_queues s (WQ_retcode t0)) = WAIT_QUEUE_MAGIC"
      "wq_magic (wait_queues s (WQ_retcode t1)) = WAIT_QUEUE_MAGIC"
    and tm: "timer_queue s = []" "\<And>i. \<not> tm_linked (timers s i)"
    and t0: "valid_thread (thr s t0)" "queue_node (thr s t0) = Some (RunQ 0)" "priority (thr s t0) = 0"
      "th_state (thr s t0) = THREAD_READY" "blocking_wait_queue (thr s t0) = None"
      "saved_critical_section_count (thr s t0) = 1" "kframes (thr s t0) = [Fr_exit_cs, Fr_become_idle]"
    and t1: "valid_thread (thr s t1)" "queue_node (thr s t1) = None" "prio_ok (thr s t1)"
      "th_state (thr s t1) = THREAD_RUNNING" "blocking_wait_queue (thr s t1) = None"
    and t: "\<And>t. t \<noteq> t0 \<Longrightarrow> t \<noteq> t1 \<Longrightarrow> \<not> valid_thread (thr s t) \<and> queue_node (thr s t) = None"
  shows "kinv s"
proof -
  have qn: "queue_node (thr s u) = (if u = t0 then Some (RunQ 0) else None)" for u
    using t0(2) t1(2) t[of u] by (cases "u = t1") auto
  have "queues_ok s"
    unfolding queues_ok_def qn using q by (auto simp: bit_1_iff)
  moreover have "thread_ok (thr s u)" for u
    using t0 t1 t[of u] by (cases "u = t0"; cases "u = t1") (simp_all add: thread_ok_def prio_ok_def)
  moreover have l: "live (thr s u) \<longleftrightarrow> u = t0 \<or> u = t1" for u
    using t0 t1 t[of u] by (auto simp: live_def)
  moreover have "timers_ok {} (frames_of [] s) s"
    using tm t0 t1 l by (auto simp: timers_ok_def frames_of_def c ne)
  moreover have "frames_ok (frames_of [] s) (saved_of s) s"
    using t0 l by (auto simp: frames_ok_def frames_of_def saved_of_def c ne)
  moreover have "idle_ok s" using c t0 by (auto simp: idle_ok_def)
  moreover have "retq_ok s" unfolding retq_ok_def using q(4,5) t by metis
  moreover have "u = t1" if "valid_thread (thr s u)" "th_state (thr s u) = THREAD_RUNNING" for u
    using that t[of u] t0(4) by (cases "u = t0") auto
  hence "only_running s" using c(1) by (simp add: only_running_def)
  ultimately show ?thesis
    using t0 t1 c ne by (auto simp: kinv_def running_inv_def ginv_def saved_pos_def)
qed

lemma lk_main_ok:
  assumes "t0 \<noteq> t1"
  shows "\<exists>s. lk_main t0 (Some t1) (Some a) zero_state = Some s \<and> kinv s"
proof -
  show ?thesis
    using assms
    by (simp add: kops ASSERT_def Let_def THREAD_MAGIC_def WAIT_QUEUE_MAGIC_def THREAD_FLAG_DETACHED_def
        THREAD_FLAG_FREE_STACK_def THREAD_FLAG_FREE_STRUCT_def NUM_PRIORITIES_def LOWEST_PRIORITY_def
        HIGHEST_PRIORITY_def IDLE_PRIORITY_def DEFAULT_PRIORITY_def
        cong: bind_weak_cong let_weak_cong option.case_cong_weak if_weak_cong)
       (rule kinv_boot[of t0 t1], simp_all add: valid_thread_def prio_ok_def THREAD_MAGIC_def WAIT_QUEUE_MAGIC_def)
qed

lemma running_upd_flags:
  assumes "running_inv ks s" "\<And>r. th_magic (f r) = th_magic r" "\<And>r. queue_node (f r) = queue_node r"
    "\<And>r. priority (f r) = priority r" "\<And>r. th_state (f r) = th_state r"
    "\<And>r. blocking_wait_queue (f r) = blocking_wait_queue r" "\<And>r. kframes (f r) = kframes r"
    "\<And>r. saved_critical_section_count (f r) = saved_critical_section_count r"
  shows "running_inv ks (upd_thread t f s)"
proof -
  have fs: "frames_of ks (upd_thread t f s) = frames_of ks s" "saved_of (upd_thread t f s) = saved_of s"
    by (simp_all add: fun_eq_iff frames_of_def saved_of_def assms(7,8))
  have v: "valid_thread (f r) = valid_thread r" "live (f r) = live r" for r
    using assms(2,5) by (simp_all add: valid_thread_def live_def)
  have "ginv {} (frames_of ks s) (saved_of s) (upd_thread t f s)"
    by (rule ginv_upd_thread) (use assms in \<open>simp_all add: running_inv_def\<close>)
  moreover have "only_running (upd_thread t f s) = only_running s" "saved_pos (upd_thread t f s) = saved_pos s"
    by (simp_all add: only_running_def saved_pos_def v assms(5,8) fun_upd_def if_distrib if_distribR cong: if_cong) metis+
  ultimately show ?thesis
    using assms(1) by (auto simp: running_inv_def fs v assms(5))
qed

lemma kinv_free_thread:
  assumes k: "kinv s" and t: "valid_thread (thr s t)" "th_state (thr s t) = THREAD_DEATH"
    and s': "threads s' = (threads s)(t := (thr s t)\<lparr>th_magic := 0\<rparr>)" "timers s' = timers s"
    "timer_queue s' = timer_queue s" "idle_thread s' = idle_thread s" "run_queue s' = run_queue s"
    "run_queue_bitmap s' = run_queue_bitmap s" "wait_queues s' = wait_queues s"
    "current_thread s' = current_thread s" "critical_section_count s' = critical_section_count s"
  shows "kinv s'"
proof -
  let ?c = "current_thread s"
  have k': "kst {} {?c} [] s" using k by (simp add: kinv_def running_inv_kst)
  note g = kst_ginv[OF k']
  have q: "queue_node (thr s t) = None" "blocking_wait_queue (thr s t) = None" "prio_ok (thr s t)"
    using running_off_queue[of "thr s t"] g t by (auto simp: ginv_def)
  have ne: "t \<noteq> ?c" using t k by (auto simp: kinv_def running_inv_def)
  have u: "TM_stack t \<notin> set (timer_queue s)"
    using linked_timer[OF g, of t] t by (auto simp: timer_ok_def Let_def live_def)
  have qs: "queues_ok s'" by (rule queues_ok_cong[of s]) (use g s' in \<open>simp_all add: ginv_def\<close>)
  have iv: "\<not> valid_thread ((thr s t)\<lparr>th_magic := 0\<rparr>)" by (simp add: valid_thread_def THREAD_MAGIC_def)
  have "ginv {} (frames_of [] s') (saved_of s') s'"
    by (rule ginv_life[OF g u, where r = "(thr s t)\<lparr>th_magic := 0\<rparr>"])
       (use s' qs q iv t not_idle[OF g, of t] ne in
         \<open>simp_all add: frames_of_def saved_of_def live_def thread_ok_off_queue\<close>)
  thus ?thesis
    using k' iv t ne unfolding kinv_def running_inv_kst kst_def
    by (auto simp: saved_pos_def live_def s' split: if_splits)
qed

lemma thread_join_finish_ok:
  assumes k: "kinv s" and t: "valid_thread (thr s t)" "th_state (thr s t) = THREAD_DEATH"
  shows "\<exists>s'. thread_join_finish t want (enter_critical_section s) = Some (NO_ERROR, s') \<and> kinv s' \<and>
     current_thread s' = current_thread s \<and> \<not> valid_thread (thr s' t) \<and>
     (want \<longrightarrow> out_param (cur s') = Some (retcode (thr s t)))"
proof -
  let ?c = "current_thread s"
  have g: "thread_ok (thr s t)" using k by (simp add: kinv_def running_inv_def ginv_def)
  have q: "queue_node (thr s t) = None" "blocking_wait_queue (thr s t) = None" "prio_ok (thr s t)"
    using running_off_queue[OF g] t by auto
  have ne: "t \<noteq> ?c" using t k by (auto simp: kinv_def running_inv_def)
  let ?f = "\<lambda>r. if want then r\<lparr>out_param := Some (retcode (thr s t))\<rparr> else r"
  have ko: "kinv (upd_cur ?f s)" using k running_upd_flags[of "[]" s ?f] by (simp add: kinv_def)
  obtain s' where s': "thread_join_finish t want (enter_critical_section s) = Some (NO_ERROR, s')"
    "threads s' = (threads s)(?c := ?f (cur s), t := (thr s t)\<lparr>th_magic := 0\<rparr>)" "timers s' = timers s"
    "timer_queue s' = timer_queue s" "idle_thread s' = idle_thread s" "run_queue s' = run_queue s"
    "run_queue_bitmap s' = run_queue_bitmap s" "wait_queues s' = wait_queues s"
    "current_thread s' = ?c" "critical_section_count s' = critical_section_count s"
    using t q ne by (cases want) (simp_all add: thread_join_finish_def valid_thread_def Let_def split del: if_split,
        simp_all split: if_split)
  have "kinv s'"
    by (rule kinv_free_thread[OF ko, of t]) (use t ne s' in simp_all)
  thus ?thesis using s' ne by (simp add: valid_thread_def THREAD_MAGIC_def)
qed

lemma thread_detach_ok:
  assumes k: "kinv s" and t: "valid_thread (thr s t)"
  shows "\<exists>r s'. thread_detach t s = Some (r, s') \<and> kinv s'"
proof -
  let ?e = "enter_critical_section s" and ?w = "WQ_retcode t" and ?c = "current_thread s"
  have r: "running_inv [Fr_exit_cs] ?e" by (rule op_push[OF k]) simp_all
  hence ke: "kst {} {?c} [Fr_exit_cs] ?e" by (simp add: running_inv_kst)
  have c: "0 < critical_section_count ?e" using kinv_cs[OF k] by simp
  have m: "wq_magic (wait_queues s ?w) = WAIT_QUEUE_MAGIC"
    using t k by (simp add: kinv_def running_inv_def ginv_def retq_ok_def)
  obtain n u where u: "wake_all_loop (length (wq_list (wait_queues ?e ?w))) ?w ERR_THREAD_DETACHED 0 ?e = Some (n, u)"
    "kst {} {?c} [Fr_exit_cs] u" "wq_list (wait_queues u ?w) = []" "current_thread u = ?c"
    "th_magic (thr u t) = THREAD_MAGIC"
    using wake_all_loop_ok[OF ke c refl, of ?w ERR_THREAD_DETACHED 0] t by (auto simp: valid_thread_def)
  have ru: "running_inv [Fr_exit_cs] u" using u(2,4) by (simp add: running_inv_kst)
  have b: "wait_queue_wake_all_body ?w False ERR_THREAD_DETACHED ?e = Some (n, u)"
    using u(1,3) c m wq_count_empty[OF kst_ginv[OF u(2)]] by (simp add: wait_queue_wake_all_body_def)
  let ?set = "\<lambda>r. r\<lparr>th_flags := th_flags r OR THREAD_FLAG_DETACHED\<rparr>"
  let ?clr = "\<lambda>r. r\<lparr>th_flags := th_flags r AND NOT THREAD_FLAG_DETACHED\<rparr>"
  have k1: "kinv (exit_critical_section (upd_thread t f u))" if "f \<in> {?set, ?clr}" for f
  proof -
    have "running_inv [Fr_exit_cs] (upd_thread t f u)" using that ru by (auto intro!: running_upd_flags)
    thus ?thesis unfolding kinv_def by (rule running_inv_pop) simp_all
  qed
  show ?thesis
  proof (cases "th_state (thr u t) = THREAD_DEATH")
    case False
    thus ?thesis using k1[of ?set] t b by (simp add: thread_detach_def valid_thread_def)
  next
    case True
    let ?x = "exit_critical_section (upd_thread t ?clr u)"
    have "\<exists>s'. thread_join_finish t False (enter_critical_section ?x) = Some (NO_ERROR, s') \<and> kinv s'"
      using thread_join_finish_ok[OF k1[of ?clr], of t False] True u(5) by (auto simp: valid_thread_def)
    moreover have "(th_flags (thr u t) AND NOT THREAD_FLAG_DETACHED) AND THREAD_FLAG_DETACHED = 0"
      by (simp add: and.assoc)
    ultimately show ?thesis
      using True t b u(5) by (auto simp: thread_detach_def thread_join_start_def valid_thread_def)
  qed
qed

section \<open>Reachable kernel states\<close>

text \<open>The calls a running thread may make, and the interrupt that may arrive between them.\<close>

datatype call =
    C_yield | C_sleep lk_time | C_irq
  | C_create "tid option" "nat option" string nat nat int nat | C_resume tid | C_detach tid | C_exit int
  | C_set_priority int | C_set_name string
  | C_mutex_init nat | C_mutex_acquire nat lk_time | C_mutex_release nat
  | C_sem_init nat u32 | C_sem_post nat | C_sem_wait nat | C_sem_trywait nat | C_sem_timedwait nat lk_time
  | C_event_init nat bool u32 | C_event_wait nat lk_time | C_event_signal nat bool | C_event_unsignal nat

fun perform :: "call \<Rightarrow> kstate \<Rightarrow> kstate option" where
  "perform C_yield s = thread_yield [] s"
| "perform (C_sleep d) s = thread_sleep d s"
| "perform C_irq s = platform_irq s"
| "perform (C_create ms stk name entry arg prio sz) s =
     Some (snd (thread_create ms stk name entry arg prio sz s))"
| "perform (C_resume t) s = thread_resume [] t s"
| "perform (C_detach t) s = map_option snd (thread_detach t s)"
| "perform (C_exit rc) s = thread_exit rc s"
| "perform (C_set_priority p) s = Some (thread_set_priority p s)"
| "perform (C_set_name n) s = Some (thread_set_name n s)"
| "perform (C_mutex_init m) s = Some (mutex_init m s)"
| "perform (C_mutex_acquire m d) s = mutex_acquire_timeout [] m d s"
| "perform (C_mutex_release m) s = mutex_release [] m s"
| "perform (C_sem_init m v) s = Some (sem_init m v s)"
| "perform (C_sem_post m) s = sem_post [] m s"
| "perform (C_sem_wait m) s = sem_wait [] m s"
| "perform (C_sem_trywait m) s = sem_trywait [] m s"
| "perform (C_sem_timedwait m d) s = sem_timedwait [] m d s"
| "perform (C_event_init e b f) s = Some (event_init e b f s)"
| "perform (C_event_wait e d) s = event_wait_timeout [] e d s"
| "perform (C_event_signal e b) s = event_signal [] e b s"
| "perform (C_event_unsignal e) s = event_unsignal [] e s"

text \<open>
  What the interface asks of a caller: threads and primitives are initialised and not initialised
  again while in use, a mutex is not taken twice nor released by another thread, the idle thread
  never waits, and interrupts arrive only outside critical sections.
\<close>

fun allowed :: "call \<Rightarrow> kstate \<Rightarrow> bool" where
  "allowed C_yield s = True"
| "allowed (C_sleep d) s = (\<not> idle_running s)"
| "allowed C_irq s = (critical_section_count s = 0)"
| "allowed (C_create ms stk name entry arg prio sz) s =
     ((case ms of None \<Rightarrow> True | Some t \<Rightarrow> fresh_thread t s) \<and> LOWEST_PRIORITY \<le> prio \<and> prio \<le> HIGHEST_PRIORITY)"
| "allowed (C_resume t) s = live (thr s t)"
| "allowed (C_detach t) s = valid_thread (thr s t)"
| "allowed (C_exit rc) s = (\<not> idle_running s)"
| "allowed (C_set_priority p) s = True"
| "allowed (C_set_name n) s = True"
| "allowed (C_mutex_init m) s = (wq_list (wait_queues s (WQ_mutex m)) = [])"
| "allowed (C_mutex_acquire m d) s =
     (mutex_ready m s \<and> holder (mutexes s m) \<noteq> Some (current_thread s) \<and> \<not> idle_running s)"
| "allowed (C_mutex_release m) s = (mutex_ready m s \<and> holder (mutexes s m) = Some (current_thread s))"
| "allowed (C_sem_init m v) s = (wq_list (wait_queues s (WQ_sem m)) = [])"
| "allowed (C_sem_post m) s = sem_ready m s"
| "allowed (C_sem_wait m) s = (sem_ready m s \<and> \<not> idle_running s)"
| "allowed (C_sem_trywait m) s = sem_ready m s"
| "allowed (C_sem_timedwait m d) s = (sem_ready m s \<and> \<not> idle_running s)"
| "allowed (C_event_init e b f) s = (wq_list (wait_queues s (WQ_event e)) = [])"
| "allowed (C_event_wait e d) s = (event_ready e s \<and> \<not> idle_running s)"
| "allowed (C_event_signal e b) s = event_ready e s"
| "allowed (C_event_unsignal e) s = event_ready e s"

inductive reachable :: "kstate \<Rightarrow> bool" where
  boot: "t0 \<noteq> t1 \<Longrightarrow> lk_main t0 (Some t1) (Some stk) zero_state = Some s \<Longrightarrow> reachable s"
| step: "reachable s \<Longrightarrow> allowed c s \<Longrightarrow> perform c s = Some s' \<Longrightarrow> reachable s'"

lemma perform_ok:
  assumes k: "kinv s" and a: "allowed c s"
  shows "\<exists>s'. perform c s = Some s' \<and> kinv s'"
proof -
  have r: "running_inv [] s" using k by (simp add: kinv_def)
  show ?thesis
  proof (cases c)
    case (C_create ms stk name entry arg prio sz)
    thus ?thesis
      using a by (auto simp: LOWEST_PRIORITY_def HIGHEST_PRIORITY_def split: option.splits intro!: thread_create_ok[OF k])
  next
    case (C_detach t)
    thus ?thesis using thread_detach_ok[OF k, of t] a by auto
  qed (use a k r in \<open>simp_all add: thread_yield_ok thread_sleep_ok idle_running_def platform_irq_ok thread_resume_ok
      thread_exit_ok thread_set_priority_ok thread_set_name_ok primitive_init_ok mutex_acquire_timeout_ok
      mutex_release_ok sem_post_ok sem_wait_ok sem_trywait_ok event_wait_timeout_ok event_signal_ok event_unsignal_ok\<close>)
qed

lemma reachable_kinv: "reachable s \<Longrightarrow> kinv s"
proof (induction rule: reachable.induct)
  case (boot t0 t1 stk s)
  thus ?case using lk_main_ok[of t0 t1 stk] by auto
next
  case (step s c s')
  thus ?case using perform_ok[of s c] by auto
qed

section \<open>What the scheduler chooses\<close>

definition highest_running :: "kstate \<Rightarrow> bool" where
  "highest_running s \<longleftrightarrow>
     (\<forall>t. valid_thread (thr s t) \<and> th_state (thr s t) = THREAD_READY \<longrightarrow> priority (thr s t) \<le> priority (cur s))"

lemma run_frame_threads:
  assumes "run_frame f r s = Some (r', s')" "plain_frame f"
  shows "threads s' = threads s" "idle_thread s' = idle_thread s" "run_queue s' = run_queue s"
  using assms by (cases f; auto simp: timer_cancel_def Let_def split: if_splits)+

lemma run_frames_threads:
  "run_frames fs r s = Some s' \<Longrightarrow> list_all plain_frame fs \<Longrightarrow>
     \<exists>v. threads s' = (threads s)(current_thread s := (cur s)\<lparr>x0 := v\<rparr>)"
proof (induction fs arbitrary: r s)
  case (Cons f fs)
  obtain r1 s1 where 1: "run_frame f r s = Some (r1, s1)" "run_frames fs r1 s1 = Some s'"
    using Cons.prems(1) by (auto simp: bind_Some_iff)
  have "threads s1 = threads s" "current_thread s1 = current_thread s" "plain_frame f"
    using run_frame_threads(1)[OF 1(1)] run_frame_current[OF 1(1)] Cons.prems(2) by simp_all
  thus ?case using Cons.IH[OF 1(2)] Cons.prems(2) by simp
qed auto

lemma ready_queue:
  assumes "ginv {} F S s" "valid_thread (thr s t)" "th_state (thr s t) = THREAD_READY"
  shows "t \<in> set (run_queue s (nat (priority (thr s t))))" "0 \<le> priority (thr s t)"
proof -
  have "thread_ok (thr s t)" using assms(1) by (simp add: ginv_def)
  then obtain p where p: "queue_node (thr s t) = Some (RunQ p)" "priority (thr s t) = int p"
    using assms(2,3) by (auto simp: thread_ok_def split: option.splits queue.splits)
  moreover have "queues_ok s" using assms(1) by (simp add: ginv_def)
  ultimately show "t \<in> set (run_queue s (nat (priority (thr s t))))" "0 \<le> priority (thr s t)"
    by (simp_all add: queues_ok_def)
qed

text \<open>The choice is the head of the highest non-empty queue, and no ready thread outranks it.\<close>

lemma thread_resched_choice:
  assumes r: "resched_inv {} ks s" and s': "thread_resched ks s = Some s'"
  shows "current_thread s' = hd (run_queue s (next_queue s))" "highest_running s'"
proof -
  obtain n ts where n: "run_queue s (next_queue s) = n # ts" "valid_thread (thr s n)" "th_state (thr s n) = THREAD_READY"
    "priority (thr s n) = int (next_queue s)"
    "n \<noteq> current_thread s \<Longrightarrow> 0 < saved_critical_section_count (thr s n)"
    using resched_inv_head[OF r] by metis
  have g: "ginv {} (frames_of ks s) (saved_of s) s" and c: "0 < critical_section_count s"
    using r by (simp_all add: resched_inv_def)
  let ?u = "switched n ks (deq n (next_queue s) (upd_stats (\<lambda>x. x\<lparr>reschedules := reschedules x + 1\<rparr>) s))"
  have f: "run_frames (frames_of ks s n) 0 ?u = Some s'"
    using s' thread_resched_eq[OF c some_ready[OF r] n(1,5)] by (simp add: Let_def)
  have "live (thr s n)" using n by (simp add: live_def)
  hence pl: "list_all plain_frame (frames_of ks s n)" using g by (simp add: ginv_def frames_ok_def)
  obtain v where e: "current_thread s' = current_thread ?u"
    "threads s' = (threads ?u)(current_thread ?u := (cur ?u)\<lparr>x0 := v\<rparr>)"
    using run_frames_current[OF f] run_frames_threads[OF f pl] by blast
  show cur: "current_thread s' = hd (run_queue s (next_queue s))" using e(1) n(1) by (simp add: switched_simps)
  have th: "th_state (thr s' t) = (if t = n then THREAD_RUNNING else th_state (thr s t))"
    "th_magic (thr s' t) = th_magic (thr s t)" "priority (thr s' t) = priority (thr s t)" for t
    using e(2) by (auto simp: switched_simps)
  have "priority (thr s t) \<le> int (next_queue s)" if "valid_thread (thr s t)" "th_state (thr s t) = THREAD_READY" for t
  proof (rule ccontr)
    assume "\<not> priority (thr s t) \<le> int (next_queue s)"
    hence "next_queue s < nat (priority (thr s t))" by simp
    moreover have "queues_ok s" using g by (simp add: ginv_def)
    ultimately have "run_queue s (nat (priority (thr s t))) = []"
      using next_queue_spec(2) some_ready[OF r] by blast
    thus False using ready_queue(1)[OF g that] by simp
  qed
  thus "highest_running s'"
    using cur n th unfolding highest_running_def valid_thread_def by auto
qed

fun run_calls :: "call list \<Rightarrow> kstate \<Rightarrow> kstate option" where
  "run_calls [] s = Some s"
| "run_calls (c # cs) s = (if allowed c s then perform c s \<bind> run_calls cs else None)"

lemma run_calls_reachable: "run_calls cs s = Some s' \<Longrightarrow> reachable s \<Longrightarrow> reachable s'"
  by (induction cs arbitrary: s) (auto simp: bind_Some_iff split: if_splits intro: reachable.step)

lemmas kconsts = THREAD_MAGIC_def WAIT_QUEUE_MAGIC_def MUTEX_MAGIC_def EVENT_MAGIC_def SEMAPHORE_MAGIC_def
  TIMER_MAGIC_def THREAD_FLAG_DETACHED_def THREAD_FLAG_FREE_STACK_def THREAD_FLAG_FREE_STRUCT_def
  EVENT_FLAG_AUTOUNSIGNAL_def NUM_PRIORITIES_def LOWEST_PRIORITY_def HIGHEST_PRIORITY_def IDLE_PRIORITY_def
  DEFAULT_PRIORITY_def INFINITE_TIME_def

lemmas kall = kops mutex_init_def mutex_acquire_timeout_def mutex_release_def wait_queue_block_def
  wait_queue_wake_one_def wake_thread_def thread_block_def timer_set_oneshot_def timer_set_def timer_initialize_def
  set_timer_def TIMER_INITIAL_VALUE_def insert_timer_in_queue_def list_delete_timer_def timer_cancel_def current_time_def
  thread_preempt_def thread_timer_tick_def thread_unblock_from_wait_queue_def list_delete_queue_node_def
  wait_queue_timeout_handler_def thread_sleep_handler_def thread_sleep_def timer_irq_def timer_tick_def timer_fire_def
  platform_irq_def TIME_LT_def TIME_GT_def mutex_ready_def sem_ready_def event_ready_def idle_running_def
  fresh_thread_def live_def valid_thread_def timer_tick_loop.simps

end
