(* ===== verification/LK_Cbuf.thy ===== *)
theory LK_Cbuf
  imports LK_Prelude
begin

text \<open>
  The circular buffer (\<^verbatim>\<open>lib/cbuf/cbuf.c\<close>). The record is \<^verbatim>\<open>cbuf_t\<close>; \<open>cb_buf\<close> is the memory
  \<^verbatim>\<open>buf\<close> points to and \<open>cb_event\<close> whether its event is signalled. The operations run inside a
  critical section, so each is one step; a read that has to wait for the event returns \<open>None\<close> and
  is made again once the event is signalled. A failed \<^verbatim>\<open>DEBUG_ASSERT\<close> and a \<^verbatim>\<open>memcpy\<close> outside the
  buffer are \<open>None\<close> as well.

  The buffer implements a bounded queue of bytes, specified by the locale \<open>byte_queue\<close>, except that
  \<open>cbuf_write\<close> overfills it when \<^verbatim>\<open>tail\<close> is 0 and more is offered than fits.
\<close>

unbundle bit_operations_syntax

section \<open>The code\<close>

record cbuf =
  cb_head :: u32
  cb_tail :: u32
  cb_len_pow2 :: nat
  cb_buf :: "u8 list"
  cb_event :: bool

definition INC_POINTER :: "cbuf \<Rightarrow> u32 \<Rightarrow> nat \<Rightarrow> u32" where
  "INC_POINTER c ptr inc = modpow2 (ptr + of_nat inc) (cb_len_pow2 c)"

text \<open>\<^verbatim>\<open>ispow2\<close> and \<^verbatim>\<open>log2_uint\<close> take an \<^verbatim>\<open>uint\<close>, so they see the low half of the \<^verbatim>\<open>size_t\<close>.\<close>

definition cbuf_initialize_etc :: "u64 \<Rightarrow> u8 list \<Rightarrow> cbuf option" where
  "cbuf_initialize_etc len buf = do {
     ASSERT (0 < len);
     ASSERT (ispow2 (ucast len));
     Some \<lparr>cb_head = 0, cb_tail = 0, cb_len_pow2 = log2_uint (ucast len), cb_buf = buf, cb_event = False\<rparr>
   }"

text \<open>\<open>malloc\<close> stands for the allocator; the null pointer is memory of length 0.\<close>

definition cbuf_initialize :: "(u64 \<Rightarrow> u8 list) \<Rightarrow> u64 \<Rightarrow> cbuf option" where
  "cbuf_initialize malloc len = cbuf_initialize_etc len (malloc len)"

definition cbuf_space_avail :: "cbuf \<Rightarrow> nat" where
  "cbuf_space_avail c =
     (let consumed = modpow2 (cb_head c - cb_tail c) (cb_len_pow2 c)
      in unat (valpow2 (cb_len_pow2 c) - consumed - 1))"

definition cbuf_space_used :: "cbuf \<Rightarrow> nat" where
  "cbuf_space_used c = unat (modpow2 (cb_head c - cb_tail c) (cb_len_pow2 c))"

text \<open>How much one pass of each loop moves.\<close>

definition write_len :: "cbuf \<Rightarrow> nat \<Rightarrow> nat" where
  "write_len c left =
     (if cb_tail c \<le> cb_head c
      then min (unat (valpow2 (cb_len_pow2 c) - cb_head c)) left
      else min (unat (cb_tail c - cb_head c - 1)) left)"

definition read_len :: "cbuf \<Rightarrow> nat \<Rightarrow> nat" where
  "read_len c left =
     (if cb_tail c < cb_head c
      then min (unat (cb_head c - cb_tail c)) left
      else min (unat (valpow2 (cb_len_pow2 c) - cb_tail c)) left)"

function cbuf_write_loop :: "u8 list \<Rightarrow> nat \<Rightarrow> cbuf \<Rightarrow> (nat \<times> cbuf) option" where
  "cbuf_write_loop src pos c =
     (if pos < length src \<and> 0 < cbuf_space_avail c
      then let n = write_len c (length src - pos) in
           if n = 0 then Some (pos, c)
           else memcpy_to (cb_buf c) (unat (cb_head c)) (take n (drop pos src)) \<bind>
             (\<lambda>b. cbuf_write_loop src (pos + n) (c\<lparr>cb_buf := b, cb_head := INC_POINTER c (cb_head c) n\<rparr>))
      else Some (pos, c))"
  by pat_completeness auto
termination by (relation "measure (\<lambda>(src, pos, c). length src - pos)") auto

definition cbuf_write :: "u8 list \<Rightarrow> cbuf \<Rightarrow> (nat \<times> cbuf) option" where
  "cbuf_write src c = do {
     ASSERT (length src < unat (valpow2 (cb_len_pow2 c)));
     (pos, c) \<leftarrow> cbuf_write_loop src 0 c;
     Some (pos, if cb_head c \<noteq> cb_tail c then c\<lparr>cb_event := True\<rparr> else c)
   }"

text \<open>
  \<^verbatim>\<open>memcpy\<close> of 0 bytes would leave the read loop where it is, so that case is kept apart as
  non-termination; \<open>cbuf_read_refines\<close> shows that it does not arise.
\<close>

function cbuf_read_loop :: "nat \<Rightarrow> u8 list \<Rightarrow> cbuf \<Rightarrow> (u8 list \<times> cbuf) option" where
  "cbuf_read_loop buflen out c =
     (if length out < buflen \<and> cb_tail c \<noteq> cb_head c
      then let n = read_len c (buflen - length out) in
           case memcpy_from (cb_buf c) (unat (cb_tail c)) n of
             None \<Rightarrow> None
           | Some d \<Rightarrow>
               if d = [] then None
               else cbuf_read_loop buflen (out @ d) (c\<lparr>cb_tail := INC_POINTER c (cb_tail c) n\<rparr>)
      else Some (out, c))"
  by pat_completeness auto
termination by (relation "measure (\<lambda>(buflen, out, c). buflen - length out)") (auto simp: diff_less_mono2)

definition cbuf_read :: "nat \<Rightarrow> bool \<Rightarrow> cbuf \<Rightarrow> (u8 list \<times> cbuf) option" where
  "cbuf_read buflen block c = do {
     ASSERT (block \<longrightarrow> cb_event c);
     if cb_tail c \<noteq> cb_head c
     then do {
       (out, c) \<leftarrow> cbuf_read_loop buflen [] c;
       Some (out, if cb_tail c = cb_head c then c\<lparr>cb_event := False\<rparr> else c)
     }
     else Some ([], c)
   }"

definition cbuf_write_char :: "u8 \<Rightarrow> cbuf \<Rightarrow> (nat \<times> cbuf) option" where
  "cbuf_write_char ch c =
     (if 0 < cbuf_space_avail c
      then do {
        ASSERT (unat (cb_head c) < length (cb_buf c));
        let c = c\<lparr>cb_buf := (cb_buf c)[unat (cb_head c) := ch], cb_head := INC_POINTER c (cb_head c) 1\<rparr>;
        Some (1, if cb_head c \<noteq> cb_tail c then c\<lparr>cb_event := True\<rparr> else c)
      }
      else Some (0, c))"

definition cbuf_read_char :: "bool \<Rightarrow> cbuf \<Rightarrow> (u8 option \<times> cbuf) option" where
  "cbuf_read_char block c = do {
     ASSERT (block \<longrightarrow> cb_event c);
     if cb_tail c \<noteq> cb_head c
     then do {
       ASSERT (unat (cb_tail c) < length (cb_buf c));
       let ch = cb_buf c ! unat (cb_tail c);
       let c = c\<lparr>cb_tail := INC_POINTER c (cb_tail c) 1\<rparr>;
       Some (Some ch, if cb_tail c = cb_head c then c\<lparr>cb_event := False\<rparr> else c)
     }
     else Some (None, c)
   }"

declare cbuf_write_loop.simps [simp del] cbuf_read_loop.simps [simp del]

section \<open>Invariant and contents\<close>

definition cb_size :: "cbuf \<Rightarrow> nat" where
  "cb_size c = 2 ^ cb_len_pow2 c"

definition cbuf_shape :: "cbuf \<Rightarrow> bool" where
  "cbuf_shape c \<longleftrightarrow> cb_len_pow2 c < 32 \<and> length (cb_buf c) = cb_size c \<and>
     unat (cb_head c) < cb_size c \<and> unat (cb_tail c) < cb_size c"

text \<open>Between calls the event is signalled exactly when there is something to read.\<close>

definition cbuf_ok :: "cbuf \<Rightarrow> bool" where
  "cbuf_ok c \<longleftrightarrow> cbuf_shape c \<and> (cb_event c \<longleftrightarrow> cb_head c \<noteq> cb_tail c)"

definition cb_used :: "cbuf \<Rightarrow> nat" where
  "cb_used c = (unat (cb_head c) + cb_size c - unat (cb_tail c)) mod cb_size c"

definition contents :: "cbuf \<Rightarrow> u8 list" where
  "contents c = map (\<lambda>i. cb_buf c ! ((unat (cb_tail c) + i) mod cb_size c)) [0..<cb_used c]"

lemma length_contents [simp]: "length (contents c) = cb_used c"
  by (simp add: contents_def)

lemma unat_modpow2:
  assumes "k < 32"
  shows "unat (modpow2 w k) = unat w mod 2 ^ k"
proof -
  have "bit (ucast (push_bit k (1 :: u64) - 1) :: u32) i = bit (mask k :: u32) i" for i
    using assms by (auto simp: bit_simps mask_eq_exp_minus_1[symmetric])
  hence "ucast (push_bit k (1 :: u64) - 1) = (mask k :: u32)" by (intro bit_eqI) simp
  hence "modpow2 w k = take_bit k w" by (simp add: modpow2_def take_bit_eq_mask)
  hence "unat (modpow2 w k) = take_bit k (unat w)" by (simp only: unsigned_take_bit_eq)
  thus ?thesis by (simp add: take_bit_eq_mod)
qed

lemma power_lt_32: "k < 32 \<Longrightarrow> (2::nat) ^ k < 2 ^ 32"
  by (rule power_strict_increasing) simp_all

lemma unat_valpow2:
  assumes "k < 32"
  shows "unat (valpow2 k) = 2 ^ k"
proof -
  have "valpow2 k = of_nat (2 ^ k)" by (simp add: valpow2_def)
  thus ?thesis using power_lt_32[OF assms] by (simp only: unat_of_nat) simp
qed

lemma size_pos [simp]: "0 < cb_size c" and size_lt: "cb_len_pow2 c < 32 \<Longrightarrow> cb_size c < 2 ^ 32"
  using power_lt_32 by (simp_all add: cb_size_def)

lemma cb_used_cases:
  assumes "cbuf_shape c"
  shows "cb_used c = (if unat (cb_tail c) \<le> unat (cb_head c) then unat (cb_head c) - unat (cb_tail c)
                      else unat (cb_head c) + cb_size c - unat (cb_tail c))"
  using assms by (auto simp: cb_used_def cbuf_shape_def mod_if)

lemma cb_used_lt: "cb_used c < cb_size c"
  by (simp add: cb_used_def)

lemma head_eq: "cbuf_shape c \<Longrightarrow> (unat (cb_tail c) + cb_used c) mod cb_size c = unat (cb_head c)"
  by (auto simp: cb_used_cases cbuf_shape_def)

lemma cb_used_0: "cbuf_shape c \<Longrightarrow> cb_used c = 0 \<longleftrightarrow> cb_head c = cb_tail c"
  by (auto simp: cb_used_cases cbuf_shape_def word_unat_eq_iff split: if_splits)

lemma wrap_mod:
  fixes h t k :: nat
  assumes "k < 32" "t < 2 ^ k" "h < t"
  shows "(h + 2 ^ 32 - t) mod 2 ^ k = h + 2 ^ k - t"
proof -
  obtain m where m: "(2::nat) ^ 32 = 2 ^ k * Suc m"
    using assms(1) by (metis le_imp_power_dvd dvd_def less_imp_le_nat mult_0_right not0_implies_Suc power_not_zero zero_neq_numeral)
  hence "h + 2 ^ 32 - t = (h + 2 ^ k - t) + 2 ^ k * m" using assms(2) by simp
  hence "(h + 2 ^ 32 - t) mod 2 ^ k = (h + 2 ^ k - t) mod 2 ^ k" by (simp only: mod_mult_self2)
  thus ?thesis using assms by simp
qed

lemma space_used_eq:
  assumes "cbuf_shape c"
  shows "cbuf_space_used c = cb_used c"
proof -
  have k: "cb_len_pow2 c < 32" "unat (cb_head c) < 2 ^ cb_len_pow2 c" "unat (cb_tail c) < 2 ^ cb_len_pow2 c"
    using assms by (simp_all add: cbuf_shape_def cb_size_def)
  show ?thesis
    using k wrap_mod[of "cb_len_pow2 c" "unat (cb_tail c)" "unat (cb_head c)"]
    by (auto simp: cbuf_space_used_def unat_modpow2 cb_used_cases[OF assms] unat_sub_if' cb_size_def)
qed

lemma space_avail_eq:
  assumes "cbuf_shape c"
  shows "cbuf_space_avail c = cb_size c - 1 - cb_used c"
proof -
  let ?u = "modpow2 (cb_head c - cb_tail c) (cb_len_pow2 c)"
  have u: "unat ?u = cb_used c" using space_used_eq[OF assms] by (simp add: cbuf_space_used_def)
  have v: "unat (valpow2 (cb_len_pow2 c)) = cb_size c" using assms by (simp add: cbuf_shape_def unat_valpow2 cb_size_def)
  show ?thesis
    using cb_used_lt[of c] u v by (simp add: cbuf_space_avail_def Let_def unat_sub_if')
qed

lemma inc_pointer_eq:
  assumes "cbuf_shape c"
  shows "unat (INC_POINTER c p n) = (unat p + n) mod cb_size c"
proof -
  have k: "cb_len_pow2 c < 32" using assms by (simp add: cbuf_shape_def)
  have d: "(2::nat) ^ cb_len_pow2 c dvd 2 ^ 32" using k by (intro le_imp_power_dvd) simp
  have "unat (p + of_nat n) = (unat p + n) mod 2 ^ 32"
    by (simp add: unat_word_ariths unat_of_nat mod_add_right_eq)
  thus ?thesis using d k by (simp add: INC_POINTER_def unat_modpow2 cb_size_def mod_mod_cancel)
qed

lemma wrap_eq: "t < n \<Longrightarrow> a < n \<Longrightarrow> (t + a) mod n = (if t + a < n then t + a else t + a - (n::nat))"
  by (simp add: mod_if)

lemma wrap_inj: "t < n \<Longrightarrow> a < n \<Longrightarrow> b < n \<Longrightarrow> (t + a) mod n = (t + b) mod n \<Longrightarrow> a = (b::nat)"
  by (auto simp: wrap_eq split: if_splits)

lemma write_segment:
  assumes sh: "cbuf_shape c" and n: "length xs = n" "n \<le> cb_size c - 1 - cb_used c" "unat (cb_head c) + n \<le> cb_size c"
    and c': "c' = c\<lparr>cb_buf := take (unat (cb_head c)) (cb_buf c) @ xs @ drop (unat (cb_head c) + n) (cb_buf c),
                    cb_head := INC_POINTER c (cb_head c) n\<rparr>"
  shows "cbuf_shape c'" "cb_used c' = cb_used c + n" "contents c' = contents c @ xs"
proof -
  let ?h = "unat (cb_head c)" and ?t = "unat (cb_tail c)" and ?n = "cb_size c"
  have lt: "?h < ?n" "?t < ?n" "length (cb_buf c) = ?n" using sh by (simp_all add: cbuf_shape_def)
  have h': "unat (cb_head c') = (?h + n) mod ?n" "cb_tail c' = cb_tail c" "cb_size c' = ?n"
    by (simp_all add: c' inc_pointer_eq[OF sh] cb_size_def)
  show sh': "cbuf_shape c'" using sh n h' by (simp add: cbuf_shape_def cb_size_def c')
  have "(?t + (cb_used c + n)) mod ?n = (?h + n) mod ?n"
    using head_eq[OF sh] by (metis add.assoc mod_add_left_eq)
  moreover have "cb_used c + n < ?n" using n(2) cb_used_lt[of c] by linarith
  moreover have "(?t + cb_used c') mod ?n = (?h + n) mod ?n" using head_eq[OF sh'] h' by simp
  ultimately show u: "cb_used c' = cb_used c + n"
    using cb_used_lt[of c'] h'(3) lt(2) wrap_inj[of ?t ?n "cb_used c'" "cb_used c + n"] by simp
  show "contents c' = contents c @ xs"
  proof (rule nth_equalityI)
    show "length (contents c') = length (contents c @ xs)" using u n(1) by simp
    fix i assume "i < length (contents c')"
    hence i: "i < cb_used c + n" using u by simp
    let ?j = "(?t + i) mod ?n"
    have e: "contents c' ! i = cb_buf c' ! ?j" using i u h' by (simp add: contents_def)
    show "contents c' ! i = (contents c @ xs) ! i"
    proof (cases "i < cb_used c")
      case True
      have "?h = (if ?t + cb_used c < ?n then ?t + cb_used c else ?t + cb_used c - ?n)"
        using head_eq[OF sh] wrap_eq[OF lt(2) cb_used_lt[of c]] by simp
      moreover have "?j = (if ?t + i < ?n then ?t + i else ?t + i - ?n)"
        using wrap_eq[OF lt(2), of i] True cb_used_lt[of c] by simp
      ultimately have "?j < ?h \<or> ?h + n \<le> ?j" using True n(2) cb_used_lt[of c] by (auto split: if_splits)
      hence "cb_buf c' ! ?j = cb_buf c ! ?j" using lt n by (auto simp: c' nth_append)
      thus ?thesis using e True by (simp add: nth_append contents_def)
    next
      case False
      have "?j = (?t + cb_used c + (i - cb_used c)) mod ?n" using False by simp
      also have "\<dots> = (?h + (i - cb_used c)) mod ?n" using head_eq[OF sh] by (metis mod_add_left_eq)
      finally have j: "?j = ?h + (i - cb_used c)" using i n(3) False by simp
      have "cb_buf c' ! (?h + k) = xs ! k" if "k < n" for k
        using that n lt by (simp add: c' nth_append)
      from this[of "i - cb_used c"] show ?thesis using e j False i by (simp add: nth_append)
    qed
  qed
qed


text \<open>What each pass moves fits, lies inside the buffer, and is not empty.\<close>

lemma write_len_ok:
  assumes sh: "cbuf_shape c" and l: "0 < left" "0 < cb_size c - 1 - cb_used c"
    and t: "cb_tail c \<noteq> 0 \<or> left \<le> cb_size c - 1 - cb_used c"
  shows "0 < write_len c left" "write_len c left \<le> left" "write_len c left \<le> cb_size c - 1 - cb_used c"
    "unat (cb_head c) + write_len c left \<le> cb_size c"
    "left \<le> write_len c left \<or> write_len c left = cb_size c - 1 - cb_used c \<or>
     unat (cb_head c) + write_len c left = cb_size c"
proof -
  have lt: "unat (cb_head c) < cb_size c" "unat (cb_tail c) < cb_size c"
    "unat (valpow2 (cb_len_pow2 c)) = cb_size c"
    using sh by (simp_all add: cbuf_shape_def unat_valpow2 cb_size_def)
  have "0 < unat (cb_tail c) \<or> left \<le> cb_size c - 1 - cb_used c" using t by (simp add: unat_gt_0)
  thus "0 < write_len c left" "write_len c left \<le> left" "write_len c left \<le> cb_size c - 1 - cb_used c"
    "unat (cb_head c) + write_len c left \<le> cb_size c"
    "left \<le> write_len c left \<or> write_len c left = cb_size c - 1 - cb_used c \<or>
     unat (cb_head c) + write_len c left = cb_size c"
    using lt l cb_used_cases[OF sh]
    by (auto simp: write_len_def word_le_nat_alt unat_sub_if' min_def split: if_splits)
qed

lemma read_len_ok:
  assumes sh: "cbuf_shape c" and l: "0 < left" "cb_tail c \<noteq> cb_head c"
  shows "0 < read_len c left" "read_len c left \<le> left" "read_len c left \<le> cb_used c"
    "unat (cb_tail c) + read_len c left \<le> cb_size c"
proof -
  have lt: "unat (cb_head c) < cb_size c" "unat (cb_tail c) < cb_size c"
    "unat (valpow2 (cb_len_pow2 c)) = cb_size c" "unat (cb_tail c) \<noteq> unat (cb_head c)"
    using sh l by (auto simp: cbuf_shape_def unat_valpow2 cb_size_def word_unat_eq_iff)
  thus "0 < read_len c left" "read_len c left \<le> left" "read_len c left \<le> cb_used c"
    "unat (cb_tail c) + read_len c left \<le> cb_size c"
    using l cb_used_cases[OF sh]
    by (auto simp: read_len_def word_less_nat_alt unat_sub_if' min_def split: if_splits)
qed

lemma min_step: "n \<le> L - p \<Longrightarrow> n \<le> b \<Longrightarrow> p + n + min (L - (p + n)) (b - n) = p + min (L - p) (b::nat)"
  by arith

lemma cbuf_write_loop_ok:
  assumes "cbuf_shape c" "pos \<le> length src" "cb_tail c \<noteq> 0 \<or> length src - pos \<le> cb_size c - 1 - cb_used c"
  shows "\<exists>c'. cbuf_write_loop src pos c = Some (pos + min (length src - pos) (cb_size c - 1 - cb_used c), c') \<and>
    cbuf_shape c' \<and> contents c' = contents c @ take (cb_size c - 1 - cb_used c) (drop pos src) \<and>
    cb_event c' = cb_event c \<and> cb_size c' = cb_size c"
  using assms
proof (induction src pos c rule: cbuf_write_loop.induct)
  case (1 src pos c)
  let ?av = "cb_size c - 1 - cb_used c" and ?n = "write_len c (length src - pos)"
  show ?case
  proof (cases "pos < length src \<and> 0 < ?av")
    case False
    hence "min (length src - pos) ?av = 0" "take ?av (drop pos src) = []" by auto
    thus ?thesis using False "1.prems" by (subst cbuf_write_loop.simps) (auto simp: space_avail_eq)
  next
    case True
    let ?xs = "take ?n (drop pos src)"
    let ?b = "take (unat (cb_head c)) (cb_buf c) @ ?xs @ drop (unat (cb_head c) + ?n) (cb_buf c)"
    let ?c = "c\<lparr>cb_buf := ?b, cb_head := INC_POINTER c (cb_head c) ?n\<rparr>"
    note w = write_len_ok[OF "1.prems"(1), of "length src - pos"]
    have n: "0 < ?n" "?n \<le> length src - pos" "?n \<le> ?av" "unat (cb_head c) + ?n \<le> cb_size c"
      using w True "1.prems"(3) by auto
    have lx: "length ?xs = ?n" using n(2) by simp
    note s = write_segment[OF "1.prems"(1) lx n(3,4) refl]
    have m: "memcpy_to (cb_buf c) (unat (cb_head c)) ?xs = Some ?b"
      using n(4) lx "1.prems"(1) by (simp add: memcpy_to_def cbuf_shape_def)
    have sz: "cb_size ?c = cb_size c" by (simp add: cb_size_def)
    have av: "cb_size ?c - 1 - cb_used ?c = ?av - ?n" using s(2) sz by simp
    have "\<exists>c'. cbuf_write_loop src (pos + ?n) ?c =
        Some (pos + ?n + min (length src - (pos + ?n)) (cb_size ?c - 1 - cb_used ?c), c') \<and> cbuf_shape c' \<and>
        contents c' = contents ?c @ take (cb_size ?c - 1 - cb_used ?c) (drop (pos + ?n) src) \<and>
        cb_event c' = cb_event ?c \<and> cb_size c' = cb_size ?c"
    proof (rule "1.IH"[OF _ refl _ m])
      show "pos < length src \<and> 0 < cbuf_space_avail c" using True "1.prems"(1) by (simp add: space_avail_eq)
      show "?n \<noteq> 0" using n(1) by simp
      show "cbuf_shape ?c" by (rule s(1))
      show "pos + ?n \<le> length src" using n(2) True by linarith
      show "cb_tail ?c \<noteq> 0 \<or> length src - (pos + ?n) \<le> cb_size ?c - 1 - cb_used ?c"
        using "1.prems"(3) unfolding av
      proof
        assume "length src - pos \<le> ?av"
        hence "length src - pos - ?n \<le> ?av - ?n" by (rule diff_le_mono)
        thus "cb_tail ?c \<noteq> 0 \<or> length src - (pos + ?n) \<le> ?av - ?n" unfolding diff_diff_left by (rule disjI2)
      qed simp
    qed
    then obtain c' where c': "cbuf_write_loop src (pos + ?n) ?c =
        Some (pos + ?n + min (length src - (pos + ?n)) (?av - ?n), c')" "cbuf_shape c'"
        "contents c' = contents ?c @ take (?av - ?n) (drop (pos + ?n) src)"
        "cb_event c' = cb_event c" "cb_size c' = cb_size c"
      using av sz by auto
    have "contents c' = contents c @ take ?av (drop pos src)"
    proof -
      have "take ?av (drop pos src) = take (?n + (?av - ?n)) (drop pos src)"
        using n(3) by (simp only: le_add_diff_inverse)
      also have "\<dots> = ?xs @ take (?av - ?n) (drop (pos + ?n) src)"
        by (simp only: take_add drop_drop add.commute[of ?n pos])
      finally have "take ?av (drop pos src) = ?xs @ take (?av - ?n) (drop (pos + ?n) src)" .
      thus ?thesis using c'(3) s(3) by simp
    qed
    moreover have "pos + ?n + min (length src - (pos + ?n)) (?av - ?n) = pos + min (length src - pos) ?av"
      by (rule min_step[OF n(2,3)])
    moreover have "cbuf_write_loop src pos c = cbuf_write_loop src (pos + ?n) ?c"
      using True n(1)[THEN gr_implies_not0] space_avail_eq[OF "1.prems"(1)] m
      by (subst cbuf_write_loop.simps) (simp only: Let_def if_True if_False bind.bind_lunit simp_thms)
    ultimately have "cbuf_write_loop src pos c = Some (pos + min (length src - pos) ?av, c') \<and> cbuf_shape c' \<and>
        contents c' = contents c @ take ?av (drop pos src) \<and> cb_event c' = cb_event c \<and> cb_size c' = cb_size c"
      using c' by (simp only: simp_thms)
    thus ?thesis by blast
  qed
qed

lemma read_segment:
  assumes sh: "cbuf_shape c" and n: "n \<le> cb_used c" "unat (cb_tail c) + n \<le> cb_size c"
    and c': "c' = c\<lparr>cb_tail := INC_POINTER c (cb_tail c) n\<rparr>"
  shows "cbuf_shape c'" "cb_used c' = cb_used c - n" "contents c' = drop n (contents c)"
    "take n (drop (unat (cb_tail c)) (cb_buf c)) = take n (contents c)"
proof -
  let ?t = "unat (cb_tail c)" and ?n = "cb_size c"
  have lt: "?t < ?n" "length (cb_buf c) = ?n" using sh by (simp_all add: cbuf_shape_def)
  have t': "unat (cb_tail c') = (?t + n) mod ?n" "cb_head c' = cb_head c" "cb_size c' = ?n" "cb_buf c' = cb_buf c"
    by (simp_all add: c' inc_pointer_eq[OF sh] cb_size_def)
  show sh': "cbuf_shape c'" using sh t' by (simp add: cbuf_shape_def c' cb_size_def)
  have m: "((?t + n) mod ?n + i) mod ?n = (?t + (n + i)) mod ?n" for i
    by (simp add: mod_add_left_eq add.assoc)
  have "((?t + n) mod ?n + cb_used c') mod ?n = unat (cb_head c)" using head_eq[OF sh'] t' by simp
  also have "unat (cb_head c) = ((?t + n) mod ?n + (cb_used c - n)) mod ?n"
    unfolding m using head_eq[OF sh] n(1) by simp
  finally show u: "cb_used c' = cb_used c - n"
    using wrap_inj[of "(?t + n) mod ?n" ?n "cb_used c'" "cb_used c - n"] cb_used_lt[of c] cb_used_lt[of c'] t'(3)
    by simp
  show "contents c' = drop n (contents c)"
    using u t' by (intro nth_equalityI) (simp_all add: contents_def m, simp add: less_diff_conv2 add.commute)
  show "take n (drop ?t (cb_buf c)) = take n (contents c)"
    using n lt by (intro nth_equalityI) (simp_all add: contents_def)
qed

lemma cbuf_read_loop_ok:
  assumes "cbuf_shape c" "length out \<le> buflen"
  shows "\<exists>c'. cbuf_read_loop buflen out c = Some (out @ take (buflen - length out) (contents c), c') \<and>
    cbuf_shape c' \<and> contents c' = drop (buflen - length out) (contents c) \<and> cb_event c' = cb_event c"
  using assms
proof (induction buflen out c rule: cbuf_read_loop.induct)
  case (1 buflen out c)
  let ?left = "buflen - length out" and ?n = "read_len c (buflen - length out)"
  show ?case
  proof (cases "length out < buflen \<and> cb_tail c \<noteq> cb_head c")
    case False
    hence "length out = buflen \<or> contents c = []"
      using "1.prems" cb_used_0[of c] by (auto simp: contents_def)
    thus ?thesis using False "1.prems" by (subst cbuf_read_loop.simps) auto
  next
    case True
    let ?c = "c\<lparr>cb_tail := INC_POINTER c (cb_tail c) ?n\<rparr>" and ?d = "take ?n (contents c)"
    have n: "0 < ?n" "?n \<le> ?left" "?n \<le> cb_used c" "unat (cb_tail c) + ?n \<le> cb_size c"
      using read_len_ok[OF "1.prems"(1), of ?left] True by auto
    note s = read_segment[OF "1.prems"(1) n(3,4) refl]
    have m: "memcpy_from (cb_buf c) (unat (cb_tail c)) ?n = Some ?d"
      using s(4) n(4) "1.prems"(1) by (simp add: memcpy_from_def cbuf_shape_def)
    have d: "?d \<noteq> []" "length ?d = ?n" using n by (auto simp: contents_def)
    have l: "buflen - length (out @ ?d) = ?left - ?n" using d(2) by simp
    have "\<exists>c'. cbuf_read_loop buflen (out @ ?d) ?c =
        Some ((out @ ?d) @ take (buflen - length (out @ ?d)) (contents ?c), c') \<and> cbuf_shape c' \<and>
        contents c' = drop (buflen - length (out @ ?d)) (contents ?c) \<and> cb_event c' = cb_event ?c"
      by (rule "1.IH"[OF True refl m d(1) s(1)]) (use d(2) n(2) True in \<open>simp, linarith\<close>)
    then obtain c' where c': "cbuf_read_loop buflen (out @ ?d) ?c =
        Some ((out @ ?d) @ take (?left - ?n) (drop ?n (contents c)), c')" "cbuf_shape c'"
        "contents c' = drop (?left - ?n) (drop ?n (contents c))" "cb_event c' = cb_event c"
      unfolding l s(3) by auto
    have "?d @ take (?left - ?n) (drop ?n (contents c)) = take ?left (contents c)"
      using n(2) by (simp only: take_add[symmetric] le_add_diff_inverse)
    moreover have "drop (?left - ?n) (drop ?n (contents c)) = drop ?left (contents c)"
      using n(2) by (simp only: drop_drop le_add_diff_inverse2)
    ultimately have "cbuf_read_loop buflen out c = Some (out @ take ?left (contents c), c') \<and> cbuf_shape c' \<and>
        contents c' = drop ?left (contents c) \<and> cb_event c' = cb_event c"
      using True m d(1) c' by (subst cbuf_read_loop.simps) (simp add: Let_def)
    thus ?thesis by blast
  qed
qed

section \<open>The bounded queue\<close>

text \<open>
  What a client of the buffer relies on: \<open>put\<close> appends when there is room and otherwise leaves the
  queue alone, \<open>get\<close> takes the oldest byte, and \<open>cap\<close> does not change.
\<close>

locale byte_queue =
  fixes inv :: "'q \<Rightarrow> bool" and elems :: "'q \<Rightarrow> u8 list" and cap :: "'q \<Rightarrow> nat"
    and put :: "u8 \<Rightarrow> 'q \<Rightarrow> (nat \<times> 'q) option" and get :: "'q \<Rightarrow> (u8 option \<times> 'q) option"
  assumes put_room: "inv q \<Longrightarrow> length (elems q) < cap q \<Longrightarrow>
      \<exists>q'. put b q = Some (1, q') \<and> inv q' \<and> elems q' = elems q @ [b] \<and> cap q' = cap q"
    and put_full: "inv q \<Longrightarrow> cap q \<le> length (elems q) \<Longrightarrow> put b q = Some (0, q)"
    and get_some: "inv q \<Longrightarrow> elems q = b # bs \<Longrightarrow>
      \<exists>q'. get q = Some (Some b, q') \<and> inv q' \<and> elems q' = bs \<and> cap q' = cap q"
    and get_none: "inv q \<Longrightarrow> elems q = [] \<Longrightarrow> get q = Some (None, q)"
begin

primrec put_all :: "u8 list \<Rightarrow> 'q \<Rightarrow> 'q option" where
  "put_all [] q = Some q"
| "put_all (b # bs) q = put b q \<bind> (\<lambda>p. put_all bs (snd p))"

primrec get_n :: "nat \<Rightarrow> 'q \<Rightarrow> (u8 list \<times> 'q) option" where
  "get_n 0 q = Some ([], q)"
| "get_n (Suc n) q = get q \<bind> (\<lambda>p. case fst p of None \<Rightarrow> Some ([], snd p)
     | Some b \<Rightarrow> get_n n (snd p) \<bind> (\<lambda>p. Some (b # fst p, snd p)))"

lemma put_all_elems:
  "inv q \<Longrightarrow> \<exists>q'. put_all bs q = Some q' \<and> inv q' \<and> cap q' = cap q \<and>
     elems q' = (if length (elems q) \<le> cap q then take (cap q) (elems q @ bs) else elems q)"
proof (induction bs arbitrary: q)
  case (Cons b bs)
  show ?case
  proof (cases "length (elems q) < cap q")
    case True
    then obtain q1 where q1: "put b q = Some (1, q1)" "inv q1" "elems q1 = elems q @ [b]" "cap q1 = cap q"
      using put_room[OF Cons.prems] by blast
    from Cons.IH[OF q1(2)] show ?thesis using q1 True by auto
  next
    case False
    hence p: "put b q = Some (0, q)" using put_full[OF Cons.prems] by simp
    from Cons.IH[OF Cons.prems] show ?thesis using p False by auto
  qed
qed simp

lemma get_n_elems:
  "inv q \<Longrightarrow> \<exists>q'. get_n n q = Some (take n (elems q), q') \<and> inv q' \<and> elems q' = drop n (elems q) \<and> cap q' = cap q"
proof (induction n arbitrary: q)
  case (Suc n)
  show ?case
  proof (cases "elems q")
    case Nil
    thus ?thesis using get_none[OF Suc.prems] Suc.prems by simp
  next
    case (Cons b bs)
    then obtain q1 where q1: "get q = Some (Some b, q1)" "inv q1" "elems q1 = bs" "cap q1 = cap q"
      using get_some[OF Suc.prems] by blast
    from Suc.IH[OF q1(2)] show ?thesis using q1 Cons by auto
  qed
qed simp

text \<open>First in, first out: what was put into an empty queue comes out in order, as far as it fitted.\<close>

lemma put_get:
  assumes "inv q" "elems q = []"
  shows "\<exists>q' q''. put_all bs q = Some q' \<and> get_n (length bs) q' = Some (take (cap q) bs, q'') \<and> elems q'' = []"
proof -
  obtain q' where q': "put_all bs q = Some q'" "inv q'" "elems q' = take (cap q) bs"
    using put_all_elems[OF assms(1), of bs] assms(2) by auto
  from get_n_elems[OF q'(2), of "length bs"] q' show ?thesis by (auto simp: min_def)
qed

end

lemma event_irrelevant [simp]:
  "contents (c\<lparr>cb_event := e\<rparr>) = contents c" "cb_used (c\<lparr>cb_event := e\<rparr>) = cb_used c"
  "cbuf_shape (c\<lparr>cb_event := e\<rparr>) = cbuf_shape c" "cb_size (c\<lparr>cb_event := e\<rparr>) = cb_size c"
  by (simp_all add: contents_def cb_used_def cbuf_shape_def cb_size_def)

lemma contents_if: "contents (if P then c\<lparr>cb_event := e\<rparr> else c) = contents c"
  by simp

definition cbuf_cap :: "cbuf \<Rightarrow> nat" where
  "cbuf_cap c = cb_size c - 1"

lemma cbuf_ok_shape: "cbuf_ok c \<Longrightarrow> cbuf_shape c"
  by (simp add: cbuf_ok_def)

lemma cbuf_write_char_put:
  assumes ok: "cbuf_ok c" and room: "length (contents c) < cbuf_cap c"
  shows "\<exists>c'. cbuf_write_char b c = Some (1, c') \<and> cbuf_ok c' \<and> contents c' = contents c @ [b] \<and> cbuf_cap c' = cbuf_cap c"
proof -
  note sh = cbuf_ok_shape[OF ok]
  let ?h = "unat (cb_head c)"
  let ?c = "c\<lparr>cb_buf := (cb_buf c)[?h := b], cb_head := INC_POINTER c (cb_head c) 1\<rparr>"
  have h: "?h < length (cb_buf c)" "?h + 1 \<le> cb_size c" using sh by (simp_all add: cbuf_shape_def)
  have av: "1 \<le> cb_size c - 1 - cb_used c" using room by (simp add: cbuf_cap_def)
  have s: "cbuf_shape ?c" "cb_used ?c = cb_used c + 1" "contents ?c = contents c @ [b]"
    using write_segment[OF sh _ av h(2), of "[b]" ?c] h(1) by (simp_all add: upd_conv_take_nth_drop)
  have ne: "cb_head ?c \<noteq> cb_tail ?c" using cb_used_0[OF s(1)] s(2) by auto
  let ?c' = "?c\<lparr>cb_event := True\<rparr>"
  have "cbuf_write_char b c = Some (1, ?c')"
    using av h(1) ne by (simp add: cbuf_write_char_def space_avail_eq[OF sh] Let_def)
  moreover have "cbuf_ok ?c'" using s(1) ne by (simp add: cbuf_ok_def)
  moreover have "contents ?c' = contents ?c" by simp
  ultimately show ?thesis using s(3) by (simp add: cbuf_cap_def cb_size_def)
qed

lemma cbuf_write_char_full:
  assumes "cbuf_ok c" "cbuf_cap c \<le> length (contents c)"
  shows "cbuf_write_char b c = Some (0, c)"
  using assms by (simp add: cbuf_write_char_def space_avail_eq[OF cbuf_ok_shape] cbuf_cap_def)

lemma cbuf_read_char_get:
  assumes ok: "cbuf_ok c" and ne: "contents c = b # bs"
  shows "\<exists>c'. cbuf_read_char False c = Some (Some b, c') \<and> cbuf_ok c' \<and> contents c' = bs \<and> cbuf_cap c' = cbuf_cap c"
proof -
  note sh = cbuf_ok_shape[OF ok]
  let ?t = "unat (cb_tail c)" and ?c = "c\<lparr>cb_tail := INC_POINTER c (cb_tail c) 1\<rparr>"
  have u: "1 \<le> cb_used c" using ne by (metis length_contents length_Cons le_add1 plus_1_eq_Suc)
  have t: "?t < length (cb_buf c)" "?t + 1 \<le> cb_size c" using sh by (simp_all add: cbuf_shape_def)
  note s = read_segment[OF sh u t(2) refl]
  have b: "cb_buf c ! ?t = b" using s(4) ne t(1) by (simp add: take_Suc_conv_app_nth take_Suc hd_drop_conv_nth)
  have nh: "cb_tail c \<noteq> cb_head c" using cb_used_0[OF sh] u by auto
  let ?c' = "if cb_tail ?c = cb_head ?c then ?c\<lparr>cb_event := False\<rparr> else ?c"
  have e: "cb_event c" using ok nh by (auto simp: cbuf_ok_def)
  have "cbuf_read_char False c = Some (Some b, ?c')"
    using nh t(1) b by (simp add: cbuf_read_char_def Let_def)
  moreover have "cbuf_ok ?c'" using s(1) e by (auto simp: cbuf_ok_def)
  moreover have "contents ?c' = bs" using s(3) ne by (simp only: contents_if) simp
  ultimately show ?thesis by (auto simp: cbuf_cap_def cb_size_def)
qed

lemma cbuf_read_char_none:
  assumes "cbuf_ok c" "contents c = []"
  shows "cbuf_read_char False c = Some (None, c)"
proof -
  have "cb_used c = 0" using assms(2) by (metis length_contents list.size(3))
  thus ?thesis using cb_used_0[OF cbuf_ok_shape[OF assms(1)]] by (simp add: cbuf_read_char_def)
qed

interpretation cq: byte_queue cbuf_ok contents cbuf_cap cbuf_write_char "cbuf_read_char False"
proof (unfold_locales, goal_cases)
  case 1 thus ?case by (rule cbuf_write_char_put)
next
  case 2 thus ?case by (rule cbuf_write_char_full)
next
  case 3 thus ?case by (rule cbuf_read_char_get)
next
  case 4 thus ?case by (rule cbuf_read_char_none)
qed

section \<open>Properties\<close>

lemma cbuf_ok_event:
  "cbuf_shape c \<Longrightarrow> cb_event c = e \<Longrightarrow> (e \<longrightarrow> cb_head c \<noteq> cb_tail c) \<Longrightarrow>
   cbuf_ok (if cb_head c \<noteq> cb_tail c then c\<lparr>cb_event := True\<rparr> else c)"
  by (auto simp: cbuf_ok_def)


text \<open>
  C19: \<^verbatim>\<open>cbuf_read\<close> without blocking takes the oldest bytes off the queue, as many as were asked
  for or as there are, and leaves a buffer that meets the invariant; in particular its copying loop
  ends.
\<close>

theorem cbuf_read_refines:
  assumes ok: "cbuf_ok c"
  shows "\<exists>c'. cbuf_read buflen False c = Some (take buflen (contents c), c') \<and> cbuf_ok c' \<and>
     contents c' = drop buflen (contents c)"
proof (cases "cb_tail c = cb_head c")
  case True
  hence "contents c = []" using cb_used_0[OF cbuf_ok_shape[OF ok]] by (simp add: contents_def)
  thus ?thesis using True ok by (simp add: cbuf_read_def)
next
  case False
  obtain c' where c': "cbuf_read_loop buflen [] c = Some (take buflen (contents c), c')" "cbuf_shape c'"
    "contents c' = drop buflen (contents c)" "cb_event c' = cb_event c"
    using cbuf_read_loop_ok[OF cbuf_ok_shape[OF ok], of "[]" buflen] by auto
  have "cb_event c" using ok False by (auto simp: cbuf_ok_def)
  thus ?thesis using False c' by (auto simp: cbuf_read_def cbuf_ok_def)
qed

text \<open>A buffer of four bytes that holds two, wrapped around its end.\<close>

definition wrapped_cbuf :: cbuf where
  "wrapped_cbuf = \<lparr>cb_head = 1, cb_tail = 3, cb_len_pow2 = 2, cb_buf = [7, 0, 0, 5], cb_event = True\<rparr>"

lemmas cbuf_eval = cbuf_ok_def cbuf_shape_def cb_size_def cb_used_def contents_def cbuf_cap_def upt_rec

lemma wrapped_cbuf_ok: "cbuf_ok wrapped_cbuf" "contents wrapped_cbuf = [5, 7]"
  by (simp_all add: cbuf_eval wrapped_cbuf_def)


theorem cbuf_read_refines_witness:
  "\<exists>c'. cbuf_read 1 False wrapped_cbuf = Some ([5], c') \<and> cbuf_ok c' \<and> contents c' = [7]"
  using cbuf_read_refines[OF wrapped_cbuf_ok(1), of 1] unfolding wrapped_cbuf_ok(2) by simp

text \<open>
  C20: Round trip through the byte operations: bytes given to \<^verbatim>\<open>cbuf_write_char\<close> on an empty
  buffer come out of \<^verbatim>\<open>cbuf_read_char\<close> in the order they went in, except for those beyond the
  capacity of one less than the size of the buffer, which were refused, and the buffer is empty again.
\<close>

theorem cbuf_char_round_trip:
  assumes "cbuf_ok c" "contents c = []"
  shows "\<exists>c' c''. cq.put_all bs c = Some c' \<and>
     cq.get_n (length bs) c' = Some (take (cbuf_cap c) bs, c'') \<and> contents c'' = []"
  using cq.put_get[OF assms] .

definition empty_cbuf :: cbuf where
  "empty_cbuf = \<lparr>cb_head = 2, cb_tail = 2, cb_len_pow2 = 2, cb_buf = [0, 0, 0, 0], cb_event = False\<rparr>"

theorem cbuf_char_round_trip_witness:
  "\<exists>c' c''. cq.put_all [1, 2, 3, 4] empty_cbuf = Some c' \<and> cq.get_n 4 c' = Some ([1, 2, 3], c'') \<and> contents c'' = []"
proof -
  have "cbuf_ok empty_cbuf" "contents empty_cbuf = []" by (simp_all add: empty_cbuf_def cbuf_eval)
  note r = cbuf_char_round_trip[OF this, of "[1, 2, 3, 4]"]
  have "length [1, 2, 3, 4 :: u8] = 4" "take (cbuf_cap empty_cbuf) [1, 2, 3, 4 :: u8] = [1, 2, 3]"
    by (simp_all add: empty_cbuf_def cbuf_cap_def cb_size_def)
  with r show ?thesis by (simp only:)
qed


definition low_cbuf :: cbuf where
  "low_cbuf = \<lparr>cb_head = 1, cb_tail = 0, cb_len_pow2 = 2, cb_buf = [5, 0, 0, 0], cb_event = True\<rparr>"


end
