(* ===== verification/LK_Heap.thy ===== *)
theory LK_Heap
  imports LK_Prelude "HOL-Library.Multiset"
begin

text \<open>
  The heap allocator (\<^verbatim>\<open>lib/heap/heap.c\<close>), built with \<^verbatim>\<open>DEBUG_HEAP\<close> 0 and \<^verbatim>\<open>LK_DEBUGLEVEL\<close> 2 for a
  64-bit machine: \<^verbatim>\<open>struct alloc_struct_begin\<close> and \<^verbatim>\<open>struct free_heap_chunk\<close> take 24 bytes each.

  Addresses and lengths are 64-bit words. The free list and the delayed free list are the sequences
  of the chunks linked in them. Of the memory itself the model keeps the allocation headers:
  \<open>h_headers p\<close> is the pair \<^verbatim>\<open>(ptr, size)\<close> of the header with the right magic number that ends at
  \<open>p\<close>, if there is one; writing a structure over a header destroys it (\<open>clobber\<close>). Every
  operation takes the heap lock, or a critical section for the delayed list, so each is one step.

  The theory shows that the free list stays sorted and fully merged, that free chunks, delayed
  chunks and live allocations partition the memory given to the heap, and that no assertion fails.
  The two conditions this needs are proved necessary: requests near \<open>2 ^ 64\<close> wrap around, and
  aligned allocations lose the upper half of the address.
\<close>

unbundle bit_operations_syntax

section \<open>The code\<close>

record free_heap_chunk =
  ch_base :: u64
  ch_len :: u64

record heap =
  h_base :: u64
  h_len :: u64
  h_remaining :: u64
  h_low_watermark :: u64
  h_free_list :: "free_heap_chunk list"
  h_delayed_free_list :: "free_heap_chunk list"
  h_headers :: "u64 \<Rightarrow> (u64 \<times> u64) option"

definition clobber :: "u64 \<Rightarrow> (u64 \<Rightarrow> (u64 \<times> u64) option) \<Rightarrow> u64 \<Rightarrow> (u64 \<times> u64) option" where
  "clobber a m = (\<lambda>p. if unat a < unat p \<and> unat p < unat a + 48 then None else m p)"

text \<open>\<^verbatim>\<open>ROUNDUP\<close> at the type of a size, and with the 32-bit \<^verbatim>\<open>alignment\<close>, whose complement is taken
  at 32 bits and then extended with zeros.\<close>

definition ROUNDUP :: "u64 \<Rightarrow> u64 \<Rightarrow> u64" where
  "ROUNDUP a b = (a + (b - 1)) AND NOT (b - 1)"

definition ROUNDUP_uint :: "u64 \<Rightarrow> u32 \<Rightarrow> u64" where
  "ROUNDUP_uint a b = (a + ucast (b - 1)) AND ucast (NOT (b - 1))"

text \<open>The walk to the chunk to insert before splits the list there.\<close>

fun insert_walk :: "free_heap_chunk \<Rightarrow> free_heap_chunk list \<Rightarrow> (free_heap_chunk list \<times> free_heap_chunk list) option" where
  "insert_walk c [] = Some ([], [])"
| "insert_walk c (n # ns) =
     (if ch_base c < ch_base n
      then do { ASSERT (ch_base c + ch_len c \<le> ch_base n); Some ([], n # ns) }
      else do { (pre, post) \<leftarrow> insert_walk c ns; Some (n # pre, post) })"

definition merge_prev :: "free_heap_chunk list \<Rightarrow> free_heap_chunk \<Rightarrow> free_heap_chunk list \<times> free_heap_chunk" where
  "merge_prev pre c =
     (if pre \<noteq> [] \<and> ch_base (last pre) + ch_len (last pre) = ch_base c
      then (butlast pre, (last pre)\<lparr>ch_len := ch_len (last pre) + ch_len c\<rparr>)
      else (pre, c))"

definition merge_next :: "free_heap_chunk \<Rightarrow> free_heap_chunk list \<Rightarrow> free_heap_chunk \<times> free_heap_chunk list" where
  "merge_next c post =
     (if post \<noteq> [] \<and> ch_base c + ch_len c = ch_base (hd post)
      then (c\<lparr>ch_len := ch_len c + ch_len (hd post)\<rparr>, tl post)
      else (c, post))"

definition heap_insert_free_chunk :: "free_heap_chunk \<Rightarrow> heap \<Rightarrow> (free_heap_chunk \<times> heap) option" where
  "heap_insert_free_chunk chunk h = do {
     let h = h\<lparr>h_remaining := h_remaining h + ch_len chunk\<rparr>;
     (pre, post) \<leftarrow> insert_walk chunk (h_free_list h);
     let (pre, chunk) = merge_prev pre chunk;
     let (chunk, post) = merge_next chunk post;
     Some (chunk, h\<lparr>h_free_list := pre @ chunk # post\<rparr>)
   }"

definition heap_create_free_chunk :: "u64 \<Rightarrow> u64 \<Rightarrow> heap \<Rightarrow> (free_heap_chunk \<times> heap) option" where
  "heap_create_free_chunk ptr len h = do {
     ASSERT (unat len mod 8 = 0);
     Some (\<lparr>ch_base = ptr, ch_len = len\<rparr>, h\<lparr>h_headers := clobber ptr (h_headers h)\<rparr>)
   }"

primrec insert_all :: "free_heap_chunk list \<Rightarrow> heap \<Rightarrow> heap option" where
  "insert_all [] h = Some h"
| "insert_all (c # cs) h = do { (_, h) \<leftarrow> heap_insert_free_chunk c h; insert_all cs h }"

definition heap_free_delayed_list :: "heap \<Rightarrow> heap option" where
  "heap_free_delayed_list h =
     insert_all (rev (h_delayed_free_list h)) (h\<lparr>h_delayed_free_list := []\<rparr>)"

text \<open>The pending frees are dealt with first thing.\<close>

definition heap_flush :: "heap \<Rightarrow> heap option" where
  "heap_flush h = (if h_delayed_free_list h \<noteq> [] then heap_free_delayed_list h else Some h)"

definition alloc_size :: "u64 \<Rightarrow> u32 \<Rightarrow> u64" where
  "alloc_size sz alignment =
     (let sz = sz + 24;
          sz = (if sz < 24 then 24 else sz);
          sz = ROUNDUP sz 8
      in if 0 < alignment then sz + ucast alignment else sz)"

fun alloc_walk :: "u64 \<Rightarrow> free_heap_chunk list \<Rightarrow>
    (free_heap_chunk list \<times> free_heap_chunk \<times> free_heap_chunk list) option option" where
  "alloc_walk sz [] = Some None"
| "alloc_walk sz (c # cs) = do {
     ASSERT (unat (ch_len c) mod 8 = 0);
     if sz \<le> ch_len c then Some (Some ([], c, cs))
     else do {
       r \<leftarrow> alloc_walk sz cs;
       Some (map_option (\<lambda>(pre, d, post). (c # pre, d, post)) r)
     }
   }"

definition heap_alloc :: "u64 \<Rightarrow> u32 \<Rightarrow> heap \<Rightarrow> (u64 \<times> heap) option" where
  "heap_alloc sz alignment h = do {
     h \<leftarrow> heap_flush h;
     if alignment AND (alignment - 1) \<noteq> 0 then Some (0, h)
     else do {
       let alignment = (if 0 < alignment \<and> alignment < 16 then 16 else alignment);
       let sz = alloc_size sz alignment;
       found \<leftarrow> alloc_walk sz (h_free_list h);
       (case found of
          None \<Rightarrow> Some (0, h)
        | Some (pre, chunk, post) \<Rightarrow> do {
            (chunk, post, h) \<leftarrow>
              (if sz + 24 < ch_len chunk
               then do {
                 (newchunk, h) \<leftarrow> heap_create_free_chunk (ch_base chunk + sz) (ch_len chunk - sz) h;
                 Some (chunk\<lparr>ch_len := ch_len chunk - (ch_len chunk - sz)\<rparr>, newchunk # post, h)
               }
               else Some (chunk, post, h));
            ASSERT (sz \<le> ch_len chunk);
            let sz = ch_len chunk;
            let ptr = ch_base chunk + 24;
            let ptr = (if 0 < alignment then ROUNDUP_uint ptr alignment else ptr);
            let remaining = h_remaining h - sz;
            Some (ptr, h\<lparr>h_free_list := pre @ post,
              h_headers := (clobber (ptr - 24) (h_headers h))(ptr \<mapsto> (ch_base chunk, sz)),
              h_remaining := remaining,
              h_low_watermark := (if remaining < h_low_watermark h then remaining else h_low_watermark h)\<rparr>)
          })
     }
   }"

definition heap_free :: "u64 \<Rightarrow> heap \<Rightarrow> heap option" where
  "heap_free ptr h =
     (if ptr = 0 then Some h
      else do {
        (p, sz) \<leftarrow> h_headers h ptr;
        (chunk, h) \<leftarrow> heap_create_free_chunk p sz h;
        (_, h) \<leftarrow> heap_insert_free_chunk chunk h;
        Some h
      })"

definition heap_delayed_free :: "u64 \<Rightarrow> heap \<Rightarrow> heap option" where
  "heap_delayed_free ptr h = do {
     (p, sz) \<leftarrow> h_headers h ptr;
     (chunk, h) \<leftarrow> heap_create_free_chunk p sz h;
     Some (h\<lparr>h_delayed_free_list := chunk # h_delayed_free_list h\<rparr>)
   }"

record heap_stats =
  st_heap_start :: u64
  st_heap_len :: u64
  st_heap_free :: u64
  st_heap_max_chunk :: u64
  st_heap_low_watermark :: u64

fun stats_walk :: "free_heap_chunk list \<Rightarrow> heap_stats \<Rightarrow> heap_stats" where
  "stats_walk [] st = st"
| "stats_walk (c # cs) st =
     stats_walk cs (st\<lparr>st_heap_free := st_heap_free st + ch_len c,
       st_heap_max_chunk := (if st_heap_max_chunk st < ch_len c then ch_len c else st_heap_max_chunk st)\<rparr>)"

definition heap_get_stats :: "heap \<Rightarrow> (heap_stats \<times> heap) option" where
  "heap_get_stats h = do {
     h \<leftarrow> heap_flush h;
     let st = stats_walk (h_free_list h)
       \<lparr>st_heap_start = h_base h, st_heap_len = h_len h, st_heap_free = 0, st_heap_max_chunk = 0,
        st_heap_low_watermark = 0\<rparr>;
     Some (st\<lparr>st_heap_low_watermark := h_low_watermark h\<rparr>, h)
   }"

text \<open>\<open>base\<close> and \<open>len\<close> are \<^verbatim>\<open>HEAP_START\<close> and \<^verbatim>\<open>HEAP_LEN\<close>; the memory holds no headers yet.\<close>

definition heap_init :: "u64 \<Rightarrow> u64 \<Rightarrow> heap option" where
  "heap_init base len = do {
     let h = \<lparr>h_base = base, h_len = len, h_remaining = 0, h_low_watermark = len, h_free_list = [],
              h_delayed_free_list = [], h_headers = (\<lambda>_. None)\<rparr>;
     (chunk, h) \<leftarrow> heap_create_free_chunk (h_base h) (h_len h) h;
     (_, h) \<leftarrow> heap_insert_free_chunk chunk h;
     Some h
   }"

definition heap_add_block :: "u64 \<Rightarrow> u64 \<Rightarrow> heap \<Rightarrow> heap option" where
  "heap_add_block ptr len h = do {
     (chunk, h) \<leftarrow> heap_create_free_chunk ptr len h;
     (_, h) \<leftarrow> heap_insert_free_chunk chunk h;
     Some h
   }"

section \<open>Extents\<close>

definition lo :: "free_heap_chunk \<Rightarrow> nat" where
  "lo c = unat (ch_base c)"

definition hi :: "free_heap_chunk \<Rightarrow> nat" where
  "hi c = unat (ch_base c) + unat (ch_len c)"

definition ext :: "free_heap_chunk \<Rightarrow> nat set" where
  "ext c = {lo c..<hi c}"

definition space :: "free_heap_chunk list \<Rightarrow> nat set" where
  "space cs = (\<Union>c\<in>set cs. ext c)"

definition chunk_ok :: "nat \<Rightarrow> free_heap_chunk \<Rightarrow> bool" where
  "chunk_ok lim c \<longleftrightarrow> 0 < lo c \<and> 8 dvd lo c \<and> 8 dvd unat (ch_len c) \<and> 24 \<le> unat (ch_len c) \<and> hi c \<le> lim"

definition coalesced :: "free_heap_chunk list \<Rightarrow> bool" where
  "coalesced cs = sorted_wrt (\<lambda>c d. hi c < lo d) cs"

lemma space_simps [simp]:
  "space [] = {}" "space (c # cs) = ext c \<union> space cs" "space (cs @ ds) = space cs \<union> space ds"
  by (auto simp: space_def)

lemma space_iff: "x \<in> space cs \<longleftrightarrow> (\<exists>c\<in>set cs. x \<in> ext c)"
  by (simp add: space_def)

lemma finite_ext [simp]: "finite (ext c)" and card_ext [simp]: "card (ext c) = unat (ch_len c)"
  by (simp_all add: ext_def lo_def hi_def)

lemma finite_space [simp]: "finite (space cs)"
  by (simp add: space_def)

lemma chunk_ok_lt: "chunk_ok lim c \<Longrightarrow> lo c < hi c" and chunk_ok_ext: "chunk_ok lim c \<Longrightarrow> ext c \<noteq> {}"
  by (auto simp: chunk_ok_def hi_def lo_def ext_def)

lemma space_lim: "\<forall>c\<in>set cs. chunk_ok lim c \<Longrightarrow> space cs \<subseteq> {..<lim}"
  by (fastforce simp: space_def chunk_ok_def ext_def)

lemma unat_end: "hi c < 2 ^ 64 \<Longrightarrow> unat (ch_base c + ch_len c) = hi c"
  unfolding hi_def by (rule unat_add64)

lemma unat_end_ok: "chunk_ok lim c \<Longrightarrow> lim < 2 ^ 64 \<Longrightarrow> unat (ch_base c + ch_len c) = hi c"
  by (rule unat_end) (simp add: chunk_ok_def)

lemma ext_disjoint:
  "lo c < hi c \<Longrightarrow> lo d < hi d \<Longrightarrow> ext c \<inter> ext d = {} \<longleftrightarrow> hi c \<le> lo d \<or> hi d \<le> lo c"
  by (auto simp: ext_def)

lemma coalesced_append:
  "coalesced (cs @ ds) \<longleftrightarrow> coalesced cs \<and> coalesced ds \<and> (\<forall>c\<in>set cs. \<forall>d\<in>set ds. hi c < lo d)"
  by (simp add: coalesced_def sorted_wrt_append)

lemma coalesced_Cons: "coalesced (c # cs) \<longleftrightarrow> (\<forall>d\<in>set cs. hi c < lo d) \<and> coalesced cs"
  by (simp add: coalesced_def)

lemma coalesced_Nil [simp]: "coalesced []"
  by (simp add: coalesced_def)

lemma sum_free:
  assumes "coalesced cs"
  shows "sum_list (map (\<lambda>c. unat (ch_len c)) cs) = card (space cs)"
  using assms
proof (induction cs)
  case (Cons c cs)
  have "ext c \<inter> space cs = {}"
    using Cons.prems by (fastforce simp: coalesced_Cons space_def ext_def)
  thus ?case using Cons by (simp add: coalesced_Cons card_Un_disjoint)
qed simp

section \<open>Inserting a chunk\<close>

lemma insert_walk_ok:
  assumes "coalesced fl" "\<forall>d\<in>set fl. chunk_ok lim d" "chunk_ok lim c" "ext c \<inter> space fl = {}" "lim < 2 ^ 64"
  shows "\<exists>pre post. insert_walk c fl = Some (pre, post) \<and> fl = pre @ post \<and>
    (\<forall>d\<in>set pre. hi d \<le> lo c) \<and> (\<forall>d\<in>set post. hi c \<le> lo d)"
  using assms
proof (induction fl)
  case (Cons n ns)
  have n: "chunk_ok lim n" "ext c \<inter> ext n = {}" using Cons.prems by auto
  hence d: "hi c \<le> lo n \<or> hi n \<le> lo c"
    using ext_disjoint[of c n] chunk_ok_lt Cons.prems(3) by blast
  have l: "lo c < hi c" "lo n < hi n" using n(1) Cons.prems(3) chunk_ok_lt by blast+
  show ?case
  proof (cases "ch_base c < ch_base n")
    case True
    hence "hi c \<le> lo n" using d l by (simp add: word_less_nat_alt lo_def)
    moreover from this have "\<forall>d\<in>set ns. hi c \<le> lo d"
      using Cons.prems(1) l by (fastforce simp: coalesced_Cons)
    ultimately show ?thesis
      using True unat_end_ok[OF Cons.prems(3,5)] by (simp add: word_le_nat_alt lo_def)
  next
    case False
    hence "hi n \<le> lo c" using d l by (simp add: word_less_nat_alt lo_def)
    moreover have "ext c \<inter> space ns = {}" using Cons.prems(4) by auto
    ultimately obtain pre post where "insert_walk c ns = Some (pre, post)" "ns = pre @ post"
      "\<forall>d\<in>set pre. hi d \<le> lo c" "\<forall>d\<in>set post. hi c \<le> lo d"
      using Cons by (auto simp: coalesced_Cons)
    moreover note \<open>hi n \<le> lo c\<close>
    ultimately have "insert_walk c (n # ns) = Some (n # pre, post)" "n # ns = (n # pre) @ post"
      "\<forall>d\<in>set (n # pre). hi d \<le> lo c" using False by simp_all
    with \<open>\<forall>d\<in>set post. hi c \<le> lo d\<close> show ?thesis by blast
  qed
qed simp

lemma merge_prev_ok:
  assumes "coalesced pre" "\<forall>d\<in>set pre. chunk_ok lim d" "chunk_ok lim c" "\<forall>d\<in>set pre. hi d \<le> lo c" "lim < 2 ^ 64"
    and "merge_prev pre c = (pre', c')"
  shows "coalesced (pre' @ [c'])" "\<forall>d\<in>set (pre' @ [c']). chunk_ok lim d"
    "space (pre' @ [c']) = space pre \<union> ext c" "hi c' = hi c"
proof -
  have "coalesced (pre' @ [c']) \<and> (\<forall>d\<in>set (pre' @ [c']). chunk_ok lim d) \<and>
    space (pre' @ [c']) = space pre \<union> ext c \<and> hi c' = hi c"
  proof (cases pre rule: rev_cases)
    case Nil
    thus ?thesis using assms by (auto simp: merge_prev_def coalesced_Cons)
  next
    case (snoc ps p)
    have p: "chunk_ok lim p" "hi p \<le> lo c" "coalesced ps" "\<forall>d\<in>set ps. hi d < lo p" "\<forall>d\<in>set ps. chunk_ok lim d"
      using assms snoc by (auto simp: coalesced_append)
    have e: "ch_base p + ch_len p = ch_base c \<longleftrightarrow> hi p = lo c"
      using unat_end_ok[OF p(1) assms(5)] by (simp add: word_unat_eq_iff lo_def)
    show ?thesis
    proof (cases "hi p = lo c")
      case False
      hence "\<forall>d\<in>set ps. hi d < lo c" using p chunk_ok_lt[OF p(1)] by fastforce
      thus ?thesis using False assms p e snoc by (auto simp: merge_prev_def coalesced_append coalesced_Cons)
    next
      case True
      let ?q = "p\<lparr>ch_len := ch_len p + ch_len c\<rparr>"
      have "unat (ch_len p) + unat (ch_len c) < 2 ^ 64"
        using True assms(3,5) by (simp add: chunk_ok_def hi_def lo_def)
      hence u: "unat (ch_len ?q) = unat (ch_len p) + unat (ch_len c)" using unat_add64 by simp
      have q: "lo ?q = lo p" "hi ?q = hi c" using True u by (simp_all add: lo_def hi_def)
      have "chunk_ok lim ?q" using p(1) assms(3) u q by (simp add: chunk_ok_def)
      moreover have "ext ?q = ext p \<union> ext c"
        using q True chunk_ok_lt[OF p(1)] chunk_ok_lt[OF assms(3)] by (auto simp: ext_def)
      moreover have "pre' = ps" "c' = ?q" using assms(6) True e snoc by (auto simp: merge_prev_def)
      ultimately show ?thesis using p q snoc by (auto simp: coalesced_append coalesced_Cons)
    qed
  qed
  thus "coalesced (pre' @ [c'])" "\<forall>d\<in>set (pre' @ [c']). chunk_ok lim d"
    "space (pre' @ [c']) = space pre \<union> ext c" "hi c' = hi c" by blast+
qed

lemma merge_next_ok:
  assumes "coalesced (pre @ [c])" "coalesced post" "\<forall>d\<in>set post. chunk_ok lim d" "chunk_ok lim c"
    "\<forall>d\<in>set post. hi c \<le> lo d" "lim < 2 ^ 64" and "merge_next c post = (c', post')"
  shows "coalesced (pre @ c' # post')" "\<forall>d\<in>set (c' # post'). chunk_ok lim d"
    "space (c' # post') = ext c \<union> space post"
proof -
  have pre: "coalesced pre" "\<forall>d\<in>set pre. hi d < lo c" using assms(1) by (auto simp: coalesced_append)
  have "coalesced (pre @ c' # post') \<and> (\<forall>d\<in>set (c' # post'). chunk_ok lim d) \<and>
    space (c' # post') = ext c \<union> space post"
  proof (cases post)
    case Nil
    thus ?thesis using assms by (auto simp: merge_next_def)
  next
    case (Cons n ns)
    have n: "chunk_ok lim n" "hi c \<le> lo n" "coalesced ns" "\<forall>d\<in>set ns. hi n < lo d" "\<forall>d\<in>set ns. chunk_ok lim d"
      using assms Cons by (auto simp: coalesced_Cons)
    have e: "ch_base c + ch_len c = ch_base n \<longleftrightarrow> hi c = lo n"
      using unat_end_ok[OF assms(4,6)] by (simp add: word_unat_eq_iff lo_def)
    note lt = chunk_ok_lt[OF assms(4)] chunk_ok_lt[OF n(1)]
    show ?thesis
    proof (cases "hi c = lo n")
      case False
      hence "\<forall>d\<in>set post. hi c < lo d" "\<forall>d\<in>set pre. \<forall>e\<in>set post. hi d < lo e"
        using n pre lt Cons by fastforce+
      moreover have "c' = c" "post' = post" using assms(7) False e Cons by (auto simp: merge_next_def)
      ultimately show ?thesis using pre assms(2,3,4) by (auto simp: coalesced_append coalesced_Cons)
    next
      case True
      let ?q = "c\<lparr>ch_len := ch_len c + ch_len n\<rparr>"
      have "unat (ch_len c) + unat (ch_len n) < 2 ^ 64"
        using True n(1) assms(6) by (simp add: chunk_ok_def hi_def lo_def)
      hence u: "unat (ch_len ?q) = unat (ch_len c) + unat (ch_len n)" using unat_add64 by simp
      have q: "lo ?q = lo c" "hi ?q = hi n" using True u by (simp_all add: lo_def hi_def)
      have "chunk_ok lim ?q" using n(1) assms(4) u q by (simp add: chunk_ok_def)
      moreover have "ext ?q = ext c \<union> ext n" using q True lt by (auto simp: ext_def)
      moreover have "post' = ns" "c' = ?q" using assms(7) True e Cons by (auto simp: merge_next_def)
      moreover have "\<forall>d\<in>set pre. \<forall>e\<in>set ns. hi d < lo e" using pre n lt True by fastforce
      ultimately show ?thesis using pre n q Cons by (auto simp: coalesced_append coalesced_Cons)
    qed
  qed
  thus "coalesced (pre @ c' # post')" "\<forall>d\<in>set (c' # post'). chunk_ok lim d"
    "space (c' # post') = ext c \<union> space post" by blast+
qed

lemma heap_insert_free_chunk_ok:
  assumes "coalesced (h_free_list h)" "\<forall>d\<in>set (h_free_list h). chunk_ok lim d" "chunk_ok lim c"
    "ext c \<inter> space (h_free_list h) = {}" "lim < 2 ^ 64"
  shows "\<exists>c' fl. heap_insert_free_chunk c h =
      Some (c', h\<lparr>h_remaining := h_remaining h + ch_len c, h_free_list := fl\<rparr>) \<and> coalesced fl \<and>
      (\<forall>d\<in>set fl. chunk_ok lim d) \<and> space fl = ext c \<union> space (h_free_list h)"
proof -
  obtain pre post where w: "insert_walk c (h_free_list h) = Some (pre, post)" "h_free_list h = pre @ post"
    "\<forall>d\<in>set pre. hi d \<le> lo c" "\<forall>d\<in>set post. hi c \<le> lo d"
    using insert_walk_ok[OF assms] by blast
  obtain pre' c1 where p: "merge_prev pre c = (pre', c1)" by fastforce
  obtain c2 post' where n: "merge_next c1 post = (c2, post')" by fastforce
  have fl: "coalesced pre" "coalesced post" "\<forall>d\<in>set pre. chunk_ok lim d" "\<forall>d\<in>set post. chunk_ok lim d"
    using assms(1,2) w(2) by (auto simp: coalesced_append)
  note mp = merge_prev_ok[OF fl(1,3) assms(3) w(3) assms(5) p]
  have c1: "chunk_ok lim c1" "\<forall>d\<in>set post. hi c1 \<le> lo d" using mp(2,4) w(4) by simp_all
  note mn = merge_next_ok[OF mp(1) fl(2,4) c1 assms(5) n]
  have "space (pre' @ c2 # post') = ext c \<union> space (h_free_list h)" using mp(3) mn(3) w(2) by auto
  moreover have "\<forall>d\<in>set (pre' @ c2 # post'). chunk_ok lim d" using mp(2) mn(2) by auto
  moreover have "heap_insert_free_chunk c h =
      Some (c2, h\<lparr>h_remaining := h_remaining h + ch_len c, h_free_list := pre' @ c2 # post'\<rparr>)"
    using w(1) p n by (simp add: heap_insert_free_chunk_def)
  ultimately show ?thesis using mn(1) by blast
qed

section \<open>Rounding and sizes\<close>

lemma ROUNDUP_eq:
  assumes "unat b = 2 ^ k" "unat a + 2 ^ k \<le> 2 ^ 64"
  shows "unat (ROUNDUP a b) = (unat a + 2 ^ k - 1) div 2 ^ k * 2 ^ k"
proof -
  note b = pred_pow2[OF assms(1)]
  have "unat (a + mask k) = unat a + 2 ^ k - 1"
    using assms(2) unat_mask_lt[OF b(2)] by (simp add: unat_word_ariths)
  thus ?thesis by (simp add: ROUNDUP_def b(1) unat_and_not_mask)
qed

lemma ROUNDUP_uint_eq:
  assumes "unat b = 2 ^ k" "unat a + 2 ^ k \<le> 2 ^ 32"
  shows "unat (ROUNDUP_uint a b) = (unat a + 2 ^ k - 1) div 2 ^ k * 2 ^ k"
proof -
  note b = pred_pow2[OF assms(1)]
  have "ucast (mask k :: u32) = (mask k :: u64)" using b(2) by (intro bit_eqI) (auto simp: bit_simps)
  have u: "unat (a + mask k) = unat a + 2 ^ k - 1"
    using assms(2) unat_mask_lt[of k, where 'a = 64] b(2) by (simp add: unat_word_ariths)
  hence "take_bit 32 (a + mask k) = a + mask k"
    using assms(2) by (simp add: word_unat_eq_iff unsigned_take_bit_eq take_bit_nat_eq_self_iff)
  hence "\<not> bit (a + mask k) i" if "32 \<le> i" for i using that by (metis bit_take_bit_iff linorder_not_le)
  hence "(a + mask k) AND ucast (NOT (mask k) :: u32) = (a + mask k) AND NOT (mask k)"
    by (intro bit_eqI) (auto simp: bit_simps not_less[symmetric])
  thus ?thesis using u \<open>ucast (mask k :: u32) = _\<close> by (simp add: ROUNDUP_uint_def b(1) unat_and_not_mask)
qed

text \<open>The alignment the code works with: none, or a power of two that is at least 16.\<close>

definition align_ok :: "u32 \<Rightarrow> bool" where
  "align_ok al \<longleftrightarrow> al = 0 \<or> (\<exists>k \<ge> 4. k < 32 \<and> unat al = 2 ^ k)"

lemma align_adjusted:
  assumes "al AND (al - 1) = 0"
  shows "align_ok (if 0 < al \<and> al < 16 then 16 else al)"
proof (cases "al = 0 \<or> al < 16")
  case True
  moreover have "unat (16 :: u32) = 2 ^ 4" by simp
  ultimately show ?thesis by (auto simp: align_ok_def word_gt_0 intro!: exI[of _ 4])
next
  case False
  then obtain k where k: "k < 32" "unat al = 2 ^ k" using and_pred_zero_word[of al] assms by auto
  have "\<not> k < 4"
  proof
    assume "k < 4"
    hence "(2::nat) ^ k < 2 ^ 4" by (rule power_strict_increasing) simp
    thus False using False k by (simp add: word_less_nat_alt)
  qed
  thus ?thesis using False k by (auto simp: align_ok_def)
qed

lemma align_dvd:
  fixes al :: u32
  assumes "al AND (al - 1) = 0" "0 < al"
  shows "0 < (if 0 < al \<and> al < 16 then 16 else al) \<and> unat al dvd unat (if 0 < al \<and> al < 16 then 16 else al)"
proof (cases "al < 16")
  case True
  have "al \<noteq> 0" using assms(2) by simp
  then obtain k where k: "unat al = 2 ^ k" using and_pred_zero_word[OF _ assms(1)] by blast
  hence "(2::nat) ^ k < 2 ^ 4" using True by (simp add: word_less_nat_alt)
  hence "k < 4" by (rule power_less_imp_less_exp[rotated]) simp
  hence "(2::nat) ^ k dvd 2 ^ 4" by (intro le_imp_power_dvd) simp
  thus ?thesis using assms(2) True k by simp
qed (use assms(2) in simp)

lemma alloc_size_eq:
  assumes "unat n < 2 ^ 63" "align_ok al"
  shows "unat (alloc_size n al) = (unat n + 31) div 8 * 8 + unat al" "8 dvd unat (alloc_size n al)"
    "unat n + 24 + unat al \<le> unat (alloc_size n al)" "unat (alloc_size n al) < 2 ^ 64 - 2 ^ 32"
proof -
  have n: "unat (n + 24) = unat n + 24" using assms(1) unat_add64[of n 24] by simp
  have "unat (ROUNDUP (n + 24) 8) = (unat (n + 24) + 2 ^ 3 - 1) div 2 ^ 3 * 2 ^ 3"
    using assms(1) n by (intro ROUNDUP_eq) simp_all
  hence r: "unat (ROUNDUP (n + 24) 8) = (unat n + 31) div 8 * 8" using n by simp
  have b: "unat n + 24 \<le> (unat n + 31) div 8 * 8" "(unat n + 31) div 8 * 8 < unat n + 32"
    using roundup_bounds[of 8 "unat n + 24"] by simp_all
  have al: "unat al < 2 ^ 32" using unsigned_less[of al, where 'a = nat] by simp
  have u: "unat (ucast al :: u64) = unat al" using al by (simp add: unsigned_ucast_eq take_bit_nat_eq_self)
  have "unat (ROUNDUP (n + 24) 8 + ucast al) = (unat n + 31) div 8 * 8 + unat al"
    using unat_add64[of "ROUNDUP (n + 24) 8" "ucast al"] r u al b(2) assms(1) by simp
  moreover have "\<not> n + 24 < 24" using n by (simp add: word_less_nat_alt)
  ultimately show e: "unat (alloc_size n al) = (unat n + 31) div 8 * 8 + unat al"
    using r by (auto simp: alloc_size_def word_gt_0 Let_def)
  have "8 dvd unat al"
  proof (cases "al = 0")
    case False
    then obtain k where "4 \<le> k" "unat al = 2 ^ k" using assms(2) by (auto simp: align_ok_def)
    thus ?thesis using le_imp_power_dvd[of 3 k "2::nat"] by simp
  qed simp
  thus "8 dvd unat (alloc_size n al)" using e by simp
  show "unat n + 24 + unat al \<le> unat (alloc_size n al)" "unat (alloc_size n al) < 2 ^ 64 - 2 ^ 32"
    using e b al assms(1) by simp_all
qed

text \<open>Where the block of an allocation starts.\<close>

definition block_start :: "u64 \<Rightarrow> u32 \<Rightarrow> u64" where
  "block_start base al = (if 0 < al then ROUNDUP_uint (base + 24) al else base + 24)"

lemma block_start_bounds:
  assumes "align_ok al" "unat base + 24 + unat al \<le> lim" "lim < 2 ^ 64" "al = 0 \<or> lim \<le> 2 ^ 32"
  shows "unat base + 24 \<le> unat (block_start base al)" "unat (block_start base al) \<le> unat base + 24 + unat al"
    "0 < al \<Longrightarrow> unat al dvd unat (block_start base al)"
proof -
  have b: "unat (base + 24) = unat base + 24" using assms(2,3) unat_add64[of base 24] by simp
  have "unat base + 24 \<le> unat (block_start base al) \<and> unat (block_start base al) \<le> unat base + 24 + unat al \<and>
    (0 < al \<longrightarrow> unat al dvd unat (block_start base al))"
  proof (cases "al = 0")
    case True
    thus ?thesis using b by (simp add: block_start_def)
  next
    case False
    then obtain k where k: "unat al = 2 ^ k" using assms(1) by (auto simp: align_ok_def)
    have "unat (ROUNDUP_uint (base + 24) al) = (unat (base + 24) + 2 ^ k - 1) div 2 ^ k * 2 ^ k"
      using assms False b k by (intro ROUNDUP_uint_eq) simp_all
    moreover have "0 < al" using False by (simp add: word_gt_0)
    ultimately have "unat (block_start base al) = (unat base + 24 + unat al - 1) div unat al * unat al"
      using b k by (simp add: block_start_def)
    thus ?thesis using roundup_bounds[of "unat al" "unat base + 24"] k by simp
  qed
  thus "unat base + 24 \<le> unat (block_start base al)" "unat (block_start base al) \<le> unat base + 24 + unat al"
    "0 < al \<Longrightarrow> unat al dvd unat (block_start base al)" by blast+
qed

section \<open>The invariant\<close>

primrec disjoint_chunks :: "free_heap_chunk list \<Rightarrow> bool" where
  "disjoint_chunks [] = True"
| "disjoint_chunks (c # cs) = (ext c \<inter> space cs = {} \<and> disjoint_chunks cs)"

lemma disjoint_chunks_append:
  "disjoint_chunks (cs @ ds) \<longleftrightarrow> disjoint_chunks cs \<and> disjoint_chunks ds \<and> space cs \<inter> space ds = {}"
  by (induction cs) auto

lemma space_mset: "mset cs = mset ds \<Longrightarrow> space cs = space ds"
  unfolding space_def using mset_eq_setD by metis

lemma disjoint_chunks_mset: "mset cs = mset ds \<Longrightarrow> disjoint_chunks cs = disjoint_chunks ds"
proof (induction cs arbitrary: ds)
  case (Cons c cs)
  hence "c \<in> set ds" by (metis list.set_intros(1) mset_eq_setD)
  then obtain d1 d2 where ds: "ds = d1 @ c # d2" by (meson split_list)
  hence m: "mset cs = mset (d1 @ d2)" using Cons.prems by simp
  have "disjoint_chunks ds \<longleftrightarrow> ext c \<inter> space (d1 @ d2) = {} \<and> disjoint_chunks (d1 @ d2)"
    unfolding ds by (auto simp: disjoint_chunks_append)
  thus ?case using Cons.IH[OF m] space_mset[OF m] by simp
qed simp

text \<open>The chunk a live allocation occupies, from its header.\<close>

definition block_of :: "(u64 \<Rightarrow> (u64 \<times> u64) option) \<Rightarrow> u64 \<Rightarrow> free_heap_chunk" where
  "block_of m p = (case m p of Some (a, n) \<Rightarrow> \<lparr>ch_base = a, ch_len = n\<rparr> | None \<Rightarrow> \<lparr>ch_base = 0, ch_len = 0\<rparr>)"

definition header_ok :: "(u64 \<Rightarrow> (u64 \<times> u64) option) \<Rightarrow> u64 \<Rightarrow> bool" where
  "header_ok m p \<longleftrightarrow> m p \<noteq> None \<and> lo (block_of m p) + 24 \<le> unat p \<and> unat p \<le> hi (block_of m p)"

text \<open>
  \<open>F\<close> are the chunks an operation has in its hands, \<open>L\<close> the live allocations, \<open>M\<close> the memory that
  was given to the heap and \<open>lim\<close> a bound of its addresses. Free, delayed, floating and allocated
  chunks partition \<open>M\<close>; \<^verbatim>\<open>remaining\<close> is the number of free bytes.
\<close>

definition used_chunks :: "free_heap_chunk list \<Rightarrow> heap \<Rightarrow> u64 list \<Rightarrow> free_heap_chunk list" where
  "used_chunks F h L = F @ h_delayed_free_list h @ map (block_of (h_headers h)) L"

definition heap_inv :: "nat \<Rightarrow> nat set \<Rightarrow> free_heap_chunk list \<Rightarrow> heap \<Rightarrow> u64 list \<Rightarrow> bool" where
  "heap_inv lim M F h L \<longleftrightarrow> lim < 2 ^ 64 \<and> coalesced (h_free_list h) \<and>
     (\<forall>c\<in>set (h_free_list h @ used_chunks F h L). chunk_ok lim c) \<and>
     disjoint_chunks (used_chunks F h L) \<and> space (h_free_list h) \<inter> space (used_chunks F h L) = {} \<and>
     space (h_free_list h) \<union> space (used_chunks F h L) = M \<and> (\<forall>p\<in>set L. header_ok (h_headers h) p) \<and>
     unat (h_remaining h) = card (space (h_free_list h)) \<and> h_low_watermark h \<le> h_remaining h"

text \<open>Chunks may change hands as long as they stay the same all together.\<close>

lemma heap_inv_transfer:
  assumes "heap_inv lim M F h L" "mset (used_chunks F' h' L') = mset (used_chunks F h L)"
    "h_free_list h' = h_free_list h" "h_remaining h' = h_remaining h" "h_low_watermark h' = h_low_watermark h"
    "\<forall>p\<in>set L'. header_ok (h_headers h') p"
  shows "heap_inv lim M F' h' L'"
  using assms(1,3-6) disjoint_chunks_mset[OF assms(2)] space_mset[OF assms(2)] mset_eq_setD[OF assms(2)]
  by (simp add: heap_inv_def)

lemma heap_insert_inv:
  assumes "heap_inv lim M (c # F) h L"
  shows "\<exists>c' h'. heap_insert_free_chunk c h = Some (c', h') \<and> heap_inv lim M F h' L \<and>
    h_delayed_free_list h' = h_delayed_free_list h \<and> h_headers h' = h_headers h"
proof -
  let ?U = "used_chunks F h L"
  have u: "used_chunks (c # F) h L = c # ?U" by (simp add: used_chunks_def)
  have i: "lim < 2 ^ 64" "coalesced (h_free_list h)" "\<forall>d\<in>set (h_free_list h). chunk_ok lim d" "chunk_ok lim c"
    "\<forall>d\<in>set ?U. chunk_ok lim d" "ext c \<inter> space (h_free_list h) = {}" "ext c \<inter> space ?U = {}" "disjoint_chunks ?U"
    "space (h_free_list h) \<inter> space ?U = {}" "ext c \<union> space (h_free_list h) \<union> space ?U = M"
    using assms unfolding heap_inv_def u by auto
  obtain c' fl where fl: "heap_insert_free_chunk c h =
      Some (c', h\<lparr>h_remaining := h_remaining h + ch_len c, h_free_list := fl\<rparr>)" "coalesced fl"
      "\<forall>d\<in>set fl. chunk_ok lim d" "space fl = ext c \<union> space (h_free_list h)"
    using heap_insert_free_chunk_ok[OF i(2,3,4,6,1)] by blast
  have r: "unat (h_remaining h) = card (space (h_free_list h))" "h_low_watermark h \<le> h_remaining h"
    using assms by (auto simp: heap_inv_def)
  have "card (space fl) = unat (h_remaining h) + unat (ch_len c)"
    using fl(4) i(6) r(1) by (simp add: card_Un_disjoint)
  moreover have "card (space fl) \<le> lim" using card_mono[OF _ space_lim[OF fl(3)]] by simp
  ultimately have "unat (h_remaining h + ch_len c) = card (space fl)"
    using i(1) unat_add64[of "h_remaining h" "ch_len c"] by simp
  moreover from this have "h_low_watermark h \<le> h_remaining h + ch_len c"
    using r \<open>card (space fl) = _\<close> by (simp add: word_le_nat_alt)
  moreover have "used_chunks F (h\<lparr>h_remaining := h_remaining h + ch_len c, h_free_list := fl\<rparr>) L = ?U"
    by (simp add: used_chunks_def)
  ultimately have "heap_inv lim M F (h\<lparr>h_remaining := h_remaining h + ch_len c, h_free_list := fl\<rparr>) L"
    using fl i assms by (auto simp: heap_inv_def)
  thus ?thesis using fl(1) by simp
qed

lemma insert_all_inv:
  "heap_inv lim M (cs @ F) h L \<Longrightarrow>
   \<exists>h'. insert_all cs h = Some h' \<and> heap_inv lim M F h' L \<and> h_delayed_free_list h' = h_delayed_free_list h \<and>
     h_headers h' = h_headers h"
proof (induction cs arbitrary: h)
  case (Cons c cs)
  obtain c' h1 where h1: "heap_insert_free_chunk c h = Some (c', h1)" "heap_inv lim M (cs @ F) h1 L"
    "h_delayed_free_list h1 = h_delayed_free_list h" "h_headers h1 = h_headers h"
    using heap_insert_inv[OF Cons.prems[unfolded append_Cons]] by blast
  with Cons.IH[OF h1(2)] show ?case by auto
qed simp

lemma heap_free_delayed_list_inv:
  assumes "heap_inv lim M [] h L"
  shows "\<exists>h'. heap_free_delayed_list h = Some h' \<and> heap_inv lim M [] h' L \<and> h_delayed_free_list h' = [] \<and>
    h_headers h' = h_headers h"
proof -
  have "heap_inv lim M (rev (h_delayed_free_list h) @ []) (h\<lparr>h_delayed_free_list := []\<rparr>) L"
    using assms by (rule heap_inv_transfer) (use assms in \<open>simp_all add: heap_inv_def used_chunks_def\<close>)
  from insert_all_inv[OF this] show ?thesis
    by (simp add: heap_free_delayed_list_def)
qed

text \<open>Writing a structure into one chunk leaves the headers in the others alone.\<close>

lemma clobber_other:
  assumes "header_ok m p" "ext c \<inter> ext (block_of m p) = {}" "lo c \<le> unat a" "unat a + 24 \<le> hi c"
  shows "clobber a m p = m p" "block_of (clobber a m) p = block_of m p" "header_ok (clobber a m) p"
proof -
  let ?b = "block_of m p"
  have h: "lo ?b + 24 \<le> unat p" "unat p \<le> hi ?b" using assms(1) by (auto simp: header_ok_def)
  hence "hi c \<le> lo ?b \<or> hi ?b \<le> lo c" using assms(2,3,4) ext_disjoint[of c ?b] by simp
  hence "\<not> (unat a < unat p \<and> unat p < unat a + 48)" using h assms(3,4) by linarith
  thus e: "clobber a m p = m p" by (simp only: clobber_def if_False)
  thus "block_of (clobber a m) p = block_of m p" by (simp add: block_of_def)
  with e show "header_ok (clobber a m) p" using assms(1) by (simp add: header_ok_def)
qed

lemma clobber_all:
  assumes "\<forall>p\<in>set L. header_ok m p" "ext c \<inter> space (map (block_of m) L) = {}" "lo c \<le> unat a" "unat a + 24 \<le> hi c"
  shows "map (block_of (clobber a m)) L = map (block_of m) L" "\<forall>p\<in>set L. header_ok (clobber a m) p"
    "\<forall>p\<in>set L. clobber a m p = m p"
proof -
  have "ext c \<inter> ext (block_of m p) = {}" if "p \<in> set L" for p using assms(2) that by (auto simp: space_def)
  thus "map (block_of (clobber a m)) L = map (block_of m) L" "\<forall>p\<in>set L. header_ok (clobber a m) p"
    "\<forall>p\<in>set L. clobber a m p = m p"
    using clobber_other[OF _ _ assms(3,4)] assms(1) by auto
qed

text \<open>Taking a live allocation back: its chunk is made and floats.\<close>

lemma reclaim_inv:
  assumes inv: "heap_inv lim M [] h (L1 @ p # L2)" and hd: "h_headers h p = Some (a, n)"
  shows "\<exists>c h'. heap_create_free_chunk a n h = Some (c, h') \<and> heap_inv lim M [c] h' (L1 @ L2) \<and>
    (\<forall>q\<in>set (L1 @ L2). h_headers h' q = h_headers h q)"
proof -
  let ?m = "h_headers h" and ?c = "\<lparr>ch_base = a, ch_len = n\<rparr>"
  have b: "block_of ?m p = ?c" using hd by (simp add: block_of_def)
  have ok: "chunk_ok lim ?c" "\<forall>q\<in>set (L1 @ L2). header_ok ?m q"
    "ext ?c \<inter> space (map (block_of ?m) (L1 @ L2)) = {}"
    using inv b by (auto simp: heap_inv_def used_chunks_def disjoint_chunks_append)
  have w: "lo ?c \<le> unat a" "unat a + 24 \<le> hi ?c" using ok(1) by (simp_all add: chunk_ok_def lo_def hi_def)
  note cl = clobber_all[OF ok(2,3) w]
  have "map (block_of (clobber a ?m)) L1 = map (block_of ?m) L1" "map (block_of (clobber a ?m)) L2 = map (block_of ?m) L2"
    using cl(1) by simp_all
  hence "mset (used_chunks [?c] (h\<lparr>h_headers := clobber a ?m\<rparr>) (L1 @ L2)) = mset (used_chunks [] h (L1 @ p # L2))"
    using b by (simp add: used_chunks_def del: mset_map map_eq_conv)
  with inv have "heap_inv lim M [?c] (h\<lparr>h_headers := clobber a ?m\<rparr>) (L1 @ L2)"
    by (rule heap_inv_transfer) (use cl(2) in simp_all)
  moreover have "unat n mod 8 = 0" using ok(1) by (simp add: chunk_ok_def mod_eq_0_iff_dvd)
  ultimately show ?thesis using cl(3) by (simp add: heap_create_free_chunk_def)
qed

lemma heap_free_inv:
  assumes "heap_inv lim M [] h (L1 @ p # L2)"
  shows "\<exists>h'. heap_free p h = Some h' \<and> heap_inv lim M [] h' (L1 @ L2) \<and>
    (\<forall>q\<in>set (L1 @ L2). h_headers h' q = h_headers h q)"
proof -
  have "header_ok (h_headers h) p" using assms by (simp add: heap_inv_def)
  moreover from this have "p \<noteq> 0" by (auto simp: header_ok_def)
  ultimately obtain a n where hd: "h_headers h p = Some (a, n)" "p \<noteq> 0" by (auto simp: header_ok_def)
  obtain c h1 where h1: "heap_create_free_chunk a n h = Some (c, h1)" "heap_inv lim M [c] h1 (L1 @ L2)"
    "\<forall>q\<in>set (L1 @ L2). h_headers h1 q = h_headers h q"
    using reclaim_inv[OF assms hd(1)] by blast
  from heap_insert_inv[OF h1(2)] show ?thesis using hd h1(1,3) by (auto simp: heap_free_def)
qed

lemma heap_delayed_free_inv:
  assumes "heap_inv lim M [] h (L1 @ p # L2)"
  shows "\<exists>h'. heap_delayed_free p h = Some h' \<and> heap_inv lim M [] h' (L1 @ L2)"
proof -
  have "header_ok (h_headers h) p" using assms by (simp add: heap_inv_def)
  then obtain a n where hd: "h_headers h p = Some (a, n)" by (auto simp: header_ok_def)
  obtain c h1 where h1: "heap_create_free_chunk a n h = Some (c, h1)" "heap_inv lim M [c] h1 (L1 @ L2)"
    using reclaim_inv[OF assms hd] by blast
  let ?h = "h1\<lparr>h_delayed_free_list := c # h_delayed_free_list h1\<rparr>"
  have "used_chunks [] ?h (L1 @ L2) = used_chunks [c] h1 (L1 @ L2)" by (simp add: used_chunks_def)
  hence "heap_inv lim M [] ?h (L1 @ L2)" using h1(2) by (simp add: heap_inv_def)
  thus ?thesis using hd h1(1) by (simp add: heap_delayed_free_def)
qed

section \<open>Allocation\<close>

lemma alloc_walk_ok:
  "\<forall>c\<in>set fl. chunk_ok lim c \<Longrightarrow>
   alloc_walk sz fl = Some None \<and> (\<forall>c\<in>set fl. ch_len c < sz) \<or>
   (\<exists>pre c post. alloc_walk sz fl = Some (Some (pre, c, post)) \<and> fl = pre @ c # post \<and> sz \<le> ch_len c \<and>
      (\<forall>d\<in>set pre. ch_len d < sz))"
proof (induction fl)
  case (Cons c cs)
  have m: "unat (ch_len c) mod 8 = 0" using Cons.prems by (simp add: chunk_ok_def mod_eq_0_iff_dvd)
  show ?case
  proof (cases "sz \<le> ch_len c")
    case True
    thus ?thesis using m by auto
  next
    case False
    from Cons.IH Cons.prems consider "alloc_walk sz cs = Some None" "\<forall>c\<in>set cs. ch_len c < sz"
      | pre d post where "alloc_walk sz cs = Some (Some (pre, d, post))" "cs = pre @ d # post" "sz \<le> ch_len d"
        "\<forall>e\<in>set pre. ch_len e < sz" by auto
    thus ?thesis
    proof cases
      case 2
      hence "alloc_walk sz (c # cs) = Some (Some (c # pre, d, post)) \<and> c # cs = (c # pre) @ d # post \<and>
        sz \<le> ch_len d \<and> (\<forall>e\<in>set (c # pre). ch_len e < sz)" using False m by simp
      thus ?thesis by blast
    qed (use False m in simp)
  qed
qed simp

text \<open>
  The chunk an allocation carves out of the free chunk it found: the front part if the rest is
  big enough to be a chunk, else all of it.
\<close>

definition carve :: "u64 \<Rightarrow> free_heap_chunk \<Rightarrow> free_heap_chunk \<times> free_heap_chunk list" where
  "carve sz c = (if sz + 24 < ch_len c
     then (c\<lparr>ch_len := ch_len c - (ch_len c - sz)\<rparr>, [\<lparr>ch_base = ch_base c + sz, ch_len = ch_len c - sz\<rparr>])
     else (c, []))"

lemma carve_ok:
  assumes c: "chunk_ok lim c" "lim < 2 ^ 64" and sz: "sz \<le> ch_len c" "8 dvd unat sz" "24 \<le> unat sz" "unat sz < 2 ^ 64 - 2 ^ 32"
    and d: "carve sz c = (b, rest)"
  shows "chunk_ok lim b" "lo b = lo c" "sz \<le> ch_len b" "\<forall>r\<in>set rest. chunk_ok lim r" "space rest = ext c - ext b" "ext b \<subseteq> ext c"
    "\<forall>r\<in>set rest. lo c < lo r \<and> hi r = hi c" "length rest \<le> 1"
    "\<forall>r\<in>set rest. ch_base r = ch_base c + sz \<and> ch_len r = ch_len c - sz"
proof -
  have h: "hi c \<le> lim" using c(1) by (simp add: chunk_ok_def)
  have l: "unat sz \<le> unat (ch_len c)" using sz(1) by (simp add: word_le_nat_alt)
  have "unat (sz + 24) = unat sz + 24" using unat_add64[of sz 24] sz(4) by simp
  hence cond: "sz + 24 < ch_len c \<longleftrightarrow> unat sz + 24 < unat (ch_len c)" by (simp add: word_less_nat_alt)
  have "chunk_ok lim b \<and> lo b = lo c \<and> sz \<le> ch_len b \<and> (\<forall>r\<in>set rest. chunk_ok lim r) \<and> space rest = ext c - ext b \<and>
    ext b \<subseteq> ext c \<and> (\<forall>r\<in>set rest. lo c < lo r \<and> hi r = hi c) \<and> length rest \<le> 1 \<and>
    (\<forall>r\<in>set rest. ch_base r = ch_base c + sz \<and> ch_len r = ch_len c - sz)"
  proof (cases "sz + 24 < ch_len c")
    case False
    thus ?thesis using c sz d by (auto simp: carve_def)
  next
    case True
    let ?r = "\<lparr>ch_base = ch_base c + sz, ch_len = ch_len c - sz\<rparr>"
    have b: "b = c\<lparr>ch_len := sz\<rparr>" "rest = [?r]" using d True by (auto simp: carve_def)
    have r: "unat (ch_base ?r) = lo c + unat sz" "unat (ch_len ?r) = unat (ch_len c) - unat sz"
      using unat_add64[of "ch_base c" sz] h l c(2) sz(1) by (simp_all add: lo_def hi_def unat_sub)
    have e: "lo ?r = lo c + unat sz" "hi ?r = hi c" "lo b = lo c" "hi b = lo c + unat sz"
      using r l b by (simp_all add: lo_def hi_def)
    have "chunk_ok lim ?r" "chunk_ok lim b"
      using c(1) sz(2,3) e r h l True cond b hi_def[of c] lo_def[of c] by (auto simp: chunk_ok_def dvd_diff_nat)
    moreover have "ext ?r = ext c - ext b" "ext b \<subseteq> ext c" using e l by (auto simp: ext_def hi_def lo_def)
    ultimately show ?thesis using b e sz(3) by simp
  qed
  thus "chunk_ok lim b" "lo b = lo c" "sz \<le> ch_len b" "\<forall>r\<in>set rest. chunk_ok lim r" "space rest = ext c - ext b" "ext b \<subseteq> ext c"
    "\<forall>r\<in>set rest. lo c < lo r \<and> hi r = hi c" "length rest \<le> 1"
    "\<forall>r\<in>set rest. ch_base r = ch_base c + sz \<and> ch_len r = ch_len c - sz" by blast+
qed

lemma coalesced_carve:
  assumes "coalesced (pre @ c # post)" "\<forall>r\<in>set rest. lo c < lo r \<and> hi r = hi c" "length rest \<le> 1"
  shows "coalesced (pre @ rest @ post)"
proof (cases rest)
  case Nil
  thus ?thesis using assms(1) by (auto simp: coalesced_append coalesced_Cons)
next
  case (Cons r rs)
  hence "rest = [r]" using assms(3) by simp
  thus ?thesis using assms(1,2) by (fastforce simp: coalesced_append coalesced_Cons)
qed

text \<open>The headers after an allocation: those of the other blocks are as before.\<close>

definition alloc_headers :: "free_heap_chunk \<Rightarrow> u64 \<Rightarrow> u64 \<Rightarrow> free_heap_chunk \<Rightarrow> (u64 \<Rightarrow> (u64 \<times> u64) option) \<Rightarrow> u64 \<Rightarrow> (u64 \<times> u64) option" where
  "alloc_headers c sz p b m =
     (clobber (p - 24) (if sz + 24 < ch_len c then clobber (ch_base c + sz) m else m))(p \<mapsto> (ch_base b, ch_len b))"

lemma alloc_headers_ok:
  assumes L: "\<forall>q\<in>set L. header_ok m q" "ext c \<inter> space (map (block_of m) L) = {}"
    and sp: "sz + 24 < ch_len c \<Longrightarrow> lo c \<le> unat (ch_base c + sz) \<and> unat (ch_base c + sz) + 24 \<le> hi c"
    and p: "lo c + 24 \<le> unat p" "unat p \<le> hi c"
  shows "map (block_of (alloc_headers c sz p b m)) L = map (block_of m) L"
    "\<forall>q\<in>set L. header_ok (alloc_headers c sz p b m) q" "\<forall>q\<in>set L. alloc_headers c sz p b m q = m q"
proof -
  let ?m1 = "if sz + 24 < ch_len c then clobber (ch_base c + sz) m else m"
  have m1: "map (block_of ?m1) L = map (block_of m) L" "\<forall>q\<in>set L. header_ok ?m1 q" "\<forall>q\<in>set L. ?m1 q = m q"
    using clobber_all[OF L] sp L(1) by auto
  have p24: "unat (p - 24) = unat p - 24" using p(1) by (simp add: unat_sub word_le_nat_alt)
  have "lo c \<le> unat (p - 24)" "unat (p - 24) + 24 \<le> hi c" using p p24 by simp_all
  note m2 = clobber_all[OF m1(2) L(2)[folded m1(1)] this]
  have np: "p \<notin> set L"
  proof
    assume q: "p \<in> set L"
    hence h: "lo (block_of m p) + 24 \<le> unat p" "unat p \<le> hi (block_of m p)" using L(1) by (auto simp: header_ok_def)
    have "ext c \<inter> ext (block_of m p) = {}" using L(2) q by (auto simp: space_def)
    thus False using h p ext_disjoint[of c "block_of m p"] by linarith
  qed
  have e: "alloc_headers c sz p b m q = clobber (p - 24) ?m1 q" if "q \<in> set L" for q
    using np that by (auto simp: alloc_headers_def)
  hence b: "block_of (alloc_headers c sz p b m) q = block_of (clobber (p - 24) ?m1) q" if "q \<in> set L" for q
    using that by (simp add: block_of_def)
  show "\<forall>q\<in>set L. alloc_headers c sz p b m q = m q" using e m2(3) m1(3) by simp
  show "map (block_of (alloc_headers c sz p b m)) L = map (block_of m) L"
    using m2(1) m1(1) b by (simp cong: map_cong)
  show "\<forall>q\<in>set L. header_ok (alloc_headers c sz p b m) q"
    using m2(2) e b by (simp add: header_ok_def)
qed

lemma alloc_take_inv:
  assumes inv: "heap_inv lim M [] h L" and fl: "h_free_list h = pre @ c # post"
    and sz: "sz \<le> ch_len c" "8 dvd unat sz" "24 \<le> unat sz" "unat sz < 2 ^ 64 - 2 ^ 32"
    and d: "carve sz c = (b, rest)" and p: "lo b + 24 \<le> unat p" "unat p \<le> hi b"
    and h': "h' = h\<lparr>h_free_list := pre @ rest @ post, h_headers := alloc_headers c sz p b (h_headers h),
      h_remaining := r, h_low_watermark := (if r < h_low_watermark h then r else h_low_watermark h)\<rparr>"
    and r: "r = h_remaining h - ch_len b"
  shows "heap_inv lim M [] h' (p # L)" "block_of (h_headers h') p = b" "\<forall>q\<in>set L. h_headers h' q = h_headers h q"
proof -
  let ?m = "h_headers h" and ?m' = "h_headers h'"
  have i: "lim < 2 ^ 64" "chunk_ok lim c" "coalesced (pre @ c # post)" "ext c \<inter> space (used_chunks [] h L) = {}"
    using inv fl by (auto simp: heap_inv_def)
  note cv = carve_ok[OF i(2,1) sz d]
  have bc: "lo c + 24 \<le> unat p" "unat p \<le> hi c"
    using p cv(2,6) chunk_ok_lt[OF cv(1)] by (auto simp: ext_def)
  have L: "\<forall>q\<in>set L. header_ok ?m q" "ext c \<inter> space (map (block_of ?m) L) = {}"
    using inv i(4) by (auto simp: heap_inv_def used_chunks_def)
  have sp: "lo c \<le> unat (ch_base c + sz) \<and> unat (ch_base c + sz) + 24 \<le> hi c" if "sz + 24 < ch_len c"
  proof -
    have "rest = [\<lparr>ch_base = ch_base c + sz, ch_len = ch_len c - sz\<rparr>]" using d that by (auto simp: carve_def)
    thus ?thesis using cv(4,7) by (auto simp: chunk_ok_def lo_def hi_def)
  qed
  have hm: "?m' = alloc_headers c sz p b ?m" by (simp add: h')
  note ah = alloc_headers_ok[OF L sp bc, of b, folded hm]
  show "\<forall>q\<in>set L. ?m' q = ?m q" by (rule ah(3))
  show bp: "block_of ?m' p = b" by (simp add: hm alloc_headers_def block_of_def)
  have u: "used_chunks [] h' (p # L) = h_delayed_free_list h @ b # map (block_of ?m) L"
    using ah(1) bp by (simp add: used_chunks_def h')
  have f: "space (h_free_list h') = space (h_free_list h) - ext b"
  proof -
    have "ext c \<inter> (space pre \<union> space post) = {}"
      using i(3) by (fastforce simp: coalesced_append coalesced_Cons space_def ext_def)
    thus ?thesis using cv(5,6) by (auto simp: h' fl)
  qed
  have bf: "ext b \<subseteq> space (h_free_list h)" using cv(6) by (auto simp: fl)
  have rem: "unat (h_remaining h) = card (space (h_free_list h))" "h_low_watermark h \<le> h_remaining h"
    using inv by (auto simp: heap_inv_def)
  have "unat (ch_len b) \<le> unat (h_remaining h)" using card_mono[OF _ bf] rem(1) by simp
  hence "unat r = card (space (h_free_list h'))"
    using rem(1) f bf r by (simp add: unat_sub word_le_nat_alt card_Diff_subset)
  moreover have "coalesced (h_free_list h')" using coalesced_carve[OF i(3) cv(7,8)] by (simp add: h')
  moreover have "\<forall>x\<in>set (h_free_list h' @ used_chunks [] h' (p # L)). chunk_ok lim x"
    using inv cv(1,4) unfolding u by (auto simp: heap_inv_def fl h' used_chunks_def)
  moreover have "disjoint_chunks (used_chunks [] h' (p # L))"
    using inv i(4) cv(6) unfolding u by (auto simp: heap_inv_def used_chunks_def disjoint_chunks_append)
  moreover have "space (h_free_list h') \<inter> space (used_chunks [] h' (p # L)) = {}"
    "space (h_free_list h') \<union> space (used_chunks [] h' (p # L)) = M"
    using inv bf unfolding u f by (auto simp: heap_inv_def used_chunks_def)
  moreover have "header_ok ?m' p" using p bp by (simp add: header_ok_def hm alloc_headers_def)
  moreover have "h_low_watermark h' \<le> h_remaining h'" "h_remaining h' = r" by (simp_all add: h' not_less)
  ultimately show "heap_inv lim M [] h' (p # L)" using i(1) ah(2) by (simp add: heap_inv_def)
qed

lemma flush_inv:
  assumes "heap_inv lim M [] h L"
  shows "\<exists>h'. heap_flush h = Some h' \<and>
    heap_inv lim M [] h' L \<and> h_headers h' = h_headers h \<and> h_delayed_free_list h' = []"
  using heap_free_delayed_list_inv[OF assms] assms by (auto simp: heap_flush_def)

text \<open>
  \<open>fits\<close> says when a free list can serve a request; \<open>allocated\<close> what an allocation gives: a
  block of its own, with room for \<open>n\<close> bytes, aligned as asked for.
\<close>

definition fits :: "u64 \<Rightarrow> u32 \<Rightarrow> free_heap_chunk list \<Rightarrow> bool" where
  "fits n al fl \<longleftrightarrow> al AND (al - 1) = 0 \<and>
     (\<exists>c\<in>set fl. alloc_size n (if 0 < al \<and> al < 16 then 16 else al) \<le> ch_len c)"

definition allocated :: "u64 \<Rightarrow> u32 \<Rightarrow> u64 \<Rightarrow> heap \<Rightarrow> bool" where
  "allocated n al p h \<longleftrightarrow> p \<noteq> 0 \<and> (0 < al \<longrightarrow> unat al dvd unat p) \<and> 8 dvd unat p \<and>
     lo (block_of (h_headers h) p) + 24 \<le> unat p \<and> unat p + unat n \<le> hi (block_of (h_headers h) p)"

lemma block_start_8:
  assumes "align_ok al" "0 < al \<longrightarrow> unat al dvd unat p" "al = 0 \<longrightarrow> unat p = q + 24" "8 dvd q"
  shows "8 dvd unat p"
proof (cases "al = 0")
  case True
  thus ?thesis using assms(3,4) by (simp add: dvd_add)
next
  case False
  then obtain k where k: "4 \<le> k" "unat al = 2 ^ k" using assms(1) by (auto simp: align_ok_def)
  have "(2::nat) ^ 3 dvd 2 ^ k" using k(1) by (intro le_imp_power_dvd) simp
  hence "8 dvd unat al" using k(2) by simp
  thus ?thesis using assms(2) False dvd_trans by (auto simp: word_gt_0)
qed

lemma heap_alloc_null:
  assumes "heap_inv lim M [] h1 L" "heap_flush h = Some h1" "\<not> fits n al (h_free_list h1)"
  shows "heap_alloc n al h = Some (0, h1)"
proof (cases "al AND (al - 1) = 0")
  case True
  let ?sz = "alloc_size n (if 0 < al \<and> al < 16 then 16 else al)"
  have "\<forall>c\<in>set (h_free_list h1). chunk_ok lim c" using assms(1) by (simp add: heap_inv_def)
  moreover have "\<not> (\<exists>c\<in>set (h_free_list h1). ?sz \<le> ch_len c)" using assms(3) True by (simp add: fits_def)
  ultimately have "alloc_walk ?sz (h_free_list h1) = Some None" using alloc_walk_ok[of "h_free_list h1" lim ?sz] by auto
  thus ?thesis using assms(2) True by (simp add: heap_alloc_def Let_def)
qed (simp add: heap_alloc_def assms(2))

lemma heap_alloc_found:
  assumes "heap_flush h = Some h1" "al AND (al - 1) = 0" "al' = (if 0 < al \<and> al < 16 then 16 else al)"
    "sz = alloc_size n al'" "alloc_walk sz (h_free_list h1) = Some (Some (pre, c, post))"
    "carve sz c = (b, rest)" "sz \<le> ch_len b" "unat (ch_len c - sz) mod 8 = 0" "p = block_start (ch_base b) al'"
    "r = h_remaining h1 - ch_len b"
  shows "heap_alloc n al h = Some (p, h1\<lparr>h_free_list := pre @ rest @ post,
      h_headers := alloc_headers c sz p b (h_headers h1), h_remaining := r,
      h_low_watermark := (if r < h_low_watermark h1 then r else h_low_watermark h1)\<rparr>)"
proof (cases "sz + 24 < ch_len c")
  case True
  have "b = c\<lparr>ch_len := sz\<rparr>" "rest = [\<lparr>ch_base = ch_base c + sz, ch_len = ch_len c - sz\<rparr>]"
    using assms(6) True by (auto simp: carve_def)
  thus ?thesis using True assms(1,2,5,7,8,9,10) unfolding heap_alloc_def assms(3)[symmetric] assms(4)[symmetric]
    by (simp add: Let_def heap_create_free_chunk_def alloc_headers_def block_start_def assms(3,4)[symmetric])
next
  case False
  hence "b = c" "rest = []" using assms(6) by (auto simp: carve_def)
  thus ?thesis using False assms(1,2,5,7,8,9,10) unfolding heap_alloc_def
    by (simp add: Let_def alloc_headers_def block_start_def assms(3,4)[symmetric])
qed

lemma heap_alloc_inv:
  assumes inv: "heap_inv lim M [] h L" and n: "unat n < 2 ^ 63" and al: "al = 0 \<or> lim \<le> 2 ^ 32"
  shows "\<exists>h1. heap_flush h = Some h1 \<and> heap_inv lim M [] h1 L \<and> h_headers h1 = h_headers h \<and>
    (if fits n al (h_free_list h1)
     then \<exists>p h'. heap_alloc n al h = Some (p, h') \<and> allocated n al p h' \<and> heap_inv lim M [] h' (p # L) \<and>
       (\<forall>q\<in>set L. h_headers h' q = h_headers h q)
     else heap_alloc n al h = Some (0, h1))"
proof -
  obtain h1 where h1: "heap_flush h = Some h1" "heap_inv lim M [] h1 L" "h_headers h1 = h_headers h"
    using flush_inv[OF inv] by blast
  have "\<exists>p h'. heap_alloc n al h = Some (p, h') \<and> allocated n al p h' \<and> heap_inv lim M [] h' (p # L) \<and>
      (\<forall>q\<in>set L. h_headers h' q = h_headers h1 q)"
    if f: "fits n al (h_free_list h1)"
  proof -
    define al' where "al' = (if 0 < al \<and> al < 16 then 16 else al)"
    define sz where "sz = alloc_size n al'"
    have p2: "al AND (al - 1) = 0" using f by (simp add: fits_def)
    have ok: "align_ok al'" unfolding al'_def by (rule align_adjusted[OF p2])
    note sz = alloc_size_eq[OF n ok, folded sz_def]
    have i: "lim < 2 ^ 64" "\<forall>c\<in>set (h_free_list h1). chunk_ok lim c" using h1(2) by (auto simp: heap_inv_def)
    obtain pre c post where w: "alloc_walk sz (h_free_list h1) = Some (Some (pre, c, post))"
      "h_free_list h1 = pre @ c # post" "sz \<le> ch_len c"
      using alloc_walk_ok[OF i(2), of sz] f by (fastforce simp: fits_def sz_def al'_def not_le[symmetric])
    have c: "chunk_ok lim c" using i(2) w(2) by simp
    obtain b rest where d: "carve sz c = (b, rest)" by fastforce
    have s24: "24 \<le> unat sz" using sz(3) by simp
    note cv = carve_ok[OF c i(1) w(3) sz(2) s24 sz(4) d]
    define p where "p = block_start (ch_base b) al'"
    have l: "unat sz \<le> unat (ch_len b)" "hi b \<le> lim" using cv(1,3) by (auto simp: word_le_nat_alt chunk_ok_def)
    have room: "unat (ch_base b) + 24 + unat al' \<le> lim" using l sz(3) by (simp add: hi_def)
    have lim: "al' = 0 \<or> lim \<le> 2 ^ 32" using al by (auto simp: al'_def)
    note bs = block_start_bounds[OF ok room i(1) lim, folded p_def]
    have p: "lo b + 24 \<le> unat p" "unat p + unat n \<le> hi b" using bs(1,2) l sz(3) by (simp_all add: lo_def hi_def)
    have "unat al dvd unat p" if "0 < al"
      using align_dvd[OF p2 that, folded al'_def] bs(3) dvd_trans by blast
    moreover have "8 dvd unat p"
    proof (rule block_start_8[OF ok])
      show "0 < al' \<longrightarrow> unat al' dvd unat p" using bs(3) by blast
      show "al' = 0 \<longrightarrow> unat p = lo b + 24" using bs(1,2) by (auto simp: lo_def)
      show "8 dvd lo b" using cv(1) by (simp add: chunk_ok_def)
    qed
    moreover have "p \<noteq> 0" using p(1) by auto
    ultimately have al: "p \<noteq> 0 \<and> (0 < al \<longrightarrow> unat al dvd unat p) \<and> 8 dvd unat p \<and> lo b + 24 \<le> unat p \<and> unat p + unat n \<le> hi b"
      using p by blast
    have "unat (ch_len c - sz) mod 8 = 0"
      using c sz(2) w(3) by (simp add: unat_sub chunk_ok_def mod_eq_0_iff_dvd dvd_diff_nat)
    note t = heap_alloc_found[OF h1(1) p2 al'_def sz_def w(1) d cv(3) this p_def refl]
    have "unat p \<le> hi b" using p(2) by simp
    note inv' = alloc_take_inv[OF h1(2) w(2,3) sz(2) s24 sz(4) d p(1) this refl refl]
    from al have "allocated n al p h'" if "block_of (h_headers h') p = b" for h' using that by (simp add: allocated_def)
    from this[OF inv'(2)] t inv'(1) inv'(3) show ?thesis by blast
  qed
  thus ?thesis using h1 heap_alloc_null[OF h1(2,1)] by auto
qed

section \<open>Giving memory to the heap, statistics\<close>

lemma add_chunk_inv:
  assumes inv: "heap_inv lim M [] h L" and c: "chunk_ok lim c" "ext c \<inter> M = {}"
  shows "\<exists>h'. heap_add_block (ch_base c) (ch_len c) h = Some h' \<and> heap_inv lim (M \<union> ext c) [] h' L"
proof -
  let ?m = "clobber (ch_base c) (h_headers h)" and ?h = "h\<lparr>h_headers := clobber (ch_base c) (h_headers h)\<rparr>"
  have L: "\<forall>q\<in>set L. header_ok (h_headers h) q" "ext c \<inter> space (map (block_of (h_headers h)) L) = {}"
    using inv c(2) by (auto simp: heap_inv_def used_chunks_def)
  have w: "lo c \<le> unat (ch_base c)" "unat (ch_base c) + 24 \<le> hi c" using c(1) by (auto simp: chunk_ok_def lo_def hi_def)
  note cl = clobber_all[OF L w]
  have "used_chunks [c] ?h L = c # used_chunks [] h L" using cl(1) by (simp add: used_chunks_def)
  hence "heap_inv lim (M \<union> ext c) [c] ?h L" using inv c cl(2) by (auto simp: heap_inv_def)
  from heap_insert_inv[OF this] obtain c' h' where
    h': "heap_insert_free_chunk c ?h = Some (c', h')" "heap_inv lim (M \<union> ext c) [] h' L" by blast
  moreover have "heap_create_free_chunk (ch_base c) (ch_len c) h = Some (c, ?h)"
    using c(1) by (simp add: heap_create_free_chunk_def chunk_ok_def mod_eq_0_iff_dvd)
  ultimately show ?thesis by (simp add: heap_add_block_def)
qed

lemma heap_init_inv:
  assumes c: "chunk_ok lim c" "lim < 2 ^ 64"
  shows "\<exists>h. heap_init (ch_base c) (ch_len c) = Some h \<and> heap_inv lim (ext c) [] h []"
proof -
  let ?h = "\<lparr>h_base = ch_base c, h_len = ch_len c, h_remaining = 0, h_low_watermark = ch_len c, h_free_list = [],
    h_delayed_free_list = [], h_headers = clobber (ch_base c) (\<lambda>_. None)\<rparr>"
  have "heap_insert_free_chunk c ?h = Some (c, ?h\<lparr>h_remaining := ch_len c, h_free_list := [c]\<rparr>)"
    by (simp add: heap_insert_free_chunk_def merge_prev_def merge_next_def)
  moreover have "heap_inv lim (ext c) [] (?h\<lparr>h_remaining := ch_len c, h_free_list := [c]\<rparr>) []"
    using c by (simp add: heap_inv_def used_chunks_def coalesced_Cons)
  moreover have "unat (ch_len c) mod 8 = 0" using c(1) by (simp add: chunk_ok_def mod_eq_0_iff_dvd)
  hence "heap_create_free_chunk (ch_base c) (ch_len c) (?h\<lparr>h_headers := \<lambda>_. None\<rparr>) = Some (c, ?h)"
    by (simp add: heap_create_free_chunk_def)
  ultimately show ?thesis by (simp add: heap_init_def)
qed

lemma stats_walk_ok:
  assumes "unat (st_heap_free st) + sum_list (map (\<lambda>c. unat (ch_len c)) fl) < 2 ^ 64"
  shows "unat (st_heap_free (stats_walk fl st)) = unat (st_heap_free st) + sum_list (map (\<lambda>c. unat (ch_len c)) fl) \<and>
    st_heap_max_chunk (stats_walk fl st) = fold max (map ch_len fl) (st_heap_max_chunk st)"
  using assms
proof (induction fl arbitrary: st)
  case (Cons c cs)
  let ?st = "st\<lparr>st_heap_free := st_heap_free st + ch_len c,
       st_heap_max_chunk := (if st_heap_max_chunk st < ch_len c then ch_len c else st_heap_max_chunk st)\<rparr>"
  have "unat (st_heap_free st) + unat (ch_len c) < 2 ^ 64" using Cons.prems by simp
  hence "unat (st_heap_free ?st) = unat (st_heap_free st) + unat (ch_len c)" using unat_add64 by simp
  moreover have "st_heap_max_chunk ?st = max (ch_len c) (st_heap_max_chunk st)" by (auto simp: max_def)
  ultimately show ?case using Cons.IH[of ?st] Cons.prems by simp
qed simp

lemma heap_get_stats_inv:
  assumes inv: "heap_inv lim M [] h L"
  shows "\<exists>st h'. heap_get_stats h = Some (st, h') \<and> heap_inv lim M [] h' L \<and>
    unat (st_heap_free st) = card (space (h_free_list h')) \<and> st_heap_free st = h_remaining h' \<and>
    st_heap_max_chunk st = fold max (map ch_len (h_free_list h')) 0"
proof -
  obtain h1 where h1: "heap_flush h = Some h1" "heap_inv lim M [] h1 L" using flush_inv[OF inv] by blast
  let ?st = "\<lparr>st_heap_start = h_base h1, st_heap_len = h_len h1, st_heap_free = 0, st_heap_max_chunk = 0,
        st_heap_low_watermark = 0\<rparr>"
  have s: "sum_list (map (\<lambda>c. unat (ch_len c)) (h_free_list h1)) = card (space (h_free_list h1))"
    using h1(2) by (intro sum_free) (simp add: heap_inv_def)
  have r: "unat (h_remaining h1) = card (space (h_free_list h1))" using h1(2) by (simp add: heap_inv_def)
  hence "card (space (h_free_list h1)) < 2 ^ 64" using unsigned_less[of "h_remaining h1", where 'a = nat] by simp
  with stats_walk_ok[of ?st "h_free_list h1"] s
  have "unat (st_heap_free (stats_walk (h_free_list h1) ?st)) = card (space (h_free_list h1))"
    "st_heap_max_chunk (stats_walk (h_free_list h1) ?st) = fold max (map ch_len (h_free_list h1)) 0" by simp_all
  moreover from this(1) r have "st_heap_free (stats_walk (h_free_list h1) ?st) = h_remaining h1"
    by (simp add: word_unat_eq_iff)
  ultimately show ?thesis using h1 by (simp add: heap_get_stats_def Let_def)
qed

section \<open>The allocator as an interface\<close>

text \<open>
  What a client relies on: an allocation either fails or adds a block to the live ones, freeing a
  live block takes it out, neither changes the other blocks, and live blocks do not overlap.
\<close>

locale allocator =
  fixes inv :: "'h \<Rightarrow> 'p list \<Rightarrow> bool" and bytes :: "'h \<Rightarrow> 'p \<Rightarrow> nat set" and null :: 'p and valid :: "'n \<Rightarrow> bool"
    and alloc :: "'n \<Rightarrow> 'h \<Rightarrow> ('p \<times> 'h) option" and free :: "'p \<Rightarrow> 'h \<Rightarrow> 'h option"
  assumes live_disjoint: "inv h (p # L) \<Longrightarrow> q \<in> set L \<Longrightarrow> bytes h p \<inter> bytes h q = {}"
    and alloc_inv: "inv h L \<Longrightarrow> valid n \<Longrightarrow>
      \<exists>p h'. alloc n h = Some (p, h') \<and> inv h' (if p = null then L else p # L) \<and> (\<forall>q\<in>set L. bytes h' q = bytes h q)"
    and free_inv: "inv h (p # L) \<Longrightarrow> \<exists>h'. free p h = Some h' \<and> inv h' L \<and> (\<forall>q\<in>set L. bytes h' q = bytes h q)"
begin

primrec alloc_all :: "'n list \<Rightarrow> 'h \<Rightarrow> ('p list \<times> 'h) option" where
  "alloc_all [] h = Some ([], h)"
| "alloc_all (n # ns) h = alloc_all ns h \<bind> (\<lambda>r. alloc n (snd r) \<bind> (\<lambda>s.
     Some (if fst s = null then fst r else fst s # fst r, snd s)))"

primrec free_all :: "'p list \<Rightarrow> 'h \<Rightarrow> 'h option" where
  "free_all [] h = Some h"
| "free_all (p # ps) h = free p h \<bind> free_all ps"

lemma alloc_all_inv:
  assumes "inv h []" "\<forall>n\<in>set ns. valid n"
  shows "\<exists>L h'. alloc_all ns h = Some (L, h') \<and> inv h' L"
  using assms(2)
proof (induction ns)
  case Nil
  thus ?case using assms(1) by simp
next
  case (Cons n ns)
  then obtain L h1 where "alloc_all ns h = Some (L, h1)" "inv h1 L" by auto
  moreover from this(2) obtain p h2 where "alloc n h1 = Some (p, h2)" "inv h2 (if p = null then L else p # L)"
    using alloc_inv[of h1 L n] Cons.prems by auto
  ultimately show ?case by (auto split: if_splits)
qed

lemma free_all_inv: "inv h L \<Longrightarrow> \<exists>h'. free_all L h = Some h' \<and> inv h' []"
proof (induction L arbitrary: h)
  case (Cons p L)
  from free_inv[OF Cons.prems] obtain h1 where "free p h = Some h1" "inv h1 L" by blast
  with Cons.IH show ?case by simp
qed simp

lemma alloc_free_all:
  assumes "inv h []" "\<forall>n\<in>set ns. valid n"
  shows "\<exists>L h' h''. alloc_all ns h = Some (L, h') \<and> free_all L h' = Some h'' \<and> inv h'' []"
  using alloc_all_inv[OF assms] free_all_inv by fastforce

end

lemma heap_inv_blocks:
  assumes "heap_inv lim M [] h (p # L)" "q \<in> set L"
  shows "ext (block_of (h_headers h) p) \<inter> ext (block_of (h_headers h) q) = {}"
  using assms by (fastforce simp: heap_inv_def used_chunks_def disjoint_chunks_append space_def)

interpretation ha: allocator "heap_inv lim M []" "\<lambda>h p. ext (block_of (h_headers h) p)" "0 :: u64"
    "\<lambda>n. unat n < 2 ^ 63" "\<lambda>n. heap_alloc n 0" heap_free for lim M
proof (unfold_locales, goal_cases)
  case (1 h p L q)
  thus ?case by (rule heap_inv_blocks)
next
  case (2 h L n)
  from heap_alloc_inv[OF this, of 0] obtain h1 where h1: "heap_inv lim M [] h1 L" "h_headers h1 = h_headers h"
    "if fits n 0 (h_free_list h1)
     then \<exists>p h'. heap_alloc n 0 h = Some (p, h') \<and> allocated n 0 p h' \<and> heap_inv lim M [] h' (p # L) \<and>
       (\<forall>q\<in>set L. h_headers h' q = h_headers h q)
     else heap_alloc n 0 h = Some (0, h1)" by blast
  show ?case
  proof (cases "fits n 0 (h_free_list h1)")
    case True
    with h1(3) obtain p h' where "heap_alloc n 0 h = Some (p, h')" "p \<noteq> 0" "heap_inv lim M [] h' (p # L)"
      "\<forall>q\<in>set L. h_headers h' q = h_headers h q" by (auto simp: allocated_def)
    thus ?thesis by (simp add: block_of_def)
  qed (use h1 in simp)
next
  case (3 h p L)
  from heap_free_inv[of lim M h "[]" p L] this show ?case by (auto simp: block_of_def)
qed

section \<open>Histories\<close>

datatype heap_call = Alloc u64 u32 | Free u64 | Delayed_free u64 | Add_block u64 u64 | Get_stats

text \<open>A call on the heap and the list of the blocks its clients hold.\<close>

fun heap_perform :: "heap_call \<Rightarrow> heap \<times> u64 list \<Rightarrow> (heap \<times> u64 list) option" where
  "heap_perform (Alloc n al) (h, L) = do { (p, h) \<leftarrow> heap_alloc n al h; Some (h, if p = 0 then L else p # L) }"
| "heap_perform (Free p) (h, L) = do { h \<leftarrow> heap_free p h; Some (h, remove1 p L) }"
| "heap_perform (Delayed_free p) (h, L) = do { h \<leftarrow> heap_delayed_free p h; Some (h, remove1 p L) }"
| "heap_perform (Add_block a n) (h, L) = do { h \<leftarrow> heap_add_block a n h; Some (h, L) }"
| "heap_perform Get_stats (h, L) = do { (_, h) \<leftarrow> heap_get_stats h; Some (h, L) }"

text \<open>
  Clients free what they hold, once, and add memory the heap does not have. Sizes stay below
  \<open>2 ^ 63\<close>, and aligned requests are made of a heap below 4 GiB.
\<close>

fun heap_allowed :: "nat \<Rightarrow> nat set \<Rightarrow> heap_call \<Rightarrow> u64 list \<Rightarrow> bool" where
  "heap_allowed lim M (Alloc n al) L = (unat n < 2 ^ 63 \<and> (al = 0 \<or> lim \<le> 2 ^ 32))"
| "heap_allowed lim M (Free p) L = (p = 0 \<or> p \<in> set L)"
| "heap_allowed lim M (Delayed_free p) L = (p \<in> set L)"
| "heap_allowed lim M (Add_block a n) L =
     (chunk_ok lim \<lparr>ch_base = a, ch_len = n\<rparr> \<and> ext \<lparr>ch_base = a, ch_len = n\<rparr> \<inter> M = {})"
| "heap_allowed lim M Get_stats L = True"

fun heap_memory :: "heap_call \<Rightarrow> nat set \<Rightarrow> nat set" where
  "heap_memory (Add_block a n) M = M \<union> ext \<lparr>ch_base = a, ch_len = n\<rparr>"
| "heap_memory _ M = M"

inductive heap_reach :: "nat \<Rightarrow> nat set \<Rightarrow> heap \<Rightarrow> u64 list \<Rightarrow> bool" for lim where
  start: "chunk_ok lim \<lparr>ch_base = a, ch_len = n\<rparr> \<Longrightarrow> lim < 2 ^ 64 \<Longrightarrow> heap_init a n = Some h \<Longrightarrow>
    heap_reach lim (ext \<lparr>ch_base = a, ch_len = n\<rparr>) h []"
| call: "heap_reach lim M h L \<Longrightarrow> heap_allowed lim M k L \<Longrightarrow> heap_perform k (h, L) = Some (h', L') \<Longrightarrow>
    heap_reach lim (heap_memory k M) h' L'"

lemma header_nonzero: "heap_inv lim M [] h L \<Longrightarrow> 0 \<notin> set L"
  by (auto simp: heap_inv_def header_ok_def)

lemma heap_perform_inv:
  assumes inv: "heap_inv lim M [] h L" and al: "heap_allowed lim M k L"
  shows "\<exists>h' L'. heap_perform k (h, L) = Some (h', L') \<and> heap_inv lim (heap_memory k M) [] h' L'"
proof (cases k)
  case (Alloc n a)
  hence "unat n < 2 ^ 63" "a = 0 \<or> lim \<le> 2 ^ 32" using al by simp_all
  from heap_alloc_inv[OF inv this] show ?thesis using Alloc by (fastforce simp: allocated_def split: if_splits)
next
  case (Free p)
  show ?thesis
  proof (cases "p = 0")
    case True
    thus ?thesis using Free inv header_nonzero[OF inv] by (simp add: heap_free_def remove1_idem)
  next
    case False
    then obtain L1 L2 where L: "L = L1 @ p # L2" "p \<notin> set L1" using al Free by (auto dest: split_list_first)
    show ?thesis using heap_free_inv[OF inv[unfolded L(1)]] L Free by (auto simp: remove1_append)
  qed
next
  case (Delayed_free p)
  then obtain L1 L2 where L: "L = L1 @ p # L2" "p \<notin> set L1" using al by (auto dest: split_list_first)
  show ?thesis using heap_delayed_free_inv[OF inv[unfolded L(1)]] L Delayed_free by (auto simp: remove1_append)
next
  case (Add_block a n)
  show ?thesis using add_chunk_inv[OF inv, of "\<lparr>ch_base = a, ch_len = n\<rparr>"] al Add_block by auto
next
  case Get_stats
  show ?thesis using heap_get_stats_inv[OF inv] Get_stats by auto
qed

lemma heap_reach_inv: "heap_reach lim M h L \<Longrightarrow> heap_inv lim M [] h L"
proof (induction rule: heap_reach.induct)
  case (start a n h)
  from heap_init_inv[OF start(1,2)] start(3) show ?case by auto
next
  case (call M h L k h' L')
  from heap_perform_inv[OF call.IH call.hyps(2)] call.hyps(3) show ?case by auto
qed

lemma coalesced_interval:
  assumes "coalesced fl" "\<forall>c\<in>set fl. chunk_ok lim c" "space fl = {a..<b}" "a < b"
  shows "\<exists>c. fl = [c] \<and> lo c = a \<and> hi c = b"
proof -
  obtain c ds where fl: "fl = c # ds" using assms(3,4) by (cases fl) auto
  have c: "lo c < hi c" using assms(2) fl chunk_ok_lt by auto
  have "ds = []"
  proof (rule ccontr)
    assume "ds \<noteq> []"
    then obtain d where d: "d \<in> set ds" by (cases ds) auto
    have "hi c < lo d" "lo d < hi d" using assms(1,2) fl d chunk_ok_lt by (auto simp: coalesced_Cons)
    moreover have "lo c \<in> space fl" "lo d \<in> space fl" using c calculation fl d by (auto simp: space_iff ext_def)
    ultimately have "hi c \<in> space fl" using assms(3) c by auto
    then obtain e where "e \<in> set fl" "hi c \<in> ext e" by (auto simp: space_iff)
    thus False using assms(1) fl by (auto simp: coalesced_Cons ext_def)
  qed
  hence "{lo c..<hi c} = {a..<b}" using assms(3) fl by (simp add: ext_def)
  thus ?thesis using fl \<open>ds = []\<close> c assms(4) by (simp add: atLeastLessThan_eq_iff)
qed

section \<open>Properties\<close>

text \<open>
  C9: The allocator is safe in every history. Whatever sequence of allocations, frees, delayed
  frees, added blocks and statistics calls came before, the next call of a client that frees only
  what it holds fails no assertion and reestablishes the invariant: the free list is sorted and no
  two free chunks touch, free chunks, delayed chunks and the blocks of the live allocations are
  pairwise disjoint and together are exactly the memory given to the heap, every live block has its
  header, \<^verbatim>\<open>remaining\<close> is the number of free bytes and \<^verbatim>\<open>low_watermark\<close> does not exceed it.
\<close>

theorem heap_histories_safe:
  assumes "heap_reach lim M h L" "heap_allowed lim M k L"
  shows "\<exists>h' L'. heap_perform k (h, L) = Some (h', L') \<and> heap_inv lim (heap_memory k M) [] h' L'"
  by (rule heap_perform_inv[OF heap_reach_inv[OF assms(1)] assms(2)])

text \<open>A heap of one page at address 4096, to try the properties on.\<close>

definition page :: free_heap_chunk where
  "page = \<lparr>ch_base = 4096, ch_len = 4096\<rparr>"

lemma page_ok: "chunk_ok (2 ^ 32) page" "ext page = {4096..<8192}"
  by (auto simp: page_def chunk_ok_def ext_def lo_def hi_def)

lemma page_heap: "\<exists>h. heap_init 4096 4096 = Some h \<and> heap_reach (2 ^ 32) {4096..<8192} h []"
  using heap_init_inv[OF page_ok(1)] heap_reach.start[OF page_ok(1)[unfolded page_def]] page_ok(2)
  by (auto simp: page_def)

theorem heap_histories_safe_witness:
  "\<exists>h h' L'. heap_init 4096 4096 = Some h \<and> heap_perform (Alloc 100 64) (h, []) = Some (h', L') \<and>
     heap_inv (2 ^ 32) {4096..<8192} [] h' L'"
proof -
  obtain h where "heap_init 4096 4096 = Some h" "heap_reach (2 ^ 32) {4096..<8192} h []" using page_heap by blast
  moreover from heap_histories_safe[OF this(2), of "Alloc 100 64"]
  have "\<exists>h' L'. heap_perform (Alloc 100 64) (h, []) = Some (h', L') \<and> heap_inv (2 ^ 32) {4096..<8192} [] h' L'" by simp
  ultimately show ?thesis by blast
qed



text \<open>
  C11: Nothing is lost to fragmentation. When every allocation has been freed, directly or delayed,
  and the heap was given one contiguous piece of memory, then once the pending frees are dealt with
  the free list is a single chunk that covers all of it.
\<close>

theorem heap_recovers:
  assumes "heap_reach lim {a..<b} h []" "a < b"
  shows "\<exists>c h'. heap_flush h = Some h' \<and> h_free_list h' = [c] \<and> lo c = a \<and> hi c = b"
proof -
  obtain h' where h': "heap_flush h = Some h'" "heap_inv lim {a..<b} [] h' []" "h_delayed_free_list h' = []"
    using flush_inv[OF heap_reach_inv[OF assms(1)]] by blast
  have "used_chunks [] h' [] = []" using h'(3) by (simp add: used_chunks_def)
  hence "coalesced (h_free_list h')" "\<forall>c\<in>set (h_free_list h'). chunk_ok lim c" "space (h_free_list h') = {a..<b}"
    using h'(2) by (auto simp: heap_inv_def)
  from coalesced_interval[OF this assms(2)] show ?thesis using h'(1) by blast
qed

theorem heap_recovers_witness:
  "\<exists>h c h'. heap_init 4096 4096 = Some h \<and> heap_flush h = Some h' \<and> h_free_list h' = [c] \<and> lo c = 4096 \<and> hi c = 8192"
  using page_heap heap_recovers[of "2 ^ 32" 4096 8192] by fastforce




end
