(* ===== verification/LK_Bio.thy ===== *)
theory LK_Bio
  imports LK_Prelude
begin

text \<open>
  Block devices (\<^verbatim>\<open>lib/bio\<close>): the registry and the range checks (\<^verbatim>\<open>bio.c\<close>), memory devices
  (\<^verbatim>\<open>mem.c\<close>) and subdevices (\<^verbatim>\<open>subdev.c\<close>).

  A device is a number; \<open>bio_devs\<close> maps it to its \<^verbatim>\<open>bdev_t\<close>, and \<open>bdevs\<close> is the list of the
  registered ones. The function pointers of a device are those of its driver: \<open>Plain\<close> has the
  hooks \<^verbatim>\<open>bio_initialize_bdev\<close> installs, \<open>Mem\<close> those of \<^verbatim>\<open>mem.c\<close> with the memory it covers, and
  \<open>Subdev\<close> those of \<^verbatim>\<open>subdev.c\<close> with the parent and the offset. Operations that read take the
  destination buffer and a position in it and return the buffer; operations that write take the
  source buffer and a position. A status is an \<open>int\<close>; \<open>None\<close> is an assertion failure, a panic or a
  copy outside a buffer. The fields for timing statistics and \<^verbatim>\<open>ioctl\<close>, which \<^verbatim>\<open>bio_initialize_bdev\<close>
  leaves uninitialised, are not modelled.
\<close>

section \<open>State\<close>

datatype driver = Plain | Mem "u8 list" | Subdev nat u32

record bdev =
  bd_ref :: int
  bd_name :: string
  bd_size :: u64
  bd_block_size :: u64
  bd_block_count :: u32
  bd_driver :: driver

record bio =
  bdevs :: "nat list"
  bio_devs :: "nat \<Rightarrow> bdev option"
  bio_next :: nat

definition BLOCKSIZE :: nat where
  "BLOCKSIZE = 512"

section \<open>Reading\<close>

text \<open>
  The deblocking read, in its three parts. The loop state is the buffer, the position in it, the
  block, the length left and the bytes read so far; a part returns it with \<^verbatim>\<open>err\<close>. \<open>temp\<close> is the
  stack buffer with whatever it holds.
\<close>

definition default_read_first where
  "default_read_first rb bs temp offset = (\<lambda>(buf, at, block, len, n).
     if offset mod bs \<noteq> 0
     then do {
       (err, temp) \<leftarrow> rb temp 0 block 1;
       if err < 0 then Some (err, buf, at, block, len, n)
       else do {
         let block_offset = offset mod bs;
         let tocopy = min (bs - block_offset) len;
         d \<leftarrow> memcpy_from temp (unat block_offset) (unat tocopy);
         buf \<leftarrow> memcpy_to buf at d;
         Some (err, buf, at + unat tocopy, block + 1, len - tocopy, n + unat tocopy)
       }
     }
     else Some (0, buf, at, block, len, n))"

definition default_read_middle where
  "default_read_middle rb bs = (\<lambda>(buf, at, block, len, n).
     if bs \<le> len
     then do {
       let block_count = len div bs;
       (err, buf) \<leftarrow> rb buf at block (ucast block_count);
       if err < 0 then Some (err, buf, at, block, len, n)
       else do {
         let bytes = block_count * bs;
         ASSERT (bytes \<le> len);
         Some (err, buf, at + unat bytes, block + ucast block_count, len - bytes, n + unat bytes)
       }
     }
     else Some (0, buf, at, block, len, n))"

definition default_read_last where
  "default_read_last rb temp = (\<lambda>(buf, at, block, len, n).
     if 0 < len
     then do {
       (err, temp) \<leftarrow> rb temp 0 block 1;
       if err < 0 then Some (err, buf, at, block, len, n)
       else do {
         d \<leftarrow> memcpy_from temp 0 (unat len);
         buf \<leftarrow> memcpy_to buf at d;
         Some (err, buf, at, block, len, n + unat len)
       }
     }
     else Some (0, buf, at, block, len, n))"

definition bio_default_read ::
  "(u8 list \<Rightarrow> nat \<Rightarrow> u32 \<Rightarrow> u32 \<Rightarrow> (int \<times> u8 list) option) \<Rightarrow> u64 \<Rightarrow> u8 list \<Rightarrow>
   u8 list \<Rightarrow> nat \<Rightarrow> u64 \<Rightarrow> u64 \<Rightarrow> (int \<times> u8 list) option" where
  "bio_default_read rb bs temp buf at offset len = do {
     (err, st) \<leftarrow> default_read_first rb bs temp offset (buf, at, ucast (offset div bs), len, 0);
     if err < 0 then Some (err, fst st)
     else do {
       (err, st) \<leftarrow> default_read_middle rb bs st;
       if err < 0 then Some (err, fst st)
       else do {
         (err, (buf, at, block, len, n)) \<leftarrow> default_read_last rb temp st;
         Some (if 0 \<le> err then int n else err, buf)
       }
     }
   }"

definition bio_default_read_block :: "u8 list \<Rightarrow> nat \<Rightarrow> u32 \<Rightarrow> u32 \<Rightarrow> (int \<times> u8 list) option" where
  "bio_default_read_block buf at block count = None"

definition mem_bdev_read :: "u8 list \<Rightarrow> u8 list \<Rightarrow> nat \<Rightarrow> u64 \<Rightarrow> u64 \<Rightarrow> (int \<times> u8 list) option" where
  "mem_bdev_read ptr buf at offset len = do {
     d \<leftarrow> memcpy_from ptr (unat offset) (unat len);
     buf \<leftarrow> memcpy_to buf at d;
     Some (sint len, buf)
   }"

text \<open>\<^verbatim>\<open>block * BLOCKSIZE\<close> and \<^verbatim>\<open>count * BLOCKSIZE\<close> are 32-bit products.\<close>

definition mem_bdev_read_block :: "u8 list \<Rightarrow> u8 list \<Rightarrow> nat \<Rightarrow> u32 \<Rightarrow> u32 \<Rightarrow> (int \<times> u8 list) option" where
  "mem_bdev_read_block ptr buf at block count = do {
     d \<leftarrow> memcpy_from ptr (unat (block * 512)) (unat (count * 512));
     buf \<leftarrow> memcpy_to buf at d;
     Some (int (unat (count * 512)), buf)
   }"

text \<open>The subdevice hooks, given the operation of the parent.\<close>

definition subdev_read :: "(u64 \<Rightarrow> u64 \<Rightarrow> 'a option) \<Rightarrow> u32 \<Rightarrow> u64 \<Rightarrow> u64 \<Rightarrow> u64 \<Rightarrow> 'a option" where
  "subdev_read rd suboffset bs offset len = rd (offset + ucast suboffset * bs) len"

definition subdev_read_block :: "(u32 \<Rightarrow> u32 \<Rightarrow> 'a option) \<Rightarrow> u32 \<Rightarrow> u32 \<Rightarrow> u32 \<Rightarrow> 'a option" where
  "subdev_read_block rd suboffset block count = rd (block + suboffset) count"

lemma subdev_mono [partial_function_mono]:
  "(\<And>off len. mono_option (\<lambda>f. rd f off len)) \<Longrightarrow> mono_option (\<lambda>f. subdev_read (rd f) start bs offset len)"
  "(\<And>block count. mono_option (\<lambda>f. rb f block count)) \<Longrightarrow> mono_option (\<lambda>f. subdev_read_block (rb f) start block' count')"
  by (simp_all add: subdev_read_def subdev_read_block_def)

partial_function (option) bio_read_block ::
  "nat \<Rightarrow> u8 list \<Rightarrow> nat \<Rightarrow> u32 \<Rightarrow> u32 \<Rightarrow> bio \<Rightarrow> (int \<times> u8 list) option" where
  "bio_read_block dev buf at block count s = do {
     d \<leftarrow> bio_devs s dev;
     ASSERT (0 < bd_ref d);
     if bd_block_count d < block then Some (0, buf)
     else if count = 0 then Some (0, buf)
     else do {
       let count = (if bd_block_count d < block + count then bd_block_count d - block else count);
       (case bd_driver d of
          Plain \<Rightarrow> bio_default_read_block buf at block count
        | Mem ptr \<Rightarrow> mem_bdev_read_block ptr buf at block count
        | Subdev parent start \<Rightarrow> subdev_read_block (\<lambda>block count. bio_read_block parent buf at block count s) start block count)
     }
   }"

partial_function (option) bio_read ::
  "nat \<Rightarrow> u8 list \<Rightarrow> nat \<Rightarrow> u64 \<Rightarrow> u64 \<Rightarrow> bio \<Rightarrow> (int \<times> u8 list) option" where
  "bio_read dev buf at offset len s = do {
     d \<leftarrow> bio_devs s dev;
     ASSERT (0 < bd_ref d);
     if sint offset < 0 then Some (-1, buf)
     else if bd_size d \<le> offset then Some (0, buf)
     else if len = 0 then Some (0, buf)
     else do {
       let len = (if bd_size d < offset + len then bd_size d - offset else len);
       (case bd_driver d of
          Plain \<Rightarrow> bio_default_read (\<lambda>buf at block count. bio_read_block dev buf at block count s) (bd_block_size d)
            (replicate (unat (bd_block_size d)) 0) buf at offset len
        | Mem ptr \<Rightarrow> mem_bdev_read ptr buf at offset len
        | Subdev parent start \<Rightarrow>
            subdev_read (\<lambda>offset len. bio_read parent buf at offset len s) start (bd_block_size d) offset len)
     }
   }"

section \<open>Writing\<close>

text \<open>The deblocking write: partial blocks are read, patched and written back.\<close>

definition default_write_first where
  "default_write_first rb wb bs temp src offset = (\<lambda>(at, block, len, n, s).
     if offset mod bs \<noteq> 0
     then do {
       (err, temp) \<leftarrow> rb temp 0 block 1 s;
       if err < 0 then Some (err, at, block, len, n, s)
       else do {
         let block_offset = offset mod bs;
         let tocopy = min (bs - block_offset) len;
         d \<leftarrow> memcpy_from src at (unat tocopy);
         temp \<leftarrow> memcpy_to temp (unat block_offset) d;
         (err, s) \<leftarrow> wb temp 0 block 1 s;
         if err < 0 then Some (err, at, block, len, n, s)
         else Some (err, at + unat tocopy, block + 1, len - tocopy, n + unat tocopy, s)
       }
     }
     else Some (0, at, block, len, n, s))"

definition default_write_middle where
  "default_write_middle wb bs src = (\<lambda>(at, block, len, n, s).
     if bs \<le> len
     then do {
       let block_count = len div bs;
       (err, s) \<leftarrow> wb src at block (ucast block_count) s;
       if err < 0 then Some (err, at, block, len, n, s)
       else do {
         let bytes = block_count * bs;
         ASSERT (bytes \<le> len);
         Some (err, at + unat bytes, block + ucast block_count, len - bytes, n + unat bytes, s)
       }
     }
     else Some (0, at, block, len, n, s))"

definition default_write_last where
  "default_write_last rb wb temp src = (\<lambda>(at, block, len, n, s).
     if 0 < len
     then do {
       (err, temp) \<leftarrow> rb temp 0 block 1 s;
       if err < 0 then Some (err, at, block, len, n, s)
       else do {
         d \<leftarrow> memcpy_from src at (unat len);
         temp \<leftarrow> memcpy_to temp 0 d;
         (err, s) \<leftarrow> wb temp 0 block 1 s;
         if err < 0 then Some (err, at, block, len, n, s)
         else Some (err, at, block, len, n + unat len, s)
       }
     }
     else Some (0, at, block, len, n, s))"

definition bio_default_write ::
  "(u8 list \<Rightarrow> nat \<Rightarrow> u32 \<Rightarrow> u32 \<Rightarrow> 's \<Rightarrow> (int \<times> u8 list) option) \<Rightarrow>
   (u8 list \<Rightarrow> nat \<Rightarrow> u32 \<Rightarrow> u32 \<Rightarrow> 's \<Rightarrow> (int \<times> 's) option) \<Rightarrow> u64 \<Rightarrow> u8 list \<Rightarrow>
   u8 list \<Rightarrow> nat \<Rightarrow> u64 \<Rightarrow> u64 \<Rightarrow> 's \<Rightarrow> (int \<times> 's) option" where
  "bio_default_write rb wb bs temp src at offset len s = do {
     (err, st) \<leftarrow> default_write_first rb wb bs temp src offset (at, ucast (offset div bs), len, 0, s);
     if err < 0 then Some (err, snd (snd (snd (snd st))))
     else do {
       (err, st) \<leftarrow> default_write_middle wb bs src st;
       if err < 0 then Some (err, snd (snd (snd (snd st))))
       else do {
         (err, (at, block, len, n, s)) \<leftarrow> default_write_last rb wb temp src st;
         Some (if 0 \<le> err then int n else err, s)
       }
     }
   }"

definition bio_default_write_block :: "u8 list \<Rightarrow> nat \<Rightarrow> u32 \<Rightarrow> u32 \<Rightarrow> bio \<Rightarrow> (int \<times> bio) option" where
  "bio_default_write_block src at block count s = None"

definition set_driver :: "nat \<Rightarrow> driver \<Rightarrow> bio \<Rightarrow> bio" where
  "set_driver dev drv s = s\<lparr>bio_devs := (bio_devs s)(dev := map_option (bd_driver_update (\<lambda>_. drv)) (bio_devs s dev))\<rparr>"

definition mem_bdev_write :: "nat \<Rightarrow> u8 list \<Rightarrow> u8 list \<Rightarrow> nat \<Rightarrow> u64 \<Rightarrow> u64 \<Rightarrow> bio \<Rightarrow> (int \<times> bio) option" where
  "mem_bdev_write dev ptr src at offset len s = do {
     d \<leftarrow> memcpy_from src at (unat len);
     ptr \<leftarrow> memcpy_to ptr (unat offset) d;
     Some (sint len, set_driver dev (Mem ptr) s)
   }"

definition mem_bdev_write_block :: "nat \<Rightarrow> u8 list \<Rightarrow> u8 list \<Rightarrow> nat \<Rightarrow> u32 \<Rightarrow> u32 \<Rightarrow> bio \<Rightarrow> (int \<times> bio) option" where
  "mem_bdev_write_block dev ptr src at block count s = do {
     d \<leftarrow> memcpy_from src at (unat (count * 512));
     ptr \<leftarrow> memcpy_to ptr (unat (block * 512)) d;
     Some (int (unat (count * 512)), set_driver dev (Mem ptr) s)
   }"

definition subdev_write :: "(u64 \<Rightarrow> u64 \<Rightarrow> 'a option) \<Rightarrow> u32 \<Rightarrow> u64 \<Rightarrow> u64 \<Rightarrow> u64 \<Rightarrow> 'a option" where
  "subdev_write wr suboffset bs offset len = wr (offset + ucast suboffset * bs) len"

definition subdev_write_block :: "(u32 \<Rightarrow> u32 \<Rightarrow> 'a option) \<Rightarrow> u32 \<Rightarrow> u32 \<Rightarrow> u32 \<Rightarrow> 'a option" where
  "subdev_write_block wr suboffset block count = wr (block + suboffset) count"

definition subdev_erase :: "(u64 \<Rightarrow> u64 \<Rightarrow> 'a option) \<Rightarrow> u32 \<Rightarrow> u64 \<Rightarrow> u64 \<Rightarrow> u64 \<Rightarrow> 'a option" where
  "subdev_erase er suboffset bs offset len = er (offset + ucast suboffset * bs) len"

lemma subdev_write_mono [partial_function_mono]:
  "(\<And>off len. mono_option (\<lambda>f. wr f off len)) \<Longrightarrow> mono_option (\<lambda>f. subdev_write (wr f) start bs offset len)"
  "(\<And>block count. mono_option (\<lambda>f. wb f block count)) \<Longrightarrow> mono_option (\<lambda>f. subdev_write_block (wb f) start block' count')"
  "(\<And>off len. mono_option (\<lambda>f. er f off len)) \<Longrightarrow> mono_option (\<lambda>f. subdev_erase (er f) start bs offset len)"
  by (simp_all add: subdev_write_def subdev_write_block_def subdev_erase_def)

partial_function (option) bio_write_block ::
  "nat \<Rightarrow> u8 list \<Rightarrow> nat \<Rightarrow> u32 \<Rightarrow> u32 \<Rightarrow> bio \<Rightarrow> (int \<times> bio) option" where
  "bio_write_block dev src at block count s = do {
     d \<leftarrow> bio_devs s dev;
     ASSERT (0 < bd_ref d);
     if bd_block_count d < block then Some (0, s)
     else if count = 0 then Some (0, s)
     else do {
       let count = (if bd_block_count d < block + count then bd_block_count d - block else count);
       (case bd_driver d of
          Plain \<Rightarrow> bio_default_write_block src at block count s
        | Mem ptr \<Rightarrow> mem_bdev_write_block dev ptr src at block count s
        | Subdev parent start \<Rightarrow> subdev_write_block (\<lambda>block count. bio_write_block parent src at block count s) start block count)
     }
   }"

partial_function (option) bio_write ::
  "nat \<Rightarrow> u8 list \<Rightarrow> nat \<Rightarrow> u64 \<Rightarrow> u64 \<Rightarrow> bio \<Rightarrow> (int \<times> bio) option" where
  "bio_write dev src at offset len s = do {
     d \<leftarrow> bio_devs s dev;
     ASSERT (0 < bd_ref d);
     if sint offset < 0 then Some (-1, s)
     else if bd_size d \<le> offset then Some (0, s)
     else if len = 0 then Some (0, s)
     else do {
       let len = (if bd_size d < offset + len then bd_size d - offset else len);
       (case bd_driver d of
          Plain \<Rightarrow> bio_default_write (bio_read_block dev) (bio_write_block dev) (bd_block_size d)
            (replicate (unat (bd_block_size d)) 0) src at offset len s
        | Mem ptr \<Rightarrow> mem_bdev_write dev ptr src at offset len s
        | Subdev parent start \<Rightarrow>
            subdev_write (\<lambda>offset len. bio_write parent src at offset len s) start (bd_block_size d) offset len)
     }
   }"

text \<open>
  The default erase writes zeros, at most \<^verbatim>\<open>ERASE_BUF_SIZE\<close> bytes at a time. Progress is made in
  every pass that does not return, so the loop ends; \<open>wr\<close> is \<^verbatim>\<open>bio_write\<close> on the device.
\<close>

definition ERASE_BUF_SIZE :: u64 where
  "ERASE_BUF_SIZE = 4096"

partial_function (option) default_erase_loop ::
  "(u64 \<Rightarrow> u64 \<Rightarrow> 's \<Rightarrow> (int \<times> 's) option) \<Rightarrow> u64 \<Rightarrow> u64 \<Rightarrow> u64 \<Rightarrow> 's \<Rightarrow> (int \<times> 's) option" where
  "default_erase_loop wr total_len pos remaining s =
     (if 0 < remaining
      then do {
        let towrite = min remaining ERASE_BUF_SIZE;
        (written, s) \<leftarrow> wr pos towrite s;
        if written < 0 then Some (sint pos, s)
        else do {
          let pos = pos + word_of_int written;
          let remaining = remaining - word_of_int written;
          if written < sint towrite then Some (sint pos, s)
          else default_erase_loop wr total_len pos remaining s
        }
      }
      else Some (sint total_len, s))"

definition bio_default_erase :: "nat \<Rightarrow> u64 \<Rightarrow> u64 \<Rightarrow> bio \<Rightarrow> (int \<times> bio) option" where
  "bio_default_erase dev offset len s =
     default_erase_loop (bio_write dev (replicate (unat ERASE_BUF_SIZE) 0) 0) len offset len s"

partial_function (option) bio_erase :: "nat \<Rightarrow> u64 \<Rightarrow> u64 \<Rightarrow> bio \<Rightarrow> (int \<times> bio) option" where
  "bio_erase dev offset len s = do {
     d \<leftarrow> bio_devs s dev;
     ASSERT (0 < bd_ref d);
     if sint offset < 0 then Some (-1, s)
     else if bd_size d \<le> offset then Some (0, s)
     else if len = 0 then Some (0, s)
     else do {
       let len = (if bd_size d < offset + len then bd_size d - offset else len);
       (case bd_driver d of
          Plain \<Rightarrow> bio_default_erase dev offset len s
        | Mem ptr \<Rightarrow> bio_default_erase dev offset len s
        | Subdev parent start \<Rightarrow>
            subdev_erase (\<lambda>offset len. bio_erase parent offset len s) start (bd_block_size d) offset len)
     }
   }"

section \<open>The registry\<close>

definition set_ref :: "nat \<Rightarrow> int \<Rightarrow> bio \<Rightarrow> bio" where
  "set_ref dev r s = s\<lparr>bio_devs := (bio_devs s)(dev := map_option (bd_ref_update (\<lambda>_. r)) (bio_devs s dev))\<rparr>"

definition bdev_inc_ref :: "nat \<Rightarrow> bio \<Rightarrow> bio option" where
  "bdev_inc_ref dev s = do { d \<leftarrow> bio_devs s dev; Some (set_ref dev (bd_ref d + 1) s) }"

text \<open>
  Dropping the last reference closes the device, which for a subdevice drops its reference to the
  parent (\<^verbatim>\<open>subdev_close\<close>), and frees it.
\<close>

partial_function (option) bdev_dec_ref :: "nat \<Rightarrow> bio \<Rightarrow> bio option" where
  "bdev_dec_ref dev s = do {
     d \<leftarrow> bio_devs s dev;
     let s = set_ref dev (bd_ref d - 1) s;
     if bd_ref d = 1
     then do {
       ASSERT (dev \<notin> set (bdevs s));
       s \<leftarrow> (case bd_driver d of Subdev parent start \<Rightarrow> bdev_dec_ref parent s | Plain \<Rightarrow> Some s | Mem ptr \<Rightarrow> Some s);
       Some (s\<lparr>bio_devs := (bio_devs s)(dev := None)\<rparr>)
     }
     else Some s
   }"

fun open_walk :: "string \<Rightarrow> nat list \<Rightarrow> bio \<Rightarrow> nat option option" where
  "open_walk name [] s = Some None"
| "open_walk name (entry # es) s = do {
     d \<leftarrow> bio_devs s entry;
     ASSERT (0 < bd_ref d);
     if bd_name d = name then Some (Some entry) else open_walk name es s
   }"

definition bio_open :: "string \<Rightarrow> bio \<Rightarrow> (nat option \<times> bio) option" where
  "bio_open name s = do {
     found \<leftarrow> open_walk name (bdevs s) s;
     (case found of
        None \<Rightarrow> Some (None, s)
      | Some dev \<Rightarrow> do { s \<leftarrow> bdev_inc_ref dev s; Some (Some dev, s) })
   }"

definition bio_close :: "nat \<Rightarrow> bio \<Rightarrow> bio option" where
  "bio_close dev s = bdev_dec_ref dev s"

definition bio_initialize_bdev :: "string \<Rightarrow> u64 \<Rightarrow> u32 \<Rightarrow> bdev option" where
  "bio_initialize_bdev name bs count = do {
     ASSERT (bs = 512);
     Some \<lparr>bd_ref = 0, bd_name = name, bd_size = ucast count * bs, bd_block_size = bs, bd_block_count = count,
           bd_driver = Plain\<rparr>
   }"

definition bio_register_device :: "nat \<Rightarrow> bio \<Rightarrow> bio option" where
  "bio_register_device dev s = do { s \<leftarrow> bdev_inc_ref dev s; Some (s\<lparr>bdevs := dev # bdevs s\<rparr>) }"

definition bio_unregister_device :: "nat \<Rightarrow> bio \<Rightarrow> bio option" where
  "bio_unregister_device dev s = bdev_dec_ref dev (s\<lparr>bdevs := remove1 dev (bdevs s)\<rparr>)"

text \<open>The memory for a new \<^verbatim>\<open>bdev_t\<close>; \<^verbatim>\<open>malloc\<close> is taken to succeed, as the code does.\<close>

definition new_device :: "bdev \<Rightarrow> bio \<Rightarrow> nat \<times> bio" where
  "new_device d s = (bio_next s, s\<lparr>bio_devs := (bio_devs s)(bio_next s \<mapsto> d), bio_next := Suc (bio_next s)\<rparr>)"

definition create_membdev :: "string \<Rightarrow> u8 list \<Rightarrow> u64 \<Rightarrow> bio \<Rightarrow> (int \<times> bio) option" where
  "create_membdev name ptr len s = do {
     d \<leftarrow> bio_initialize_bdev name (of_nat BLOCKSIZE) (ucast (len div of_nat BLOCKSIZE));
     let (dev, s) = new_device (d\<lparr>bd_driver := Mem ptr\<rparr>) s;
     s \<leftarrow> bio_register_device dev s;
     Some (0, s)
   }"

definition bio_publish_subdevice :: "string \<Rightarrow> string \<Rightarrow> u32 \<Rightarrow> u64 \<Rightarrow> bio \<Rightarrow> (int \<times> bio) option" where
  "bio_publish_subdevice parent_dev subdev startblock len s = do {
     (parent, s) \<leftarrow> bio_open parent_dev s;
     (case parent of
        None \<Rightarrow> Some (-1, s)
      | Some parent \<Rightarrow> do {
          p \<leftarrow> bio_devs s parent;
          if ucast (bd_block_count p) < ucast startblock + len then Some (-1, s)
          else do {
            d \<leftarrow> bio_initialize_bdev subdev (bd_block_size p) (ucast len);
            let (dev, s) = new_device (d\<lparr>bd_driver := Subdev parent startblock\<rparr>) s;
            s \<leftarrow> bio_register_device dev s;
            Some (0, s)
          }
        })
   }"

definition bio_init :: bio where
  "bio_init = \<lparr>bdevs = [], bio_devs = (\<lambda>_. None), bio_next = 0\<rparr>"

section \<open>Deblocking\<close>

text \<open>
  A storage is a part \<open>data s\<close> of the state that \<open>upd x s\<close> replaces by \<open>x\<close>. The default hooks rely on
  one that can be read and written in whole blocks.
\<close>

locale storage =
  fixes ok :: "'s \<Rightarrow> bool" and data :: "'s \<Rightarrow> u8 list" and upd :: "u8 list \<Rightarrow> 's \<Rightarrow> 's"
  assumes ok_upd: "ok s \<Longrightarrow> length x = length (data s) \<Longrightarrow> ok (upd x s) \<and> data (upd x s) = x"
    and upd_data: "ok s \<Longrightarrow> upd (data s) s = s"
    and upd_upd: "ok s \<Longrightarrow> length x = length (data s) \<Longrightarrow> length y = length (data s) \<Longrightarrow> upd y (upd x s) = upd y s"
    and data_small: "ok s \<Longrightarrow> length (data s) < 2 ^ 63"

locale block_device = storage ok data upd
  for ok :: "'s \<Rightarrow> bool" and data :: "'s \<Rightarrow> u8 list" and upd :: "u8 list \<Rightarrow> 's \<Rightarrow> 's" +
  fixes bs :: u64 and rb :: "u8 list \<Rightarrow> nat \<Rightarrow> u32 \<Rightarrow> u32 \<Rightarrow> 's \<Rightarrow> (int \<times> u8 list) option"
    and wb :: "u8 list \<Rightarrow> nat \<Rightarrow> u32 \<Rightarrow> u32 \<Rightarrow> 's \<Rightarrow> (int \<times> 's) option"
  assumes bs_pos: "0 < bs"
    and data_blocks: "ok s \<Longrightarrow> unat bs dvd length (data s) \<and> length (data s) < 2 ^ 32 * unat bs"
    and read_blocks: "ok s \<Longrightarrow> 0 < count \<Longrightarrow> (unat block + unat count) * unat bs \<le> length (data s) \<Longrightarrow>
      at + unat count * unat bs \<le> length buf \<Longrightarrow>
      \<exists>r \<ge> 0. rb buf at block count s =
        Some (r, overwrite buf at (take (unat count * unat bs) (drop (unat block * unat bs) (data s))))"
    and write_blocks: "ok s \<Longrightarrow> 0 < count \<Longrightarrow> (unat block + unat count) * unat bs \<le> length (data s) \<Longrightarrow>
      at + unat count * unat bs \<le> length src \<Longrightarrow>
      \<exists>r \<ge> 0. wb src at block count s =
        Some (r, upd (overwrite (data s) (unat block * unat bs) (take (unat count * unat bs) (drop at src))) s)"
begin

lemma block_fits:
  assumes "ok s" "j * unat bs < length (data s)"
  shows "(j + 1) * unat bs \<le> length (data s)"
proof -
  obtain m where m: "length (data s) = unat bs * m" using data_blocks[OF assms(1)] by blast
  hence "j < m" using assms(2) by (simp add: mult.commute)
  hence "(j + 1) * unat bs \<le> m * unat bs" by (intro mult_le_mono1) simp
  thus ?thesis using m by (simp add: mult.commute)
qed

lemma block_lt:
  assumes "ok s" "unat off < length (data s)"
  shows "unat (ucast (off div bs) :: u32) = unat off div unat bs" "(unat off div unat bs + 1) * unat bs \<le> length (data s)"
proof -
  have b: "0 < unat bs" using bs_pos by (simp add: word_less_nat_alt)
  have d: "unat bs dvd length (data s)" "length (data s) < 2 ^ 32 * unat bs" using data_blocks[OF assms(1)] by auto
  have "unat off div unat bs < 2 ^ 32" using assms(2) d(2) b by (simp add: div_less_iff_less_mult)
  thus "unat (ucast (off div bs) :: u32) = unat off div unat bs"
    by (simp add: unsigned_ucast_eq take_bit_nat_eq_self unat_div)
  have "unat off div unat bs * unat bs < length (data s)" using assms(2) by (meson div_times_less_eq_dividend order_le_less_trans)
  thus "(unat off div unat bs + 1) * unat bs \<le> length (data s)" by (rule block_fits[OF assms(1)])
qed

text \<open>The state of the transfer after \<open>k\<close> of the \<open>len\<close> bytes at \<open>off\<close>.\<close>

definition progress :: "'s \<Rightarrow> u8 list \<Rightarrow> nat \<Rightarrow> nat \<Rightarrow> nat \<Rightarrow> nat \<Rightarrow> u8 list \<times> nat \<times> u32 \<times> u64 \<times> nat \<Rightarrow> bool" where
  "progress s buf at off len k = (\<lambda>(buf', at', block, left, n). k \<le> len \<and>
     buf' = overwrite buf at (take k (drop off (data s))) \<and> at' = at + k \<and> unat left = len - k \<and> n = k \<and>
     (k < len \<longrightarrow> off + k = unat block * unat bs))"

lemma first_ok:
  assumes ok: "ok s" and r: "unat off + unat len \<le> length (data s)" "0 < len" "at + unat len \<le> length buf" and t: "length temp = unat bs"
  shows "\<exists>err st k. default_read_first (\<lambda>buf at b c. rb buf at b c s) bs temp off (buf, at, ucast (off div bs), len, 0) = Some (err, st) \<and>
    0 \<le> err \<and> progress s buf at (unat off) (unat len) k st"
proof -
  have l: "0 < unat len" using r(2) by (simp add: word_less_nat_alt)
  hence lt: "unat off < length (data s)" using r(1) by simp
  note b = block_lt[OF ok lt]
  have bs: "0 < unat bs" using bs_pos by (simp add: word_less_nat_alt)
  show ?thesis
  proof (cases "off mod bs = 0")
    case True
    hence "unat off mod unat bs = 0" by (metis unat_mod unsigned_0)
    hence "unat off div unat bs * unat bs = unat off" by (metis add.right_neutral mod_mult_div_eq mult.commute div_mult_mod_eq)
    hence "progress s buf at (unat off) (unat len) 0 (buf, at, ucast (off div bs), len, 0)"
      by (simp add: progress_def b(1))
    thus ?thesis using True by (auto simp: default_read_first_def)
  next
    case False
    let ?m = "unat off mod unat bs" and ?q = "unat off div unat bs"
    let ?t = "min (unat bs - ?m) (unat len)" and ?T = "min (bs - off mod bs) len"
    have m: "unat (off mod bs) = ?m" "?m < unat bs" using bs by (simp_all add: unat_mod)
    have "unat (bs - off mod bs) = unat bs - ?m" using m by (simp add: unat_sub word_le_nat_alt)
    hence T: "unat ?T = ?t" by (simp add: min_def word_le_nat_alt)
    obtain e where e: "0 \<le> e" "rb temp 0 (ucast (off div bs)) 1 s =
        Some (e, overwrite temp 0 (take (unat bs) (drop (?q * unat bs) (data s))))"
      using read_blocks[OF ok, of 1 "ucast (off div bs)" 0 temp] b t by auto
    let ?B = "take (unat bs) (drop (?q * unat bs) (data s))"
    have lB: "length ?B = unat bs" using b(2) by simp
    have sB: "overwrite temp 0 ?B = ?B" using lB t by (simp add: overwrite_def)
    have o: "?q * unat bs + ?m = unat off" by simp
    have "take ?t (drop ?m ?B) = take ?t (drop (unat off) (data s))"
      using m(2) o by (simp add: drop_take min_def add.commute)
    hence d: "memcpy_from ?B ?m ?t = Some (take ?t (drop (unat off) (data s)))"
      using lB m(2) by (simp add: memcpy_from_def)
    have lt: "length (take ?t (drop (unat off) (data s))) = ?t" using r(1) by simp
    have c: "memcpy_to buf at (take ?t (drop (unat off) (data s))) = Some (overwrite buf at (take ?t (drop (unat off) (data s))))"
      using lt r(3) by (intro memcpy_to_overwrite) simp
    let ?st = "(overwrite buf at (take ?t (drop (unat off) (data s))), at + ?t, ucast (off div bs) + 1, len - ?T, ?t)"
    have "default_read_first (\<lambda>buf at b c. rb buf at b c s) bs temp off (buf, at, ucast (off div bs), len, 0) = Some (e, ?st)"
      using False e d c m(1) T by (simp add: default_read_first_def sB Let_def)
    moreover have "progress s buf at (unat off) (unat len) ?t ?st"
    proof -
      have "unat off + ?t = unat (ucast (off div bs) + 1 :: u32) * unat bs" if "?t < unat len"
      proof -
        have k: "?t = unat bs - ?m" "unat bs - ?m < unat len" using that by (auto simp: min_def split: if_splits)
        have "(?q + 1) * unat bs = ?q * unat bs + unat bs" by simp
        hence n: "unat off + ?t = (?q + 1) * unat bs" using k(1) o m(2) by linarith
        have "unat off + ?t < 2 ^ 32 * unat bs" using k r(1) data_blocks[OF ok] by linarith
        hence "?q + 1 < 2 ^ 32" unfolding n using bs by simp
        hence "unat (ucast (off div bs) + 1 :: u32) = ?q + 1" using unat_add_lt[of "ucast (off div bs) :: u32" 1] b(1) by simp
        thus ?thesis using n by simp
      qed
      moreover have "unat (len - ?T) = unat len - ?t" using T by (simp add: unat_sub)
      ultimately show ?thesis by (simp add: progress_def)
    qed
    ultimately show ?thesis using e(1) by blast
  qed
qed

lemma take_more: "k + m \<le> length D \<Longrightarrow> a + (k + m) \<le> length buf \<Longrightarrow>
    overwrite (overwrite buf a (take k D)) (a + k) (take m (drop k D)) = overwrite buf a (take (k + m) D)"
  using overwrite_append[of a "take k D" "take m (drop k D)" buf] by (simp add: take_add)

lemma middle_ok:
  assumes ok: "ok s" and r: "unat off + unat len \<le> length (data s)" "at + unat len \<le> length buf"
    and p: "progress s buf at (unat off) (unat len) k st"
  shows "\<exists>err st' k'. default_read_middle (\<lambda>buf at b c. rb buf at b c s) bs st = Some (err, st') \<and> 0 \<le> err \<and>
    progress s buf at (unat off) (unat len) k' st' \<and> unat len - k' < unat bs"
proof -
  obtain buf' at' block left n where st: "st = (buf', at', block, left, n)" by (cases st) auto
  have p: "k \<le> unat len" "buf' = overwrite buf at (take k (drop (unat off) (data s)))" "at' = at + k" "unat left = unat len - k"
    "n = k" "k < unat len \<longrightarrow> unat off + k = unat block * unat bs"
    using p by (auto simp: progress_def st)
  have bs: "0 < unat bs" using bs_pos by (simp add: word_less_nat_alt)
  show ?thesis
  proof (cases "bs \<le> left")
    case False
    hence "default_read_middle (\<lambda>buf at b c. rb buf at b c s) bs st = Some (0, st)" by (simp add: default_read_middle_def st)
    moreover have "unat len - k < unat bs" using False p(4) by (simp add: word_le_nat_alt)
    ultimately show ?thesis using \<open>progress s buf at (unat off) (unat len) k st\<close> by blast
  next
    case True
    hence le: "unat bs \<le> unat left" by (simp add: word_le_nat_alt)
    let ?D = "drop (unat off) (data s)"
    define c where "c = unat left div unat bs"
    define m where "m = c * unat bs"
    have m: "m \<le> unat left" "unat left - m < unat bs" "0 < c"
      using bs le by (simp_all add: m_def c_def minus_div_mult_eq_mod div_greater_zero_iff)
    have al: "unat off + k = unat block * unat bs" using p(4,6) le bs by simp
    have "m < 2 ^ 32 * unat bs" using m(1) p(4) r(1) data_blocks[OF ok] by linarith
    hence c32: "c < 2 ^ 32" using bs by (simp add: m_def)
    have cu: "unat (left div bs) = c" "unat (ucast (left div bs) :: u32) = c"
      using c32 by (simp_all add: c_def unat_div unsigned_ucast_eq take_bit_nat_eq_self)
    have bt: "unat (left div bs * bs) = m"
      using unat_mult_lt[of "left div bs" bs] order_le_less_trans[OF m(1) unsigned_less] cu(1) by (simp add: m_def)
    have lb: "length buf' = length buf" using p(1,2) r by simp
    have rg: "(unat block + c) * unat bs \<le> length (data s)" "at' + m \<le> length buf'"
      using al m(1) p(1,3,4) r lb by (simp_all add: distrib_right m_def)
    obtain e where e: "0 \<le> e" "rb buf' at' block (ucast (left div bs)) s =
        Some (e, overwrite buf' at' (take m (drop (unat block * unat bs) (data s))))"
      using read_blocks[OF ok, of "ucast (left div bs)" block at' buf'] rg m(3) cu(2) by (auto simp: word_less_nat_alt m_def)
    have "drop (unat block * unat bs) (data s) = drop k ?D" by (simp add: al[symmetric] add.commute)
    hence ov: "overwrite buf' at' (take m (drop (unat block * unat bs) (data s))) = overwrite buf at (take (k + m) ?D)"
      using take_more[of k m ?D at buf] p(1-4) m(1) r by simp
    let ?st = "(overwrite buf at (take (k + m) ?D), at' + m, block + ucast (left div bs), left - left div bs * bs, k + m)"
    have "default_read_middle (\<lambda>buf at b c. rb buf at b c s) bs st = Some (e, ?st)"
      using True e bt m(1) p(5) ov by (simp add: default_read_middle_def st Let_def word_le_nat_alt)
    moreover have "progress s buf at (unat off) (unat len) (k + m) ?st"
    proof -
      have "unat off + (k + m) = unat (block + ucast (left div bs)) * unat bs" if "k + m < unat len"
      proof -
        have n: "unat off + (k + m) = (unat block + c) * unat bs" using al by (simp add: distrib_right m_def)
        have "unat off + (k + m) < 2 ^ 32 * unat bs" using that r(1) data_blocks[OF ok] by simp
        hence "unat block + c < 2 ^ 32" unfolding n using bs by simp
        thus ?thesis using n unat_add_lt[of block "ucast (left div bs)"] cu(2) by simp
      qed
      moreover have "unat (left - left div bs * bs) = unat left - m" using bt m(1) by (simp add: unat_sub word_le_nat_alt)
      ultimately show ?thesis using p m(1) by (simp add: progress_def)
    qed
    moreover have "unat len - (k + m) < unat bs" using m(2) p(4) by simp
    ultimately show ?thesis using e(1) by blast
  qed
qed

lemma last_ok:
  assumes ok: "ok s" and r: "unat off + unat len \<le> length (data s)" "at + unat len \<le> length buf" and t: "length temp = unat bs"
    and pr: "progress s buf at (unat off) (unat len) k st" and lt: "unat len - k < unat bs"
  shows "\<exists>err st'. default_read_last (\<lambda>buf at b c. rb buf at b c s) temp st = Some (err, st') \<and> 0 \<le> err \<and>
    fst st' = overwrite buf at (take (unat len) (drop (unat off) (data s))) \<and> snd (snd (snd (snd st'))) = unat len"
proof -
  obtain buf' at' block left n where st: "st = (buf', at', block, left, n)" by (cases st) auto
  let ?D = "drop (unat off) (data s)"
  have p: "k \<le> unat len" "buf' = overwrite buf at (take k ?D)" "at' = at + k" "unat left = unat len - k"
    "n = k" "k < unat len \<longrightarrow> unat off + k = unat block * unat bs"
    using pr by (auto simp: progress_def st)
  show ?thesis
  proof (cases "left = 0")
    case True
    hence "k = unat len" using p(1,4) by simp
    thus ?thesis using True p by (simp add: default_read_last_def st)
  next
    case False
    hence l: "0 < unat left" "k < unat len" using p(4) by (simp_all add: unat_gt_0[symmetric])
    have al: "unat off + k = unat block * unat bs" using p(6) l by simp
    have "(unat block + 1) * unat bs \<le> length (data s)" using block_fits[OF ok, of "unat block"] al r(1) l by simp
    then obtain e where e: "0 \<le> e" "rb temp 0 block 1 s = Some (e, overwrite temp 0 (take (unat bs) (drop k ?D)))"
      using read_blocks[OF ok, of 1 block 0 temp] t al by (auto simp: add.commute)
    let ?B = "take (unat bs) (drop k ?D)"
    have lB: "length ?B = unat bs" using \<open>(unat block + 1) * unat bs \<le> _\<close> al by simp
    hence B: "overwrite temp 0 ?B = ?B" using t by (simp add: overwrite_def)
    have d: "memcpy_from ?B 0 (unat left) = Some (take (unat left) (drop k ?D))"
      using lB lt p(4) by (simp add: memcpy_from_def min_def)
    have lb: "length buf' = length buf" using p(1,2) r by simp
    have "memcpy_to buf' at' (take (unat left) (drop k ?D)) = Some (overwrite buf' at' (take (unat left) (drop k ?D)))"
      using lb p(1,3,4) r by (intro memcpy_to_overwrite) simp
    moreover have "overwrite buf' at' (take (unat left) (drop k ?D)) = overwrite buf at (take (unat len) ?D)"
      using take_more[of k "unat left" ?D at buf] p(1-4) r by simp
    ultimately have "default_read_last (\<lambda>buf at b c. rb buf at b c s) temp st =
        Some (e, overwrite buf at (take (unat len) ?D), at', block, left, unat len)"
      using False e d B p by (simp add: default_read_last_def st word_gt_0)
    thus ?thesis using e(1) by simp
  qed
qed

lemma default_read_ok:
  assumes ok: "ok s" and r: "unat off + unat len \<le> length (data s)" "0 < len" "at + unat len \<le> length buf" and t: "length temp = unat bs"
  shows "bio_default_read (\<lambda>buf at b c. rb buf at b c s) bs temp buf at off len =
    Some (int (unat len), overwrite buf at (take (unat len) (drop (unat off) (data s))))"
proof -
  obtain e1 s1 k1 where 1: "default_read_first (\<lambda>buf at b c. rb buf at b c s) bs temp off (buf, at, ucast (off div bs), len, 0) = Some (e1, s1)"
    "0 \<le> e1" "progress s buf at (unat off) (unat len) k1 s1" using first_ok[OF assms] by blast
  obtain e2 s2 k2 where 2: "default_read_middle (\<lambda>buf at b c. rb buf at b c s) bs s1 = Some (e2, s2)" "0 \<le> e2"
    "progress s buf at (unat off) (unat len) k2 s2" "unat len - k2 < unat bs" using middle_ok[OF ok r(1,3) 1(3)] by blast
  obtain e3 s3 where 3: "default_read_last (\<lambda>buf at b c. rb buf at b c s) temp s2 = Some (e3, s3)" "0 \<le> e3"
    "fst s3 = overwrite buf at (take (unat len) (drop (unat off) (data s)))" "snd (snd (snd (snd s3))) = unat len"
    using last_ok[OF ok r(1,3) t 2(3,4)] by blast
  show ?thesis using 1(1,2) 2(1,2) 3 by (cases s3) (simp add: bio_default_read_def)
qed

text \<open>The state of a write after \<open>k\<close> of the bytes.\<close>

definition written :: "'s \<Rightarrow> u8 list \<Rightarrow> nat \<Rightarrow> nat \<Rightarrow> nat \<Rightarrow> nat \<Rightarrow> nat \<times> u32 \<times> u64 \<times> nat \<times> 's \<Rightarrow> bool" where
  "written s src at off len k = (\<lambda>(at', block, left, n, s'). k \<le> len \<and>
     s' = upd (overwrite (data s) off (take k (drop at src))) s \<and> at' = at + k \<and> unat left = len - k \<and> n = k \<and>
     (k < len \<longrightarrow> off + k = unat block * unat bs))"

text \<open>Reading a block, patching part of it and writing it back changes just that part.\<close>

lemma patch_block:
  assumes ok: "ok s" and b: "(unat block + 1) * unat bs \<le> length (data s)" and d: "m + length d \<le> unat bs" and t: "length temp = unat bs"
  shows "\<exists>e1 temp1 temp2 e2. rb temp 0 block 1 s = Some (e1, temp1) \<and> 0 \<le> e1 \<and> memcpy_to temp1 m d = Some temp2 \<and>
    wb temp2 0 block 1 s = Some (e2, upd (overwrite (data s) (unat block * unat bs + m) d) s) \<and> 0 \<le> e2"
proof -
  let ?B = "take (unat bs) (drop (unat block * unat bs) (data s))"
  have lB: "length ?B = unat bs" using b by simp
  obtain e1 where e1: "0 \<le> e1" "rb temp 0 block 1 s = Some (e1, overwrite temp 0 ?B)"
    using read_blocks[OF ok, of 1 block 0 temp] b t by auto
  have B: "overwrite temp 0 ?B = ?B" using lB t by (simp add: overwrite_def)
  have c: "memcpy_to ?B m d = Some (overwrite ?B m d)" using lB d by (intro memcpy_to_overwrite) simp
  have l2: "length (overwrite ?B m d) = unat bs" using lB d by simp
  obtain e2 where e2: "0 \<le> e2" "wb (overwrite ?B m d) 0 block 1 s =
      Some (e2, upd (overwrite (data s) (unat block * unat bs) (overwrite ?B m d)) s)"
    using write_blocks[OF ok, of 1 block 0 "overwrite ?B m d"] b l2 by auto
  have "overwrite (data s) (unat block * unat bs) (overwrite ?B m d) = overwrite (data s) (unat block * unat bs + m) d"
    using d b by (intro overwrite_slice) simp_all
  thus ?thesis using e1 e2 B c by auto
qed

lemma first_write_ok:
  assumes ok: "ok s" and r: "unat off + unat len \<le> length (data s)" "0 < len" "at + unat len \<le> length src" and t: "length temp = unat bs"
  shows "\<exists>err st k. default_write_first rb wb bs temp src off (at, ucast (off div bs), len, 0, s) = Some (err, st) \<and>
    0 \<le> err \<and> written s src at (unat off) (unat len) k st"
proof -
  have lt: "unat off < length (data s)" using r(1,2) by (simp add: word_less_nat_alt)
  note b = block_lt[OF ok lt]
  have bs: "0 < unat bs" using bs_pos by (simp add: word_less_nat_alt)
  show ?thesis
  proof (cases "off mod bs = 0")
    case True
    hence "unat off mod unat bs = 0" by (metis unat_mod unsigned_0)
    hence "unat off div unat bs * unat bs = unat off" by (metis add.right_neutral mod_mult_div_eq mult.commute div_mult_mod_eq)
    hence "written s src at (unat off) (unat len) 0 (at, ucast (off div bs), len, 0, s)"
      by (simp add: written_def b(1) upd_data[OF ok])
    thus ?thesis using True by (auto simp: default_write_first_def)
  next
    case False
    define m where "m = unat off mod unat bs"
    define q where "q = unat off div unat bs"
    define t where "t = min (unat bs - m) (unat len)"
    let ?T = "min (bs - off mod bs) len"
    have m: "unat (off mod bs) = m" "m < unat bs" "q * unat bs + m = unat off"
      using bs by (simp_all add: m_def q_def unat_mod)
    have "unat (bs - off mod bs) = unat bs - m" using m by (simp add: unat_sub word_le_nat_alt)
    hence T: "unat ?T = t" by (simp add: t_def min_def word_le_nat_alt)
    have tl: "t \<le> unat len" "m + t \<le> unat bs" using m(2) by (simp_all add: t_def)
    let ?d = "take t (drop at src)"
    have d: "memcpy_from src at t = Some ?d" "length ?d = t" using tl(1) r(3) by (simp_all add: memcpy_from_def)
    obtain e1 temp1 temp2 e2 where e: "rb temp 0 (ucast (off div bs)) 1 s = Some (e1, temp1)" "0 \<le> e1"
      "memcpy_to temp1 m ?d = Some temp2" "0 \<le> e2"
      "wb temp2 0 (ucast (off div bs)) 1 s = Some (e2, upd (overwrite (data s) (unat off) ?d) s)"
      using patch_block[OF ok, of "ucast (off div bs)" m ?d temp] b assms(5) tl(2) d(2) m(3) by (auto simp: q_def)
    let ?st = "(at + t, ucast (off div bs) + 1, len - ?T, t, upd (overwrite (data s) (unat off) ?d) s)"
    have "default_write_first rb wb bs temp src off (at, ucast (off div bs), len, 0, s) = Some (e2, ?st)"
      using False e d m(1) T by (simp add: default_write_first_def Let_def)
    moreover have "written s src at (unat off) (unat len) t ?st"
    proof -
      have "unat off + t = unat (ucast (off div bs) + 1 :: u32) * unat bs" if "t < unat len"
      proof -
        have n: "unat off + t = (q + 1) * unat bs" using that m(2,3) by (simp add: t_def min_def split: if_splits)
        have "unat off + t < 2 ^ 32 * unat bs" using that r(1) data_blocks[OF ok] by linarith
        hence "q + 1 < 2 ^ 32" unfolding n using bs by simp
        hence "unat (ucast (off div bs) + 1 :: u32) = q + 1"
          using unat_add_lt[of "ucast (off div bs) :: u32" 1] b(1) by (simp add: q_def)
        thus ?thesis using n by simp
      qed
      moreover have "unat (len - ?T) = unat len - t" using T by (simp add: unat_sub)
      ultimately show ?thesis using tl by (simp add: written_def)
    qed
    ultimately show ?thesis using e(4) by blast
  qed
qed

text \<open>One more piece written after \<open>k\<close> bytes.\<close>

lemma write_more:
  assumes ok: "ok s" and r: "off + (k + m) \<le> length (data s)" "at + (k + m) \<le> length src"
    and s': "s' = upd (overwrite (data s) off (take k (drop at src))) s"
  shows "ok s'" "length (data s') = length (data s)"
    "upd (overwrite (data s') (off + k) (take m (drop (at + k) src))) s' = upd (overwrite (data s) off (take (k + m) (drop at src))) s"
proof -
  let ?x = "overwrite (data s) off (take k (drop at src))"
  have l: "length ?x = length (data s)" using r by simp
  show "ok s'" "length (data s') = length (data s)" using ok_upd[OF ok l] l by (simp_all add: s')
  have "overwrite ?x (off + k) (take m (drop (at + k) src)) = overwrite (data s) off (take (k + m) (drop at src))"
    using take_more[of k m "drop at src" off "data s"] r by (simp add: add.commute)
  moreover have "data s' = ?x" using ok_upd[OF ok l] by (simp add: s')
  ultimately show "upd (overwrite (data s') (off + k) (take m (drop (at + k) src))) s' = upd (overwrite (data s) off (take (k + m) (drop at src))) s"
    using upd_upd[OF ok l] r by (simp add: s')
qed

lemma middle_write_ok:
  assumes ok: "ok s" and r: "unat off + unat len \<le> length (data s)" "at + unat len \<le> length src"
    and pr: "written s src at (unat off) (unat len) k st"
  shows "\<exists>err st' k'. default_write_middle wb bs src st = Some (err, st') \<and> 0 \<le> err \<and>
    written s src at (unat off) (unat len) k' st' \<and> unat len - k' < unat bs"
proof -
  obtain at' block left n s' where st: "st = (at', block, left, n, s')" by (cases st) auto
  have p: "k \<le> unat len" "s' = upd (overwrite (data s) (unat off) (take k (drop at src))) s" "at' = at + k" "unat left = unat len - k"
    "n = k" "k < unat len \<longrightarrow> unat off + k = unat block * unat bs"
    using pr by (auto simp: written_def st)
  have bs: "0 < unat bs" using bs_pos by (simp add: word_less_nat_alt)
  show ?thesis
  proof (cases "bs \<le> left")
    case False
    hence "default_write_middle wb bs src st = Some (0, st)" by (simp add: default_write_middle_def st)
    moreover have "unat len - k < unat bs" using False p(4) by (simp add: word_le_nat_alt)
    ultimately show ?thesis using pr by blast
  next
    case True
    hence le: "unat bs \<le> unat left" by (simp add: word_le_nat_alt)
    define c where "c = unat left div unat bs"
    define m where "m = c * unat bs"
    have m: "m \<le> unat left" "unat left - m < unat bs" "0 < c"
      using bs le by (simp_all add: m_def c_def minus_div_mult_eq_mod div_greater_zero_iff)
    have al: "unat off + k = unat block * unat bs" using p(4,6) le bs by simp
    have "m < 2 ^ 32 * unat bs" using m(1) p(4) r(1) data_blocks[OF ok] by linarith
    hence c32: "c < 2 ^ 32" using bs by (simp add: m_def)
    have cu: "unat (left div bs) = c" "unat (ucast (left div bs) :: u32) = c"
      using c32 by (simp_all add: c_def unat_div unsigned_ucast_eq take_bit_nat_eq_self)
    have bt: "unat (left div bs * bs) = m"
      using unat_mult_lt[of "left div bs" bs] order_le_less_trans[OF m(1) unsigned_less] cu(1) by (simp add: m_def)
    have rm: "unat off + (k + m) \<le> length (data s)" "at + (k + m) \<le> length src" using m(1) p(1,4) r by simp_all
    note wm = write_more[OF ok rm p(2)]
    have rg: "(unat block + c) * unat bs \<le> length (data s')" "at' + m \<le> length src"
      using al rm p(3) wm(2) by (simp_all add: distrib_right m_def)
    obtain e where e: "0 \<le> e" "wb src at' block (ucast (left div bs)) s' =
        Some (e, upd (overwrite (data s) (unat off) (take (k + m) (drop at src))) s)"
      using write_blocks[OF wm(1), of "ucast (left div bs)" block at' src] rg m(3) cu(2) wm(3) p(3)
      by (auto simp: word_less_nat_alt m_def al)
    let ?st = "(at' + m, block + ucast (left div bs), left - left div bs * bs, k + m,
      upd (overwrite (data s) (unat off) (take (k + m) (drop at src))) s)"
    have "default_write_middle wb bs src st = Some (e, ?st)"
      using True e bt m(1) p(5) by (simp add: default_write_middle_def st Let_def word_le_nat_alt)
    moreover have "written s src at (unat off) (unat len) (k + m) ?st"
    proof -
      have "unat off + (k + m) = unat (block + ucast (left div bs)) * unat bs" if "k + m < unat len"
      proof -
        have n: "unat off + (k + m) = (unat block + c) * unat bs" using al by (simp add: distrib_right m_def)
        have "unat off + (k + m) < 2 ^ 32 * unat bs" using that r(1) data_blocks[OF ok] by simp
        hence "unat block + c < 2 ^ 32" unfolding n using bs by simp
        thus ?thesis using n unat_add_lt[of block "ucast (left div bs)"] cu(2) by simp
      qed
      moreover have "unat (left - left div bs * bs) = unat left - m" using bt m(1) by (simp add: unat_sub word_le_nat_alt)
      ultimately show ?thesis using p m(1) by (simp add: written_def)
    qed
    moreover have "unat len - (k + m) < unat bs" using m(2) p(4) by simp
    ultimately show ?thesis using e(1) by blast
  qed
qed

lemma last_write_ok:
  assumes ok: "ok s" and r: "unat off + unat len \<le> length (data s)" "at + unat len \<le> length src" and t: "length temp = unat bs"
    and pr: "written s src at (unat off) (unat len) k st" and lt: "unat len - k < unat bs"
  shows "\<exists>err at' block left. default_write_last rb wb temp src st =
    Some (err, at', block, left, unat len, upd (overwrite (data s) (unat off) (take (unat len) (drop at src))) s) \<and> 0 \<le> err"
proof -
  obtain at' block left n s' where st: "st = (at', block, left, n, s')" by (cases st) auto
  have p: "k \<le> unat len" "s' = upd (overwrite (data s) (unat off) (take k (drop at src))) s" "at' = at + k" "unat left = unat len - k"
    "n = k" "k < unat len \<longrightarrow> unat off + k = unat block * unat bs"
    using pr by (auto simp: written_def st)
  show ?thesis
  proof (cases "left = 0")
    case True
    hence "k = unat len" using p(1,4) by simp
    thus ?thesis using True p by (simp add: default_write_last_def st)
  next
    case False
    hence l: "0 < unat left" "k < unat len" using p(4) by (simp_all add: unat_gt_0[symmetric])
    have al: "unat off + k = unat block * unat bs" using p(6) l by simp
    have rm: "unat off + (k + unat left) \<le> length (data s)" "at + (k + unat left) \<le> length src" using p(1,4) r by simp_all
    note wm = write_more[OF ok rm p(2)]
    have f: "(unat block + 1) * unat bs \<le> length (data s')"
      using block_fits[OF wm(1), of "unat block"] al r(1) l wm(2) by simp
    let ?d = "take (unat left) (drop (at + k) src)"
    have d: "memcpy_from src at' (unat left) = Some ?d" "length ?d = unat left" using rm(2) p(3) by (simp_all add: memcpy_from_def)
    obtain e1 temp1 temp2 e2 where e: "rb temp 0 block 1 s' = Some (e1, temp1)" "0 \<le> e1" "memcpy_to temp1 0 ?d = Some temp2" "0 \<le> e2"
      "wb temp2 0 block 1 s' = Some (e2, upd (overwrite (data s') (unat off + k) ?d) s')"
      using patch_block[OF wm(1) f, of 0 ?d temp] t d(2) lt p(4) al by auto
    have "k + unat left = unat len" using p(1,4) by simp
    thus ?thesis using False e d wm(3) p(3,5) by (simp add: default_write_last_def st word_gt_0)
  qed
qed

lemma default_write_ok:
  assumes ok: "ok s" and r: "unat off + unat len \<le> length (data s)" "0 < len" "at + unat len \<le> length src" and t: "length temp = unat bs"
  shows "bio_default_write rb wb bs temp src at off len s =
    Some (int (unat len), upd (overwrite (data s) (unat off) (take (unat len) (drop at src))) s)"
proof -
  obtain e1 s1 k1 where 1: "default_write_first rb wb bs temp src off (at, ucast (off div bs), len, 0, s) = Some (e1, s1)"
    "0 \<le> e1" "written s src at (unat off) (unat len) k1 s1" using first_write_ok[OF assms] by blast
  obtain e2 s2 k2 where 2: "default_write_middle wb bs src s1 = Some (e2, s2)" "0 \<le> e2"
    "written s src at (unat off) (unat len) k2 s2" "unat len - k2 < unat bs" using middle_write_ok[OF ok r(1,3) 1(3)] by blast
  obtain e3 at3 b3 l3 where 3: "default_write_last rb wb temp src s2 =
      Some (e3, at3, b3, l3, unat len, upd (overwrite (data s) (unat off) (take (unat len) (drop at src))) s)" "0 \<le> e3"
    using last_write_ok[OF ok r(1,3) t 2(3,4)] by blast
  show ?thesis using 1(1,2) 2(1,2) 3 by (simp add: bio_default_write_def)
qed

end

section \<open>Byte devices\<close>

lemma sint_eq_unat:
  assumes "unat (w :: u64) < 2 ^ 63"
  shows "sint w = int (unat w)"
proof -
  have "sint (word_of_int (int (unat w)) :: u64) = signed_take_bit 63 (int (unat w))"
    by (simp only: sint_sbintrunc' len_num0 len_of_numeral_defs) simp
  moreover have "signed_take_bit 63 (int (unat w)) = int (unat w)"
    using assms by (intro signed_take_bit_int_eq_self) (auto simp del: of_nat_unat)
  moreover have "(word_of_int (int (unat w)) :: u64) = w" by simp
  ultimately show ?thesis by (simp only:)
qed

text \<open>The length the range check leaves of a transfer.\<close>

definition clip :: "nat \<Rightarrow> u64 \<Rightarrow> u64 \<Rightarrow> nat" where
  "clip n off len = min (unat len) (n - unat off)"

text \<open>What the clients of a device rely on: reads and writes of any bytes, cut off at the end of the device.\<close>

locale byte_device = storage ok data upd
  for ok :: "'s \<Rightarrow> bool" and data :: "'s \<Rightarrow> u8 list" and upd :: "u8 list \<Rightarrow> 's \<Rightarrow> 's" +
  fixes rd :: "u8 list \<Rightarrow> nat \<Rightarrow> u64 \<Rightarrow> u64 \<Rightarrow> 's \<Rightarrow> (int \<times> u8 list) option"
    and wr :: "u8 list \<Rightarrow> nat \<Rightarrow> u64 \<Rightarrow> u64 \<Rightarrow> 's \<Rightarrow> (int \<times> 's) option"
  assumes read_bytes: "ok s \<Longrightarrow> unat off < 2 ^ 63 \<Longrightarrow> unat off + unat len < 2 ^ 64 \<Longrightarrow> k = clip (length (data s)) off len \<Longrightarrow>
      at + k \<le> length buf \<Longrightarrow> rd buf at off len s = Some (int k, overwrite buf at (take k (drop (unat off) (data s))))"
    and write_bytes: "ok s \<Longrightarrow> unat off < 2 ^ 63 \<Longrightarrow> unat off + unat len < 2 ^ 64 \<Longrightarrow> k = clip (length (data s)) off len \<Longrightarrow>
      at + k \<le> length src \<Longrightarrow> wr src at off len s = Some (int k, upd (overwrite (data s) (unat off) (take k (drop at src))) s)"
begin

lemma write_read:
  assumes ok: "ok s" and r: "unat off + length x \<le> length (data s)" "unat len = length x" and l: "length buf = length x"
  shows "\<exists>s'. wr x 0 off len s = Some (int (length x), s') \<and> ok s' \<and> rd buf 0 off len s' = Some (int (length x), x)"
proof -
  let ?y = "overwrite (data s) (unat off) x"
  have b: "unat off < 2 ^ 63" "unat off + unat len < 2 ^ 64" "clip (length (data s)) off len = length x"
    using r data_small[OF ok] by (simp_all add: clip_def)
  have w: "wr x 0 off len s = Some (int (length x), upd ?y s)" using write_bytes[OF ok b(1,2) b(3)[symmetric]] by simp
  have y: "length ?y = length (data s)" using r(1) by simp
  note o = ok_upd[OF ok y]
  have "rd buf 0 off len (upd ?y s) = Some (int (length x), overwrite buf 0 (take (length x) (drop (unat off) ?y)))"
    using read_bytes[of "upd ?y s" off len "length x" 0 buf] o b y l by simp
  moreover have "overwrite buf 0 (take (length x) (drop (unat off) ?y)) = x"
    using slice_overwrite[OF r(1)] l by (simp add: overwrite_def)
  ultimately show ?thesis using w o by auto
qed

lemma erase_loop:
  assumes "ok s" "unat pos + unat rem \<le> length (data s)"
  shows "default_erase_loop (wr (replicate 4096 0) 0) total_len pos rem s =
    Some (sint total_len, upd (overwrite (data s) (unat pos) (replicate (unat rem) 0)) s)"
  using assms
proof (induction "unat rem" arbitrary: pos rem s rule: less_induct)
  case less
  show ?case
  proof (cases "rem = 0")
    case True
    thus ?thesis using upd_data[OF less.prems(1)] by (subst default_erase_loop.simps) simp
  next
    case False
    let ?t = "min rem ERASE_BUF_SIZE"
    define t where "t = unat (min rem ERASE_BUF_SIZE)"
    have t: "t = min (unat rem) 4096" by (simp add: t_def min_def word_le_nat_alt ERASE_BUF_SIZE_def)
    hence t0: "0 < t" "t \<le> unat rem" "t \<le> 4096" using False by (auto simp: unat_gt_0)
    have n: "length (data s) < 2 ^ 63" by (rule data_small[OF less.prems(1)])
    have tt: "unat ?t = t" by (simp only: t_def)
    have b: "unat pos < 2 ^ 63" "unat pos + unat ?t < 2 ^ 64" "t = clip (length (data s)) pos ?t" "0 + t \<le> length (replicate 4096 0)"
      using less.prems(2) t0 n unfolding clip_def tt by simp_all
    have z: "take t (drop 0 (replicate 4096 0)) = replicate t 0" using t0(3) by (simp add: min_absorb1)
    note w = write_bytes[OF less.prems(1) b(1,2,3) b(4), unfolded z]
    let ?x = "overwrite (data s) (unat pos) (replicate t 0)"
    have lx: "length ?x = length (data s)" using less.prems(2) t0 by simp
    note o = ok_upd[OF less.prems(1) lx]
    have ut: "unat (word_of_int (int t) :: u64) = t" using t0 by (simp add: unat_of_nat)
    have p: "unat (pos + word_of_int (int t)) = unat pos + t"
      using unat_add64[of pos "word_of_int (int t)"] ut less.prems(2) n t0 by simp
    have r: "unat (rem - word_of_int (int t)) = unat rem - t" using ut t0 by (simp add: unat_sub word_le_nat_alt)
    have "unat ?t < 2 ^ 63" using t0 unfolding tt by simp
    hence st: "sint ?t = int t" using sint_eq_unat[of ?t] by (simp only: tt)
    have "default_erase_loop (wr (replicate 4096 0) 0) total_len (pos + word_of_int (int t)) (rem - word_of_int (int t)) (upd ?x s) =
      Some (sint total_len, upd (overwrite ?x (unat pos + t) (replicate (unat rem - t) 0)) (upd ?x s))"
      using less.hyps[of "rem - word_of_int (int t)" "upd ?x s" "pos + word_of_int (int t)"] o p r t0 less.prems(2) lx by simp
    moreover have "overwrite ?x (unat pos + t) (replicate (unat rem - t) 0) = overwrite (data s) (unat pos) (replicate (unat rem) 0)"
      using overwrite_append[of "unat pos" "replicate t 0" "replicate (unat rem - t) 0" "data s"] less.prems(2) t0
      by (simp add: replicate_add[symmetric])
    moreover have "upd (overwrite (data s) (unat pos) (replicate (unat rem) 0)) (upd ?x s) = upd (overwrite (data s) (unat pos) (replicate (unat rem) 0)) s"
      using upd_upd[OF less.prems(1) lx] less.prems(2) by simp
    ultimately show ?thesis using False w st t0
      by (subst default_erase_loop.simps) (simp add: Let_def word_gt_0)
  qed
qed

end

section \<open>Devices as windows of memory\<close>

text \<open>
  \<open>window s d r base n\<close>: device \<open>d\<close> is the \<open>n\<close> bytes at \<open>base\<close> of the memory device \<open>r\<close>. The size of
  a memory device is below 4 GiB, which keeps the 32-bit products of \<^verbatim>\<open>mem.c\<close> from wrapping.
\<close>

definition geometry :: "bdev \<Rightarrow> bool" where
  "geometry b \<longleftrightarrow> 0 < bd_ref b \<and> bd_block_size b = 512 \<and> bd_size b = ucast (bd_block_count b) * 512"

inductive window :: "bio \<Rightarrow> nat \<Rightarrow> nat \<Rightarrow> nat \<Rightarrow> nat \<Rightarrow> bool" for s where
  mem: "bio_devs s d = Some b \<Longrightarrow> bd_driver b = Mem ptr \<Longrightarrow> geometry b \<Longrightarrow> unat (bd_size b) \<le> length ptr \<Longrightarrow>
    unat (bd_size b) < 2 ^ 32 \<Longrightarrow> n = unat (bd_size b) \<Longrightarrow> window s d d 0 n"
| sub: "bio_devs s d = Some b \<Longrightarrow> bd_driver b = Subdev p start \<Longrightarrow> geometry b \<Longrightarrow> window s p r base m \<Longrightarrow>
    unat start * 512 + unat (bd_size b) \<le> m \<Longrightarrow> base' = base + unat start * 512 \<Longrightarrow> n = unat (bd_size b) \<Longrightarrow> window s d r base' n"

definition memory :: "bio \<Rightarrow> nat \<Rightarrow> u8 list" where
  "memory s r = (case bio_devs s r of Some b \<Rightarrow> (case bd_driver b of Mem ptr \<Rightarrow> ptr | _ \<Rightarrow> []) | None \<Rightarrow> [])"

lemma unat_u32_u64: "unat (ucast (w :: u32) :: u64) = unat w"
  by (rule unat_ucast_up) simp

lemma geometry_size:
  assumes "geometry b"
  shows "unat (bd_size b) = unat (bd_block_count b) * 512"
proof -
  note u = unat_u32_u64[of "bd_block_count b"]
  have "unat (bd_block_count b) < 2 ^ 32" using unsigned_less[of "bd_block_count b", where 'a = nat] by simp
  hence "unat (ucast (bd_block_count b) * 512 :: u64) = unat (bd_block_count b) * 512"
    using unat_mult_lt[of "ucast (bd_block_count b) :: u64" 512] u by simp
  thus ?thesis using assms by (simp add: geometry_def)
qed

lemma window_facts:
  assumes "window s d r base n"
  shows "base + n \<le> length (memory s r)" "n < 2 ^ 32" "base + n < 2 ^ 32" "512 dvd n" "512 dvd base"
    "\<exists>b. bio_devs s d = Some b \<and> geometry b \<and> unat (bd_size b) = n"
    "\<exists>b ptr. bio_devs s r = Some b \<and> bd_driver b = Mem ptr"
proof -
  have "base + n \<le> length (memory s r) \<and> base + n < 2 ^ 32 \<and> 512 dvd n \<and> 512 dvd base \<and>
    (\<exists>b. bio_devs s d = Some b \<and> geometry b \<and> unat (bd_size b) = n) \<and> (\<exists>b ptr. bio_devs s r = Some b \<and> bd_driver b = Mem ptr)"
    using assms
  proof induction
    case (mem d b ptr n)
    thus ?case using geometry_size[of b] by (auto simp: memory_def)
  next
    case (sub d b p start r base m base' n)
    thus ?case using geometry_size[of b] by auto
  qed
  thus "base + n \<le> length (memory s r)" "n < 2 ^ 32" "base + n < 2 ^ 32" "512 dvd n" "512 dvd base"
    "\<exists>b. bio_devs s d = Some b \<and> geometry b \<and> unat (bd_size b) = n"
    "\<exists>b ptr. bio_devs s r = Some b \<and> bd_driver b = Mem ptr" by auto
qed

lemma block_bytes:
  assumes "unat (b :: u32) * 512 < 2 ^ 32"
  shows "unat (b * 512) = unat b * 512"
  using unat_mult_lt[of b 512] assms by simp

lemma no_clip:
  assumes "geometry b" "(unat block + unat count) * 512 \<le> unat (bd_size b)" "unat (bd_size b) < 2 ^ 32"
  shows "\<not> bd_block_count b < block" "\<not> bd_block_count b < block + count"
proof -
  have c: "unat block + unat count \<le> unat (bd_block_count b)" using assms(2) geometry_size[OF assms(1)] by simp
  have "unat (block + count) = unat block + unat count"
    using c assms(3) geometry_size[OF assms(1)] by (intro unat_add_lt) simp
  thus "\<not> bd_block_count b < block" "\<not> bd_block_count b < block + count" using c by (simp_all add: word_less_nat_alt)
qed

lemma bio_read_block_ok:
  assumes "window s d r base n" "0 < count" "(unat block + unat count) * 512 \<le> n" "at + unat count * 512 \<le> length buf"
  shows "bio_read_block d buf at block count s =
    Some (int (unat count * 512), overwrite buf at (take (unat count * 512) (drop (base + unat block * 512) (memory s r))))"
  using assms
proof (induction arbitrary: block rule: window.induct)
  case (mem d b ptr n)
  have m: "memory s d = ptr" using mem by (simp add: memory_def)
  have cb: "unat (count * 512) = unat count * 512" "unat (block * 512) = unat block * 512"
    using mem by (auto intro!: block_bytes)
  note nc = no_clip[OF mem(3), of block count]
  have "memcpy_from ptr (unat block * 512) (unat count * 512) = Some (take (unat count * 512) (drop (unat block * 512) ptr))"
    using mem by (simp add: memcpy_from_def)
  moreover have "memcpy_to buf at (take (unat count * 512) (drop (unat block * 512) ptr)) =
      Some (overwrite buf at (take (unat count * 512) (drop (unat block * 512) ptr)))"
    using mem by (intro memcpy_to_overwrite) simp
  ultimately show ?case using mem nc m cb
    by (subst bio_read_block.simps) (simp add: geometry_def mem_bdev_read_block_def word_gt_0 del: of_nat_unat)
next
  case (sub d b p start r base m base' n)
  have f: "base + m < 2 ^ 32" using window_facts[OF sub(4)] by simp
  hence sz: "unat (bd_size b) < 2 ^ 32" using sub by simp
  note nc = no_clip[OF sub(3), of block count]
  have "unat (block + start) = unat block + unat start" using sub f by (intro unat_add_lt) simp
  moreover from this have "bio_read_block p buf at (block + start) count s =
    Some (int (unat count * 512), overwrite buf at (take (unat count * 512) (drop (base + unat (block + start) * 512) (memory s r))))"
    using sub by (intro sub.IH) simp_all
  moreover have "base + (unat block + unat start) * 512 = base' + unat block * 512" using sub by simp
  ultimately show ?case using sub(1-3) sub.prems nc sz sub.hyps
    by (subst bio_read_block.simps) (simp add: geometry_def subdev_read_block_def word_gt_0 ac_simps)
qed

definition set_memory :: "nat \<Rightarrow> u8 list \<Rightarrow> bio \<Rightarrow> bio" where
  "set_memory r x s = set_driver r (Mem x) s"

lemma bio_write_block_ok:
  assumes "window s d r base n" "0 < count" "(unat block + unat count) * 512 \<le> n" "at + unat count * 512 \<le> length src"
  shows "bio_write_block d src at block count s = Some (int (unat count * 512),
    set_memory r (overwrite (memory s r) (base + unat block * 512) (take (unat count * 512) (drop at src))) s)"
  using assms
proof (induction arbitrary: block rule: window.induct)
  case (mem d b ptr n)
  have m: "memory s d = ptr" using mem by (simp add: memory_def)
  have cb: "unat (count * 512) = unat count * 512" "unat (block * 512) = unat block * 512"
    using mem by (auto intro!: block_bytes)
  note nc = no_clip[OF mem(3), of block count]
  have "memcpy_from src at (unat count * 512) = Some (take (unat count * 512) (drop at src))"
    using mem by (simp add: memcpy_from_def)
  moreover have "memcpy_to ptr (unat block * 512) (take (unat count * 512) (drop at src)) =
      Some (overwrite ptr (unat block * 512) (take (unat count * 512) (drop at src)))"
    using mem by (intro memcpy_to_overwrite) simp
  ultimately show ?case using mem nc m cb
    by (subst bio_write_block.simps)
       (simp add: geometry_def mem_bdev_write_block_def set_memory_def word_gt_0 del: of_nat_unat)
next
  case (sub d b p start r base m base' n)
  have f: "base + m < 2 ^ 32" using window_facts[OF sub(4)] by simp
  hence sz: "unat (bd_size b) < 2 ^ 32" using sub by simp
  note nc = no_clip[OF sub(3), of block count]
  have "unat (block + start) = unat block + unat start" using sub f by (intro unat_add_lt) simp
  moreover from this have "bio_write_block p src at (block + start) count s = Some (int (unat count * 512),
      set_memory r (overwrite (memory s r) (base + unat (block + start) * 512) (take (unat count * 512) (drop at src))) s)"
    using sub by (intro sub.IH) simp_all
  moreover have "base + (unat block + unat start) * 512 = base' + unat block * 512" using sub by simp
  ultimately show ?case using sub(1-3) sub.prems nc sz sub.hyps
    by (subst bio_write_block.simps) (simp add: geometry_def subdev_write_block_def word_gt_0 ac_simps)
qed

lemma clip_len:
  assumes "unat off + unat len < 2 ^ 64" "off < sz"
  shows "unat (if sz < off + len then sz - off else len) = clip (unat sz) off len"
proof -
  have "unat (off + len) = unat off + unat len" using assms(1) by (rule unat_add64)
  moreover have "unat (sz - off) = unat sz - unat off" using assms(2) by (simp add: unat_sub)
  ultimately show ?thesis using assms(2) by (auto simp: clip_def min_def word_less_nat_alt)
qed

text \<open>Where a transfer of a subdevice lies in its parent.\<close>

lemma sub_offset:
  fixes start :: u32
  assumes "geometry b" "window s p r base m" "unat start * 512 + unat (bd_size b) \<le> m" "n = unat (bd_size b)"
    "unat off + unat len < 2 ^ 64" "\<not> (bd_size b \<le> off \<or> len = 0)"
  defines "len' \<equiv> if bd_size b < off + len then bd_size b - off else len" and "off' \<equiv> off + ucast start * 512"
  shows "unat len' = clip n off len" "unat off' = unat off + unat start * 512" "clip m off' len' = clip n off len"
    "unat off + clip n off len \<le> n" "unat off' < 2 ^ 63" "unat off' + unat len' < 2 ^ 64"
proof -
  have f: "base + m < 2 ^ 32" using window_facts[OF assms(2)] by simp
  show u: "unat len' = clip n off len" using clip_len[of off len "bd_size b"] assms by (simp add: not_le)
  show c: "unat off + clip n off len \<le> n" using assms by (auto simp: clip_def word_le_nat_alt)
  have st: "unat (ucast start * 512 :: u64) = unat start * 512"
    using unat_mult_lt[of "ucast start :: u64" 512] unat_u32_u64[of start] assms f by simp
  show o: "unat off' = unat off + unat start * 512"
    using unat_add64[of off "ucast start * 512"] st c assms f by simp
  show "clip m off' len' = clip n off len" unfolding clip_def[of m] u o using c assms by simp
  show "unat off' < 2 ^ 63" "unat off' + unat len' < 2 ^ 64" using u o c assms f by simp_all
qed

lemma bio_read_ok:
  assumes "window s d r base n" "unat off < 2 ^ 63" "unat off + unat len < 2 ^ 64" "at + clip n off len \<le> length buf"
  shows "bio_read d buf at off len s = Some (int (clip n off len),
    overwrite buf at (take (clip n off len) (drop (base + unat off) (memory s r))))"
  using assms
proof (induction arbitrary: off len rule: window.induct)
  case (mem d b ptr n)
  have m: "memory s d = ptr" using mem by (simp add: memory_def)
  have s0: "\<not> sint off < 0" using sint_eq_unat[OF mem.prems(1)] by simp
  show ?case
  proof (cases "bd_size b \<le> off \<or> len = 0")
    case True
    hence "clip n off len = 0" using mem by (auto simp: clip_def word_le_nat_alt)
    thus ?thesis using True mem s0 by (subst bio_read.simps) (auto simp: geometry_def)
  next
    case False
    let ?len = "if bd_size b < off + len then bd_size b - off else len"
    have u: "unat ?len = clip n off len" using clip_len[of off len "bd_size b"] mem False by (simp add: not_le)
    have c: "unat off + clip n off len \<le> n" using False mem by (auto simp: clip_def word_le_nat_alt)
    hence "unat ?len < 2 ^ 63" using u mem by simp
    from sint_eq_unat[OF this] have "sint ?len = int (clip n off len)" using u by simp
    moreover have "memcpy_from ptr (unat off) (clip n off len) = Some (take (clip n off len) (drop (unat off) ptr))"
      using c mem by (simp add: memcpy_from_def)
    moreover have "memcpy_to buf at (take (clip n off len) (drop (unat off) ptr)) =
        Some (overwrite buf at (take (clip n off len) (drop (unat off) ptr)))"
      using c mem by (intro memcpy_to_overwrite) simp
    ultimately show ?thesis using False mem s0 m u
      by (subst bio_read.simps) (simp add: geometry_def mem_bdev_read_def Let_def)
  qed
next
  case (sub d b p start r base m base' n)
  have f: "base + m < 2 ^ 32" using window_facts[OF sub(4)] by simp
  have s0: "\<not> sint off < 0" using sint_eq_unat[OF sub.prems(1)] by simp
  show ?case
  proof (cases "bd_size b \<le> off \<or> len = 0")
    case True
    hence "clip n off len = 0" using sub by (auto simp: clip_def word_le_nat_alt)
    thus ?thesis using True sub s0 by (subst bio_read.simps) (auto simp: geometry_def)
  next
    case False
    let ?len = "if bd_size b < off + len then bd_size b - off else len" and ?off = "off + ucast start * 512"
    note o = sub_offset[OF sub(3,4,5,7) sub.prems(2) False]
    have "bio_read p buf at ?off ?len s = Some (int (clip m ?off ?len),
        overwrite buf at (take (clip m ?off ?len) (drop (base + unat ?off) (memory s r))))"
      using sub.prems o f by (intro sub.IH) simp_all
    moreover have "base + unat ?off = base' + unat off" using o sub by simp
    ultimately have "bio_read p buf at ?off ?len s = Some (int (clip n off len),
        overwrite buf at (take (clip n off len) (drop (base' + unat off) (memory s r))))" by (simp only: o)
    thus ?thesis using False sub(1-3) s0 by (subst bio_read.simps) (simp add: geometry_def subdev_read_def Let_def)
  qed
qed

lemma bio_write_ok:
  assumes "window s d r base n" "unat off < 2 ^ 63" "unat off + unat len < 2 ^ 64" "at + clip n off len \<le> length src"
  shows "bio_write d src at off len s = Some (int (clip n off len),
    if clip n off len = 0 then s
    else set_memory r (overwrite (memory s r) (base + unat off) (take (clip n off len) (drop at src))) s)"
  using assms
proof (induction arbitrary: off len rule: window.induct)
  case (mem d b ptr n)
  have m: "memory s d = ptr" using mem by (simp add: memory_def)
  have s0: "\<not> sint off < 0" using sint_eq_unat[OF mem.prems(1)] by simp
  show ?case
  proof (cases "bd_size b \<le> off \<or> len = 0")
    case True
    hence "clip n off len = 0" using mem by (auto simp: clip_def word_le_nat_alt)
    thus ?thesis using True mem s0 by (subst bio_write.simps) (auto simp: geometry_def)
  next
    case False
    let ?len = "if bd_size b < off + len then bd_size b - off else len"
    have u: "unat ?len = clip n off len" using clip_len[of off len "bd_size b"] mem False by (simp add: not_le)
    have c: "unat off + clip n off len \<le> n" "clip n off len \<noteq> 0"
      using False mem by (auto simp: clip_def word_le_nat_alt unat_gt_0)
    hence "unat ?len < 2 ^ 63" using u mem by simp
    from sint_eq_unat[OF this] have "sint ?len = int (clip n off len)" using u by simp
    moreover have "memcpy_from src at (clip n off len) = Some (take (clip n off len) (drop at src))"
      using mem by (simp add: memcpy_from_def)
    moreover have "memcpy_to ptr (unat off) (take (clip n off len) (drop at src)) =
        Some (overwrite ptr (unat off) (take (clip n off len) (drop at src)))"
      using c mem by (intro memcpy_to_overwrite) simp
    ultimately show ?thesis using False mem s0 m u c(2)
      by (subst bio_write.simps) (simp add: geometry_def mem_bdev_write_def set_memory_def Let_def)
  qed
next
  case (sub d b p start r base m base' n)
  have f: "base + m < 2 ^ 32" using window_facts[OF sub(4)] by simp
  have s0: "\<not> sint off < 0" using sint_eq_unat[OF sub.prems(1)] by simp
  show ?case
  proof (cases "bd_size b \<le> off \<or> len = 0")
    case True
    hence "clip n off len = 0" using sub by (auto simp: clip_def word_le_nat_alt)
    thus ?thesis using True sub s0 by (subst bio_write.simps) (auto simp: geometry_def)
  next
    case False
    let ?len = "if bd_size b < off + len then bd_size b - off else len" and ?off = "off + ucast start * 512"
    note o = sub_offset[OF sub(3,4,5,7) sub.prems(2) False]
    have "bio_write p src at ?off ?len s = Some (int (clip m ?off ?len), if clip m ?off ?len = 0 then s
        else set_memory r (overwrite (memory s r) (base + unat ?off) (take (clip m ?off ?len) (drop at src))) s)"
      using sub.prems o f by (intro sub.IH) simp_all
    moreover have "base + unat ?off = base' + unat off" using o sub by simp
    ultimately have "bio_write p src at ?off ?len s = Some (int (clip n off len), if clip n off len = 0 then s
        else set_memory r (overwrite (memory s r) (base' + unat off) (take (clip n off len) (drop at src))) s)"
      by (simp only: o)
    thus ?thesis using False sub(1-3) s0 by (subst bio_write.simps) (simp add: geometry_def subdev_write_def Let_def)
  qed
qed

lemma set_memory_simps:
  assumes "bio_devs s r = Some b" "bd_driver b = Mem ptr"
  shows "memory (set_memory r x s) r = x" "set_memory r y (set_memory r x s) = set_memory r y s"
    "set_memory r ptr s = s" "memory s r = ptr"
  using assms by (auto simp: set_memory_def set_driver_def memory_def fun_upd_def intro!: bio.equality)

text \<open>Writing does not change which device is which window.\<close>

lemma window_set_memory:
  assumes "window s d q base n" "bio_devs s r = Some br" "bd_driver br = Mem ptr" "length x = length ptr"
  shows "window (set_memory r x s) d q base n"
  using assms(1)
proof induction
  case (mem d b p n)
  show ?case
  proof (cases "d = r")
    case True
    thus ?thesis using mem assms by (intro window.mem[where b = "b\<lparr>bd_driver := Mem x\<rparr>" and ptr = x])
      (auto simp: set_memory_def set_driver_def geometry_def)
  next
    case False
    hence "bio_devs (set_memory r x s) d = Some b" using mem(1) by (simp add: set_memory_def set_driver_def)
    from window.mem[OF this mem(2-6)] show ?thesis .
  qed
next
  case (sub d b p start q base m base' n)
  have "d \<noteq> r" using sub assms by auto
  hence "bio_devs (set_memory r x s) d = Some b" using sub(1) by (simp add: set_memory_def set_driver_def)
  from window.sub[OF this sub(2,3) sub.IH sub(5-7)] show ?case .
qed

section \<open>The interfaces interpreted\<close>

definition window_data :: "nat \<Rightarrow> nat \<Rightarrow> nat \<Rightarrow> bio \<Rightarrow> u8 list" where
  "window_data r base n s = take n (drop base (memory s r))"

definition window_upd :: "nat \<Rightarrow> nat \<Rightarrow> u8 list \<Rightarrow> bio \<Rightarrow> bio" where
  "window_upd r base x s = set_memory r (overwrite (memory s r) base x) s"

lemma length_window_data: "window s d r base n \<Longrightarrow> length (window_data r base n s) = n"
  using window_facts(1) by (fastforce simp: window_data_def)

lemma overwrite_same: "base + n \<le> length b \<Longrightarrow> overwrite b base (take n (drop base b)) = b"
  by (rule nth_equalityI) (auto simp: nth_overwrite)

lemma window_read_slice:
  "off + k \<le> n \<Longrightarrow> take k (drop (base + off) (memory s r)) = take k (drop off (window_data r base n s))"
  by (simp add: window_data_def drop_take min_def add.commute)

lemma window_write_slice:
  assumes "window s d r base n" "off + length x \<le> n"
  shows "set_memory r (overwrite (memory s r) (base + off) x) s = window_upd r base (overwrite (window_data r base n s) off x) s"
  using overwrite_slice[OF assms(2) window_facts(1)[OF assms(1)]] by (simp add: window_upd_def window_data_def)

interpretation ws: storage "\<lambda>s. window s d r base n" "window_data r base n" "window_upd r base" for d r base n
proof (unfold_locales, goal_cases)
  case (1 s x)
  obtain b ptr where r: "bio_devs s r = Some b" "bd_driver b = Mem ptr" using window_facts(7)[OF 1(1)] by blast
  note m = set_memory_simps[OF r]
  have l: "base + length x \<le> length (memory s r)" "length x = n"
    using 1(2) window_facts(1)[OF 1(1)] length_window_data[OF 1(1)] by simp_all
  have "window (window_upd r base x s) d r base n"
    using window_set_memory[OF 1(1) r] l(1) m(4) by (simp add: window_upd_def)
  thus ?case using slice_overwrite[OF l(1)] m(1) l(2) by (simp add: window_data_def window_upd_def)
next
  case (2 s)
  obtain b ptr where r: "bio_devs s r = Some b" "bd_driver b = Mem ptr" using window_facts(7)[OF 2] by blast
  show ?case using overwrite_same[OF window_facts(1)[OF 2]] set_memory_simps[OF r]
    by (simp add: window_data_def window_upd_def)
next
  case (3 s x y)
  obtain b ptr where r: "bio_devs s r = Some b" "bd_driver b = Mem ptr" using window_facts(7)[OF 3(1)] by blast
  note m = set_memory_simps[OF r]
  have "base + length x \<le> length (memory s r)" "length x = length y"
    using 3 window_facts(1)[OF 3(1)] length_window_data[OF 3(1)] by simp_all
  thus ?case using m(1,2) by (simp add: window_upd_def overwrite_over)
next
  case (4 s)
  thus ?case using length_window_data[OF 4] window_facts(2)[OF 4] by simp
qed

interpretation wb: block_device "\<lambda>s. window s d r base n" "window_data r base n" "window_upd r base" 512
    "bio_read_block d" "bio_write_block d" for d r base n
proof (unfold_locales, goal_cases)
  case (2 s)
  thus ?case using length_window_data[OF 2] window_facts(2,4)[OF 2] by simp
next
  case (3 s count block at buf)
  note l = length_window_data[OF 3(1)]
  have r: "(unat block + unat count) * 512 \<le> n" "at + unat count * 512 \<le> length buf" using 3 l by simp_all
  from bio_read_block_ok[OF 3(1,2) this] show ?case
    using window_read_slice[of "unat block * 512" "unat count * 512" n base s r] r(1) by (simp add: distrib_right)
next
  case (4 s count block at src)
  note l = length_window_data[OF 4(1)]
  have r: "(unat block + unat count) * 512 \<le> n" "at + unat count * 512 \<le> length src" using 4 l by simp_all
  from bio_write_block_ok[OF 4(1,2) this] show ?case
    using window_write_slice[OF 4(1), of "unat block * 512" "take (unat count * 512) (drop at src)"] r by (simp add: distrib_right)
qed simp

interpretation bv: byte_device "\<lambda>s. window s d r base n" "window_data r base n" "window_upd r base" "bio_read d" "bio_write d"
  for d r base n
proof (unfold_locales, goal_cases)
  case (1 s off len k at buf)
  note l = length_window_data[OF 1(1)]
  have "unat off + k \<le> n \<or> k = 0" using 1(4) l by (auto simp: clip_def)
  hence "take k (drop (base + unat off) (memory s r)) = take k (drop (unat off) (window_data r base n s))"
    using window_read_slice by auto
  thus ?case using bio_read_ok[OF 1(1,2,3), of at buf] 1(4,5) l by simp
next
  case (2 s off len k at src)
  note l = length_window_data[OF 2(1)]
  show ?case
  proof (cases "k = 0")
    case True
    thus ?thesis using bio_write_ok[OF 2(1,2,3), of at src] 2(4,5) l ws.upd_data[OF 2(1)] by simp
  next
    case False
    have "unat off + k \<le> n" using False 2(4) l by (auto simp: clip_def)
    thus ?thesis using bio_write_ok[OF 2(1,2,3), of at src] 2(4,5) l False
        window_write_slice[OF 2(1), of "unat off" "take k (drop at src)"] by simp
  qed
qed

lemma bio_erase_ok:
  assumes "window s d r base n" "unat off < 2 ^ 63" "unat off + unat len < 2 ^ 64"
  shows "bio_erase d off len s = Some (int (clip n off len),
    if clip n off len = 0 then s
    else set_memory r (overwrite (memory s r) (base + unat off) (replicate (clip n off len) 0)) s)"
  using assms
proof (induction arbitrary: off len rule: window.induct)
  case (mem d b ptr n)
  have s0: "\<not> sint off < 0" using sint_eq_unat[OF mem.prems(1)] by simp
  have w: "window s d d 0 n" by (rule window.mem[OF mem(1-6)])
  show ?case
  proof (cases "bd_size b \<le> off \<or> len = 0")
    case True
    hence "clip n off len = 0" using mem by (auto simp: clip_def word_le_nat_alt)
    thus ?thesis using True mem s0 by (subst bio_erase.simps) (auto simp: geometry_def)
  next
    case False
    let ?len = "if bd_size b < off + len then bd_size b - off else len"
    have u: "unat ?len = clip n off len" using clip_len[of off len "bd_size b"] mem False by (simp add: not_le)
    have c: "unat off + clip n off len \<le> n" "clip n off len \<noteq> 0"
      using False mem by (auto simp: clip_def word_le_nat_alt unat_gt_0)
    hence "unat ?len < 2 ^ 63" using u mem by simp
    from sint_eq_unat[OF this] have si: "sint ?len = int (clip n off len)" using u by simp
    have "bio_default_erase d off ?len s =
        Some (sint ?len, window_upd d 0 (overwrite (window_data d 0 n s) (unat off) (replicate (unat ?len) 0)) s)"
      using bv.erase_loop[OF w, of off ?len ?len] u c length_window_data[OF w]
      by (simp add: bio_default_erase_def ERASE_BUF_SIZE_def)
    moreover have "window_upd d 0 (overwrite (window_data d 0 n s) (unat off) (replicate (unat ?len) 0)) s =
        set_memory d (overwrite (memory s d) (unat off) (replicate (unat ?len) 0)) s"
      using window_write_slice[OF w, of "unat off" "replicate (unat ?len) 0"] u c by simp
    ultimately have "bio_default_erase d off ?len s =
        Some (int (clip n off len), set_memory d (overwrite (memory s d) (unat off) (replicate (clip n off len) 0)) s)"
      by (simp only: si u)
    thus ?thesis using False mem s0 c(2) by (subst bio_erase.simps) (simp add: geometry_def Let_def)
  qed
next
  case (sub d b p start r base m base' n)
  have f: "base + m < 2 ^ 32" using window_facts[OF sub(4)] by simp
  have s0: "\<not> sint off < 0" using sint_eq_unat[OF sub.prems(1)] by simp
  show ?case
  proof (cases "bd_size b \<le> off \<or> len = 0")
    case True
    hence "clip n off len = 0" using sub by (auto simp: clip_def word_le_nat_alt)
    thus ?thesis using True sub s0 by (subst bio_erase.simps) (auto simp: geometry_def)
  next
    case False
    let ?len = "if bd_size b < off + len then bd_size b - off else len" and ?off = "off + ucast start * 512"
    note o = sub_offset[OF sub(3,4,5,7) sub.prems(2) False]
    have "bio_erase p ?off ?len s = Some (int (clip m ?off ?len), if clip m ?off ?len = 0 then s
        else set_memory r (overwrite (memory s r) (base + unat ?off) (replicate (clip m ?off ?len) 0)) s)"
      using sub.prems o f by (intro sub.IH) simp_all
    moreover have "base + unat ?off = base' + unat off" using o sub by simp
    ultimately have "bio_erase p ?off ?len s = Some (int (clip n off len), if clip n off len = 0 then s
        else set_memory r (overwrite (memory s r) (base' + unat off) (replicate (clip n off len) 0)) s)"
      by (simp only: o)
    thus ?thesis using False sub(1-3) s0 by (subst bio_erase.simps) (simp add: geometry_def subdev_erase_def Let_def)
  qed
qed

section \<open>References\<close>

definition children :: "bio \<Rightarrow> nat \<Rightarrow> nat set" where
  "children s d = {e. \<exists>b start. bio_devs s e = Some b \<and> bd_driver b = Subdev d start}"

text \<open>The shape of a device: parents are older, subdevices lie inside their parent.\<close>

definition dev_wf :: "bio \<Rightarrow> nat \<Rightarrow> bdev \<Rightarrow> bool" where
  "dev_wf s d b \<longleftrightarrow> d < bio_next s \<and> bd_block_size b = 512 \<and> bd_size b = ucast (bd_block_count b) * 512 \<and>
     (case bd_driver b of
        Plain \<Rightarrow> False
      | Mem ptr \<Rightarrow> unat (bd_size b) \<le> length ptr \<and> unat (bd_size b) < 2 ^ 32
      | Subdev p start \<Rightarrow> p < d \<and> (\<exists>pb. bio_devs s p = Some pb \<and> unat start + unat (bd_block_count b) \<le> unat (bd_block_count pb)))"

text \<open>
  \<open>H d\<close> is how many references to \<open>d\<close> are held outside. A device exists as long as it is
  referenced, and its count is the handles, the registry and its subdevices added up.
\<close>

definition bio_inv :: "(nat \<Rightarrow> nat) \<Rightarrow> bio \<Rightarrow> bool" where
  "bio_inv H s \<longleftrightarrow> distinct (bdevs s) \<and>
     (\<forall>d b. bio_devs s d = Some b \<longrightarrow> dev_wf s d b \<and> 0 < bd_ref b \<and>
        bd_ref b = int (H d + (if d \<in> set (bdevs s) then 1 else 0) + card (children s d))) \<and>
     (\<forall>d. bio_devs s d = None \<longrightarrow> H d = 0 \<and> d \<notin> set (bdevs s))"

lemma finite_children:
  assumes "bio_inv H s"
  shows "finite (children s d)"
proof -
  have "children s d \<subseteq> {..<bio_next s}" using assms by (auto simp: children_def bio_inv_def dev_wf_def)
  thus ?thesis by (rule finite_subset) simp
qed

lemma bio_invD:
  assumes "bio_inv H s" "bio_devs s d = Some b"
  shows "dev_wf s d b" "0 < bd_ref b" "bd_ref b = int (H d + (if d \<in> set (bdevs s) then 1 else 0) + card (children s d))"
  using assms unfolding bio_inv_def by blast+

lemma bio_inv_parents:
  assumes "bio_inv H s"
  shows "\<forall>e b q start. bio_devs s e = Some b \<and> bd_driver b = Subdev q start \<longrightarrow> q < e"
proof (intro allI impI, elim conjE)
  fix e b q start assume "bio_devs s e = Some b" "bd_driver b = Subdev q start"
  thus "q < e" using bio_invD(1)[OF assms, of e b] by (simp add: dev_wf_def)
qed

lemma bio_inv_window:
  assumes inv: "bio_inv H s"
  shows "bio_devs s d = Some b \<Longrightarrow> \<exists>r base. window s d r base (unat (bd_size b))"
proof (induction d arbitrary: b rule: less_induct)
  case (less d)
  note i = bio_invD[OF inv less.prems]
  have g: "geometry b" using i by (simp add: geometry_def dev_wf_def)
  show ?case
  proof (cases "bd_driver b")
    case (Mem ptr)
    hence "unat (bd_size b) \<le> length ptr" "unat (bd_size b) < 2 ^ 32" using i(1) unfolding dev_wf_def by auto
    from window.mem[OF less.prems Mem g this refl] show ?thesis by blast
  next
    case (Subdev p start)
    then obtain pb where pb: "p < d" "bio_devs s p = Some pb" "unat start + unat (bd_block_count b) \<le> unat (bd_block_count pb)"
      using i(1) by (auto simp: dev_wf_def)
    obtain r base where w: "window s p r base (unat (bd_size pb))" using less.IH[OF pb(1,2)] by blast
    have "geometry pb" using bio_invD[OF inv pb(2)] by (simp add: geometry_def dev_wf_def)
    hence "unat start * 512 + unat (bd_size b) \<le> unat (bd_size pb)" using geometry_size[OF g] geometry_size[of pb] pb(3) by simp
    from window.sub[OF less.prems Subdev g w this refl refl] show ?thesis by blast
  qed (use i(1) in \<open>simp add: dev_wf_def\<close>)
qed

lemma set_ref_simps [simp]:
  "bio_devs (set_ref d k s) = (bio_devs s)(d := map_option (bd_ref_update (\<lambda>_. k)) (bio_devs s d))"
  "bdevs (set_ref d k s) = bdevs s" "bio_next (set_ref d k s) = bio_next s"
  by (simp_all add: set_ref_def)

lemma children_set_ref [simp]: "children (set_ref d k s) e = children s e"
  by (auto simp: children_def set_ref_def split: if_splits)

lemma dev_wf_set_ref [simp]:
  "dev_wf (set_ref d k s) e (b\<lparr>bd_ref := x\<rparr>) = dev_wf s e b" "dev_wf (set_ref d k s) e b = dev_wf s e b"
proof -
  have "(\<exists>pb. bio_devs (set_ref d k s) p = Some pb \<and> n \<le> unat (bd_block_count pb)) =
      (\<exists>pb. bio_devs s p = Some pb \<and> n \<le> unat (bd_block_count pb))" for p n
    by (cases "bio_devs s p") (auto simp: set_ref_def)
  thus "dev_wf (set_ref d k s) e (b\<lparr>bd_ref := x\<rparr>) = dev_wf s e b" "dev_wf (set_ref d k s) e b = dev_wf s e b"
    by (simp_all add: dev_wf_def set_ref_def split: driver.splits)
qed

lemma dev_wf_ref [simp]: "dev_wf s e (b\<lparr>bd_ref := x\<rparr>) = dev_wf s e b"
  by (simp add: dev_wf_def split: driver.splits)

lemma set_ref_inv:
  assumes inv: "bio_inv H s" and d: "bio_devs s d = Some b"
    and k: "k = int (n + (if d \<in> set (bdevs s) then 1 else 0) + card (children s d))" "0 < k"
  shows "bio_inv (H(d := n)) (set_ref d k s)"
  unfolding bio_inv_def
proof (intro conjI allI impI)
  show "distinct (bdevs (set_ref d k s))" using inv by (simp add: bio_inv_def set_ref_def)
next
  fix e b' assume e: "bio_devs (set_ref d k s) e = Some b'"
  have "dev_wf (set_ref d k s) e b' \<and> 0 < bd_ref b' \<and>
    bd_ref b' = int ((H(d := n)) e + (if e \<in> set (bdevs s) then 1 else 0) + card (children s e))"
  proof (cases "e = d")
    case True
    hence "b' = b\<lparr>bd_ref := k\<rparr>" using e d by simp
    thus ?thesis using True k bio_invD(1)[OF inv d] by simp
  next
    case False
    hence "bio_devs s e = Some b'" using e by simp
    from bio_invD[OF inv this] show ?thesis using False by simp
  qed
  thus "dev_wf (set_ref d k s) e b'" "0 < bd_ref b'"
    "bd_ref b' = int ((H(d := n)) e + (if e \<in> set (bdevs (set_ref d k s)) then 1 else 0) + card (children (set_ref d k s) e))"
    unfolding set_ref_simps children_set_ref by blast+
next
  fix e assume "bio_devs (set_ref d k s) e = None"
  thus "(H(d := n)) e = 0" "e \<notin> set (bdevs (set_ref d k s))"
    using inv d by (auto simp: bio_inv_def split: if_splits)
qed

lemma inc_ref_inv:
  assumes "bio_inv H s" "bio_devs s d = Some b"
  shows "bdev_inc_ref d s = Some (set_ref d (bd_ref b + 1) s)" "bio_inv (H(d := Suc (H d))) (set_ref d (bd_ref b + 1) s)"
proof -
  show "bdev_inc_ref d s = Some (set_ref d (bd_ref b + 1) s)" using assms(2) by (simp add: bdev_inc_ref_def)
  show "bio_inv (H(d := Suc (H d))) (set_ref d (bd_ref b + 1) s)"
    using bio_invD[OF assms] by (intro set_ref_inv[OF assms]) auto
qed

definition set_dev :: "nat \<Rightarrow> bdev option \<Rightarrow> bio \<Rightarrow> bio" where
  "set_dev d x s = s\<lparr>bio_devs := (bio_devs s)(d := x)\<rparr>"

lemma set_dev_simps [simp]:
  "bio_devs (set_dev d x s) = (bio_devs s)(d := x)" "bdevs (set_dev d x s) = bdevs s" "bio_next (set_dev d x s) = bio_next s"
  "set_dev d y (set_dev d x s) = set_dev d y s" "set_dev d (bio_devs s d) s = s"
  by (simp_all add: set_dev_def)

lemma set_dev_commute: "d \<noteq> e \<Longrightarrow> set_dev d x (set_dev e y s) = set_dev e y (set_dev d x s)"
  by (simp add: set_dev_def fun_upd_twist)

lemma set_ref_dev: "bio_devs s d = Some b \<Longrightarrow> set_ref d k s = set_dev d (Some (b\<lparr>bd_ref := k\<rparr>)) s"
  by (simp add: set_ref_def set_dev_def)

lemma dec_ref_simps:
  "bio_devs s d = Some b \<Longrightarrow> bdev_dec_ref d s =
     (if bd_ref b = 1
      then if d \<in> set (bdevs s) then None
           else (case bd_driver b of Subdev p start \<Rightarrow> bdev_dec_ref p (set_ref d 0 s) | _ \<Rightarrow> Some (set_ref d 0 s)) \<bind>
             (\<lambda>s. Some (set_dev d None s))
      else Some (set_ref d (bd_ref b - 1) s))"
  by (subst bdev_dec_ref.simps) (auto simp: Let_def set_dev_def split: driver.splits)

text \<open>Dropping a reference to \<open>p\<close> touches only \<open>p\<close> and its ancestors, which are older.\<close>

lemma dec_ref_frame:
  assumes "\<forall>e b q start. bio_devs s e = Some b \<and> bd_driver b = Subdev q start \<longrightarrow> q < e" "p < d" "bdev_dec_ref p s = Some s'"
  shows "bdev_dec_ref p (set_dev d x s) = Some (set_dev d x s')"
  using assms
proof (induction p arbitrary: s s' rule: less_induct)
  case (less p)
  obtain b where b: "bio_devs s p = Some b"
    using less.prems(3) by (cases "bio_devs s p") (simp_all add: bdev_dec_ref.simps[of p s])
  have bx: "bio_devs (set_dev d x s) p = Some b" using b less.prems(2) by simp
  have c: "set_ref p k (set_dev d x s) = set_dev d x (set_ref p k s)" for k
    using less.prems(2) b bx by (simp add: set_ref_dev set_dev_commute)
  note e = dec_ref_simps[OF b] dec_ref_simps[OF bx]
  show ?case
  proof (cases "bd_ref b = 1 \<and> (\<exists>q start. bd_driver b = Subdev q start)")
    case True
    then obtain q start where q: "bd_driver b = Subdev q start" by blast
    hence qp: "q < p" using less.prems(1) b by blast
    from less.prems(3) True q obtain s1 where s1: "bdev_dec_ref q (set_ref p 0 s) = Some s1" "s' = set_dev p None s1" "p \<notin> set (bdevs s)"
      unfolding e by (auto split: if_splits bind_splits)
    have w: "\<forall>e b q start. bio_devs (set_ref p 0 s) e = Some b \<and> bd_driver b = Subdev q start \<longrightarrow> q < e"
      using less.prems(1) b by auto
    have "bdev_dec_ref q (set_dev d x (set_ref p 0 s)) = Some (set_dev d x s1)"
      using less.IH[OF qp w _ s1(1)] qp less.prems(2) by simp
    thus ?thesis using True q s1 less.prems(2) by (simp add: e c set_dev_commute[of p d])
  next
    case False
    thus ?thesis using less.prems e c by (auto simp: set_dev_commute[of p d] split: if_splits driver.splits)
  qed
qed

text \<open>Taking an unreferenced device out of the table hands its reference to the parent back.\<close>

definition give_back :: "bdev \<Rightarrow> (nat \<Rightarrow> nat) \<Rightarrow> nat \<Rightarrow> nat" where
  "give_back b H = (case bd_driver b of Subdev p start \<Rightarrow> H(p := Suc (H p)) | _ \<Rightarrow> H)"

lemma children_delete:
  assumes "bio_devs s d = Some b"
  shows "children (set_dev d None s) e = children s e - {d}" "d \<in> children s e \<longleftrightarrow> (\<exists>start. bd_driver b = Subdev e start)"
  using assms by (auto simp: children_def)

lemma delete_inv:
  assumes inv: "bio_inv H s" and b: "bio_devs s d = Some b" and h: "H d = 1" "bd_ref b = 1"
  shows "bio_inv (give_back b (H(d := 0))) (set_dev d None s)"
proof -
  have i: "d \<notin> set (bdevs s)" "children s d = {}"
    using bio_invD(3)[OF inv b] h finite_children[OF inv, of d] by (auto split: if_splits)
  have wf: "dev_wf (set_dev d None s) e b'" if "bio_devs s e = Some b'" "e \<noteq> d" for e b'
  proof -
    have "\<not> (\<exists>start. bd_driver b' = Subdev d start)" using i(2) that by (auto simp: children_def)
    thus ?thesis using bio_invD(1)[OF inv that(1)] by (auto simp: dev_wf_def split: driver.splits)
  qed
  have pd: "bd_driver b = Subdev p start \<Longrightarrow> p \<noteq> d \<and> bio_devs s p \<noteq> None" for p start
    using bio_invD(1)[OF inv b] by (auto simp: dev_wf_def)
  have rf: "give_back b (H(d := 0)) e + card (children (set_dev d None s) e) = H e + card (children s e)" if "e \<noteq> d" for e
  proof (cases "d \<in> children s e")
    case True
    then obtain start where st: "bd_driver b = Subdev e start" using children_delete(2)[OF b] by blast
    have "card (children s e) = Suc (card (children s e - {d}))"
      using card_Suc_Diff1[OF finite_children[OF inv] True] by (rule sym)
    thus ?thesis using st that by (simp add: give_back_def children_delete(1)[OF b])
  next
    case False
    hence "\<not> (\<exists>start. bd_driver b = Subdev e start)" using children_delete(2)[OF b] by blast
    hence "give_back b (H(d := 0)) e = H e" using that by (cases "bd_driver b") (auto simp: give_back_def)
    thus ?thesis using False by (simp add: children_delete(1)[OF b])
  qed
  show ?thesis
    unfolding bio_inv_def
  proof (intro conjI allI impI)
    show "distinct (bdevs (set_dev d None s))" using inv by (simp add: bio_inv_def)
  next
    fix e b' assume "bio_devs (set_dev d None s) e = Some b'"
    hence e: "e \<noteq> d" "bio_devs s e = Some b'" by (auto split: if_splits)
    show "dev_wf (set_dev d None s) e b'" by (rule wf[OF e(2,1)])
    show "0 < bd_ref b'" by (rule bio_invD(2)[OF inv e(2)])
    show "bd_ref b' = int (give_back b (H(d := 0)) e + (if e \<in> set (bdevs (set_dev d None s)) then 1 else 0) + card (children (set_dev d None s) e))"
      using bio_invD(3)[OF inv e(2)] rf[OF e(1)] by simp
  next
    fix e assume e: "bio_devs (set_dev d None s) e = None"
    hence "e = d \<or> bio_devs s e = None" by (auto split: if_splits)
    thus "give_back b (H(d := 0)) e = 0" "e \<notin> set (bdevs (set_dev d None s))"
      using inv i(1) pd by (auto simp: bio_inv_def give_back_def split: driver.splits)
  qed
qed

lemma dec_ref_inv:
  "bio_inv H s \<Longrightarrow> 0 < H d \<Longrightarrow> \<exists>s'. bdev_dec_ref d s = Some s' \<and> bio_inv (H(d := H d - 1)) s' \<and> bdevs s' = bdevs s"
proof (induction d arbitrary: H s rule: less_induct)
  case (less d)
  obtain b where b: "bio_devs s d = Some b" using less.prems by (cases "bio_devs s d") (auto simp: bio_inv_def)
  note i = bio_invD[OF less.prems(1) b]
  show ?case
  proof (cases "bd_ref b = 1")
    case False
    hence "bio_inv (H(d := H d - 1)) (set_ref d (bd_ref b - 1) s)"
      using i less.prems(2) by (intro set_ref_inv[OF less.prems(1) b]) auto
    thus ?thesis using False by (simp add: dec_ref_simps[OF b] del: fun_upd_apply)
  next
    case True
    hence h: "H d = 1" "d \<notin> set (bdevs s)" using i(3) less.prems(2) by (auto split: if_splits)
    note del = delete_inv[OF less.prems(1) b h(1) True]
    show ?thesis
    proof (cases "bd_driver b")
      case (Subdev p start)
      have pd: "p < d" using i(1) Subdev by (simp add: dev_wf_def)
      let ?H = "H(d := 0, p := Suc (H p))"
      have g: "bio_inv ?H (set_dev d None s)" using del Subdev pd by (simp add: give_back_def)
      have e: "?H(p := ?H p - 1) = H(d := 0)" by (rule ext) (use pd in auto)
      have "0 < ?H p" by simp
      from less.IH[OF pd g this, unfolded e] obtain s' where s': "bdev_dec_ref p (set_dev d None s) = Some s'"
        "bio_inv (H(d := 0)) s'" "bdevs s' = bdevs (set_dev d None s)" by blast
      note w = bio_inv_parents[OF del]
      have n: "set_dev d None s' = s'" using dec_ref_frame[OF w pd s'(1), of None] s'(1) by simp
      have "bdev_dec_ref p (set_ref d 0 s) = Some (set_dev d (Some (b\<lparr>bd_ref := 0\<rparr>)) s')"
        using dec_ref_frame[OF w pd s'(1), of "Some (b\<lparr>bd_ref := 0\<rparr>)"] by (simp add: set_ref_dev[OF b])
      thus ?thesis using True h s' n Subdev by (simp add: dec_ref_simps[OF b] del: fun_upd_apply)
    next
      case (Mem ptr)
      thus ?thesis using True h del by (simp add: dec_ref_simps[OF b] give_back_def set_ref_dev[OF b] del: fun_upd_apply)
    qed (use i(1) in \<open>simp add: dev_wf_def\<close>)
  qed
qed

lemma open_walk_ok:
  assumes inv: "bio_inv H s"
  shows "set es \<subseteq> set (bdevs s) \<Longrightarrow> \<exists>f. open_walk name es s = Some f \<and>
    (case f of None \<Rightarrow> \<forall>d\<in>set es. \<forall>b. bio_devs s d = Some b \<longrightarrow> bd_name b \<noteq> name
     | Some d \<Rightarrow> d \<in> set es \<and> (\<exists>b. bio_devs s d = Some b \<and> bd_name b = name))"
proof (induction es)
  case (Cons e es)
  hence "e \<in> set (bdevs s)" by simp
  then obtain b where b: "bio_devs s e = Some b" using inv by (cases "bio_devs s e") (auto simp: bio_inv_def)
  have r: "0 < bd_ref b" by (rule bio_invD(2)[OF inv b])
  show ?case
  proof (cases "bd_name b = name")
    case True
    thus ?thesis using b r by simp
  next
    case False
    from Cons obtain f where f: "open_walk name es s = Some f" "case f of None \<Rightarrow> \<forall>d\<in>set es. \<forall>b. bio_devs s d = Some b \<longrightarrow> bd_name b \<noteq> name
     | Some d \<Rightarrow> d \<in> set es \<and> (\<exists>b. bio_devs s d = Some b \<and> bd_name b = name)" by auto
    thus ?thesis using False b r by (auto split: option.splits)
  qed
qed simp

lemma bio_open_inv:
  assumes inv: "bio_inv H s"
  shows "(\<exists>d b. bio_open name s = Some (Some d, set_ref d (bd_ref b + 1) s) \<and> d \<in> set (bdevs s) \<and> bio_devs s d = Some b \<and>
      bd_name b = name \<and> bio_inv (H(d := Suc (H d))) (set_ref d (bd_ref b + 1) s)) \<or>
    bio_open name s = Some (None, s) \<and> (\<forall>d\<in>set (bdevs s). \<forall>b. bio_devs s d = Some b \<longrightarrow> bd_name b \<noteq> name)"
proof -
  obtain f where f: "open_walk name (bdevs s) s = Some f" "case f of None \<Rightarrow> \<forall>d\<in>set (bdevs s). \<forall>b. bio_devs s d = Some b \<longrightarrow> bd_name b \<noteq> name
     | Some d \<Rightarrow> d \<in> set (bdevs s) \<and> (\<exists>b. bio_devs s d = Some b \<and> bd_name b = name)"
    using open_walk_ok[OF inv subset_refl, of name] by blast
  show ?thesis
  proof (cases f)
    case None
    thus ?thesis using f by (simp add: bio_open_def)
  next
    case (Some d)
    then obtain b where b: "d \<in> set (bdevs s)" "bio_devs s d = Some b" "bd_name b = name" using f by auto
    note i = inc_ref_inv[OF inv b(2)]
    have "bio_open name s = Some (Some d, set_ref d (bd_ref b + 1) s)" using f(1) Some i(1) by (simp add: bio_open_def)
    thus ?thesis using b i(2) by blast
  qed
qed

lemma unregister_inv:
  assumes inv: "bio_inv H s" and d: "d \<in> set (bdevs s)"
  shows "\<exists>s'. bio_unregister_device d s = Some s' \<and> bio_inv H s'"
proof -
  let ?s = "s\<lparr>bdevs := remove1 d (bdevs s)\<rparr>" and ?H = "H(d := Suc (H d))"
  have dist: "distinct (bdevs s)" using inv by (simp add: bio_inv_def)
  have c: "children ?s e = children s e" for e by (simp add: children_def)
  have wf: "dev_wf ?s e b = dev_wf s e b" for e b by (simp add: dev_wf_def split: driver.splits)
  have i: "bio_inv ?H ?s"
    unfolding bio_inv_def
  proof (intro conjI allI impI)
    show "distinct (bdevs ?s)" using dist by (simp add: distinct_remove1)
  next
    fix e b assume "bio_devs ?s e = Some b"
    hence e: "bio_devs s e = Some b" by simp
    show "dev_wf ?s e b" "0 < bd_ref b" using bio_invD[OF inv e] wf by simp_all
    show "bd_ref b = int (?H e + (if e \<in> set (bdevs ?s) then 1 else 0) + card (children ?s e))"
      using bio_invD(3)[OF inv e] d dist c by (auto simp: set_remove1_eq)
  next
    fix e assume "bio_devs ?s e = None"
    hence "H e = 0" "e \<notin> set (bdevs s)" using inv by (auto simp: bio_inv_def)
    thus "?H e = 0" "e \<notin> set (bdevs ?s)" using d dist by (auto simp: set_remove1_eq)
  qed
  have "0 < ?H d" by simp
  from dec_ref_inv[OF i this] have "\<exists>s'. bdev_dec_ref d ?s = Some s' \<and> bio_inv (?H(d := ?H d - 1)) s'" by blast
  moreover have "?H(d := ?H d - 1) = H" by (rule ext) auto
  ultimately show ?thesis by (simp only: bio_unregister_device_def)
qed

text \<open>A new device takes over one reference to its parent.\<close>

definition take_over :: "bdev \<Rightarrow> (nat \<Rightarrow> nat) \<Rightarrow> nat \<Rightarrow> nat" where
  "take_over b H = (case bd_driver b of Subdev p start \<Rightarrow> H(p := H p - 1) | _ \<Rightarrow> H)"

definition added :: "bdev \<Rightarrow> bio \<Rightarrow> bio" where
  "added b s = s\<lparr>bdevs := bio_next s # bdevs s, bio_devs := (bio_devs s)(bio_next s \<mapsto> b\<lparr>bd_ref := 1\<rparr>), bio_next := Suc (bio_next s)\<rparr>"

lemma new_register:
  assumes "bd_ref b = 0"
  shows "bio_register_device (fst (new_device b s)) (snd (new_device b s)) = Some (added b s)"
  using assms by (simp add: new_device_def bio_register_device_def bdev_inc_ref_def set_ref_def added_def)

lemma add_device_inv:
  assumes inv: "bio_inv H s"
    and b: "bd_block_size b = 512" "bd_size b = ucast (bd_block_count b) * 512"
      "case bd_driver b of Plain \<Rightarrow> False | Mem ptr \<Rightarrow> unat (bd_size b) \<le> length ptr \<and> unat (bd_size b) < 2 ^ 32
       | Subdev p start \<Rightarrow> 0 < H p \<and> (\<exists>pb. bio_devs s p = Some pb \<and> unat start + unat (bd_block_count b) \<le> unat (bd_block_count pb))"
  shows "bio_inv (take_over b H) (added b s)"
proof -
  let ?n = "bio_next s" and ?b = "b\<lparr>bd_ref := 1\<rparr>"
  have lt: "bio_devs s e = Some b' \<Longrightarrow> e < ?n" for e b' using bio_invD(1)[OF inv, of e b'] by (simp add: dev_wf_def)
  have fresh: "bio_devs s ?n = None" using lt[of ?n] by (cases "bio_devs s ?n") auto
  hence nf: "H ?n = 0" "?n \<notin> set (bdevs s)" using inv by (auto simp: bio_inv_def)
  have par: "bd_driver b' = Subdev p start \<Longrightarrow> bio_devs s e = Some b' \<Longrightarrow> p < ?n" for e b' p start
    using bio_inv_parents[OF inv] lt by fastforce
  have ch: "children (added b s) e = (if \<exists>start. bd_driver b = Subdev e start then insert ?n (children s e) else children s e)" for e
    using fresh by (auto simp: children_def added_def)
  have nc: "?n \<notin> children s e" for e using fresh by (simp add: children_def)
  have pb: "bd_driver b = Subdev p start \<Longrightarrow> 0 < H p \<and> p < ?n" for p start using b(3) lt by auto
  have rf: "take_over b H e + card (children (added b s) e) = H e + card (children s e)" for e
  proof (cases "\<exists>start. bd_driver b = Subdev e start")
    case True
    thus ?thesis using pb nc[of e] finite_children[OF inv, of e] ch[of e] by (auto simp: take_over_def)
  next
    case False
    thus ?thesis using ch[of e] by (cases "bd_driver b") (auto simp: take_over_def)
  qed
  have wf: "dev_wf (added b s) e b'" if "bio_devs s e = Some b'" for e b'
  proof -
    have "bio_devs (added b s) p = bio_devs s p" if "p < e" for p using that lt[OF \<open>bio_devs s e = Some b'\<close>] by (simp add: added_def)
    thus ?thesis using bio_invD(1)[OF inv that] by (auto simp: dev_wf_def added_def split: driver.splits)
  qed
  have cn: "children s ?n = {}" using par by (fastforce simp: children_def)
  show ?thesis
    unfolding bio_inv_def
  proof (intro conjI allI impI)
    show "distinct (bdevs (added b s))" using inv nf by (simp add: bio_inv_def added_def)
  next
    fix e b' assume e: "bio_devs (added b s) e = Some b'"
    have "dev_wf (added b s) e b' \<and> 0 < bd_ref b' \<and> bd_ref b' =
        int (take_over b H e + (if e \<in> set (bdevs (added b s)) then 1 else 0) + card (children (added b s) e))"
    proof (cases "e = ?n")
      case True
      hence b': "b' = ?b" using e by (simp add: added_def)
      have "dev_wf (added b s) ?n ?b" using b pb by (auto simp: dev_wf_def added_def split: driver.splits)
      moreover have "take_over b H ?n + card (children (added b s) ?n) = 0" using rf[of ?n] nf cn by simp
      ultimately show ?thesis using True b' by (simp add: added_def)
    next
      case False
      hence s: "bio_devs s e = Some b'" using e by (simp add: added_def)
      show ?thesis using bio_invD[OF inv s] wf[OF s] rf[of e] False by (simp add: added_def)
    qed
    thus "dev_wf (added b s) e b'" "0 < bd_ref b'"
      "bd_ref b' = int (take_over b H e + (if e \<in> set (bdevs (added b s)) then 1 else 0) + card (children (added b s) e))" by blast+
  next
    fix e assume e: "bio_devs (added b s) e = None"
    hence s: "e \<noteq> ?n" "bio_devs s e = None" by (auto simp: added_def split: if_splits)
    hence "H e = 0" "e \<notin> set (bdevs s)" using inv by (auto simp: bio_inv_def)
    thus "take_over b H e = 0" "e \<notin> set (bdevs (added b s))"
      using s(1) by (auto simp: take_over_def added_def split: driver.splits)
  qed
qed

lemma create_membdev_inv:
  assumes inv: "bio_inv H s" and l: "unat len \<le> length ptr" "unat len < 2 ^ 32"
  shows "\<exists>s'. create_membdev name ptr len s = Some (0, s') \<and> bio_inv H s'"
proof -
  let ?c = "ucast (len div 512) :: u32"
  define b where "b = \<lparr>bd_ref = 0, bd_name = name, bd_size = ucast ?c * 512, bd_block_size = 512, bd_block_count = ?c, bd_driver = Mem ptr\<rparr>"
  have "geometry (b\<lparr>bd_ref := 1\<rparr>)" by (simp add: geometry_def b_def)
  from geometry_size[OF this] have sz: "unat (bd_size b) = unat ?c * 512" by (simp add: b_def)
  have "unat ?c = unat len div 512" using l(2) by (simp add: unsigned_ucast_eq unat_div take_bit_nat_eq_self)
  hence "unat (bd_size b) \<le> unat len" using sz by simp
  hence "bio_inv (take_over b H) (added b s)" using l by (intro add_device_inv[OF inv]) (auto simp: b_def)
  moreover have "take_over b H = H" by (simp add: take_over_def b_def)
  moreover have "create_membdev name ptr len s = Some (0, added b s)"
    using new_register[of b s] by (simp add: create_membdev_def bio_initialize_bdev_def BLOCKSIZE_def b_def new_device_def)
  ultimately show ?thesis by auto
qed

text \<open>The parent that \<^verbatim>\<open>bio_publish_subdevice\<close> finds; when it fails after that, the reference is not given back.\<close>

definition publish_handles :: "string \<Rightarrow> int \<Rightarrow> bio \<Rightarrow> (nat \<Rightarrow> nat) \<Rightarrow> nat \<Rightarrow> nat" where
  "publish_handles name r s H = (case open_walk name (bdevs s) s of
     Some (Some d) \<Rightarrow> if r < 0 then H(d := Suc (H d)) else H | _ \<Rightarrow> H)"

lemma publish_inv:
  assumes inv: "bio_inv H s" and l: "unat start + unat len < 2 ^ 64"
  shows "\<exists>r s'. bio_publish_subdevice name sub start len s = Some (r, s') \<and> bio_inv (publish_handles name r s H) s'"
proof -
  from bio_open_inv[OF inv, of name] consider
    (found) d b where "bio_open name s = Some (Some d, set_ref d (bd_ref b + 1) s)" "bio_devs s d = Some b"
      "bio_inv (H(d := Suc (H d))) (set_ref d (bd_ref b + 1) s)"
  | (missing) "bio_open name s = Some (None, s)" by blast
  thus ?thesis
  proof cases
    case missing
    hence "open_walk name (bdevs s) s = Some None" by (auto simp: bio_open_def bind_Some_iff split: option.splits)
    thus ?thesis using missing inv by (simp add: bio_publish_subdevice_def publish_handles_def)
  next
    case found
    let ?s = "set_ref d (bd_ref b + 1) s" and ?H = "H(d := Suc (H d))"
    have w: "open_walk name (bdevs s) s = Some (Some d)" using found(1) by (auto simp: bio_open_def bind_Some_iff split: option.splits)
    have pb: "bio_devs ?s d = Some (b\<lparr>bd_ref := bd_ref b + 1\<rparr>)" using found(2) by simp
    have bs: "bd_block_size b = 512" using bio_invD(1)[OF inv found(2)] by (simp add: dev_wf_def)
    show ?thesis
    proof (cases "ucast (bd_block_count b) < ucast start + len")
      case True
      hence "bio_publish_subdevice name sub start len s = Some (-1, ?s)"
        using found(1,2) by (simp add: bio_publish_subdevice_def)
      thus ?thesis using found(3) w by (simp add: publish_handles_def)
    next
      case False
      define c where "c = \<lparr>bd_ref = 0, bd_name = sub, bd_size = ucast (ucast len :: u32) * 512, bd_block_size = 512,
        bd_block_count = ucast len, bd_driver = Subdev d start\<rparr>"
      have "unat (ucast start + len) = unat start + unat len" using l unat_add64[of "ucast start" len] by (simp add: unat_u32_u64)
      hence le: "unat start + unat len \<le> unat (bd_block_count b)" using False by (simp add: word_less_nat_alt unat_u32_u64)
      moreover have "unat (bd_block_count b) < 2 ^ 32" using unsigned_less[of "bd_block_count b", where 'a = nat] by simp
      ultimately have "unat (ucast len :: u32) = unat len" by (simp add: unsigned_ucast_eq take_bit_nat_eq_self)
      hence "bio_inv (take_over c ?H) (added c ?s)" using le pb by (intro add_device_inv[OF found(3)]) (auto simp: c_def)
      moreover have "take_over c ?H = H" by (rule ext) (simp add: take_over_def c_def)
      moreover have "bio_publish_subdevice name sub start len s = Some (0, added c ?s)"
        using found(1,2) False new_register[of c ?s] bs
        by (simp add: bio_publish_subdevice_def bio_initialize_bdev_def c_def new_device_def)
      ultimately show ?thesis using w by (simp add: publish_handles_def)
    qed
  qed
qed

lemma set_memory_inv:
  assumes inv: "bio_inv H s" and r: "bio_devs s r = Some br" "bd_driver br = Mem ptr" "length x = length ptr"
  shows "bio_inv H (set_memory r x s)"
proof -
  let ?s = "set_memory r x s"
  have dv: "bio_devs ?s e = (if e = r then Some (br\<lparr>bd_driver := Mem x\<rparr>) else bio_devs s e)" for e
    using r(1) by (simp add: set_memory_def set_driver_def)
  have ch: "children ?s e = children s e" for e using r by (auto simp: children_def dv split: if_splits)
  have ot: "bdevs ?s = bdevs s" "bio_next ?s = bio_next s" by (simp_all add: set_memory_def set_driver_def)
  have pw: "(\<exists>pb. bio_devs ?s p = Some pb \<and> n \<le> unat (bd_block_count pb)) = (\<exists>pb. bio_devs s p = Some pb \<and> n \<le> unat (bd_block_count pb))" for p n
    using r(1) by (auto simp: dv)
  have wf: "dev_wf ?s e b'" if "dev_wf s e b'" for e b' using that unfolding dev_wf_def pw ot .
  show ?thesis
    unfolding bio_inv_def
  proof (intro conjI allI impI)
    show "distinct (bdevs ?s)" using inv ot by (simp add: bio_inv_def)
  next
    fix e b' assume e: "bio_devs ?s e = Some b'"
    have "dev_wf ?s e b' \<and> 0 < bd_ref b' \<and> bd_ref b' = int (H e + (if e \<in> set (bdevs s) then 1 else 0) + card (children s e))"
    proof (cases "e = r")
      case True
      hence "b' = br\<lparr>bd_driver := Mem x\<rparr>" using e dv by simp
      thus ?thesis using True wf[OF bio_invD(1)[OF inv r(1)]] bio_invD(2,3)[OF inv r(1)] r(2,3) by (auto simp: dev_wf_def)
    next
      case False
      hence "bio_devs s e = Some b'" using e dv by simp
      from bio_invD[OF inv this] show ?thesis using wf by blast
    qed
    thus "dev_wf ?s e b'" "0 < bd_ref b'" "bd_ref b' = int (H e + (if e \<in> set (bdevs ?s) then 1 else 0) + card (children ?s e))"
      unfolding ot ch by blast+
  next
    fix e assume "bio_devs ?s e = None"
    hence "bio_devs s e = None" using dv by (auto split: if_splits)
    thus "H e = 0" "e \<notin> set (bdevs ?s)" using inv unfolding ot by (auto simp: bio_inv_def)
  qed
qed

section \<open>Histories\<close>

datatype bio_call =
    Open string
  | Close nat
  | Unregister nat
  | Create_mem string "u8 list" u64
  | Publish string string u32 u64
  | Write nat "u8 list" u64 u64

text \<open>A call on the registry and the handles held outside.\<close>

fun bio_perform :: "bio_call \<Rightarrow> (nat \<Rightarrow> nat) \<times> bio \<Rightarrow> ((nat \<Rightarrow> nat) \<times> bio) option" where
  "bio_perform (Open name) (H, s) = do {
     (r, s) \<leftarrow> bio_open name s; Some (case r of None \<Rightarrow> H | Some d \<Rightarrow> H(d := Suc (H d)), s) }"
| "bio_perform (Close d) (H, s) = do { s \<leftarrow> bio_close d s; Some (H(d := H d - 1), s) }"
| "bio_perform (Unregister d) (H, s) = do { s \<leftarrow> bio_unregister_device d s; Some (H, s) }"
| "bio_perform (Create_mem name ptr len) (H, s) = do { (_, s) \<leftarrow> create_membdev name ptr len s; Some (H, s) }"
| "bio_perform (Publish parent sub start len) (H, s) = do {
     (r, s') \<leftarrow> bio_publish_subdevice parent sub start len s; Some (publish_handles parent r s H, s') }"
| "bio_perform (Write d src off len) (H, s) = do { (_, s) \<leftarrow> bio_write d src 0 off len s; Some (H, s) }"

text \<open>
  Callers close and write devices they hold, take registered devices out, give memory devices
  under 4 GiB their memory, and pass sizes and offsets that do not wrap around.
\<close>

fun bio_allowed :: "bio_call \<Rightarrow> (nat \<Rightarrow> nat) \<times> bio \<Rightarrow> bool" where
  "bio_allowed (Open name) (H, s) = True"
| "bio_allowed (Close d) (H, s) = (0 < H d)"
| "bio_allowed (Unregister d) (H, s) = (d \<in> set (bdevs s))"
| "bio_allowed (Create_mem name ptr len) (H, s) = (unat len \<le> length ptr \<and> unat len < 2 ^ 32)"
| "bio_allowed (Publish parent sub start len) (H, s) = (unat start + unat len < 2 ^ 64)"
| "bio_allowed (Write d src off len) (H, s) =
     (0 < H d \<and> unat off < 2 ^ 63 \<and> unat off + unat len < 2 ^ 64 \<and> unat len \<le> length src)"

inductive bio_reach :: "(nat \<Rightarrow> nat) \<Rightarrow> bio \<Rightarrow> bool" where
  start: "bio_reach (\<lambda>_. 0) bio_init"
| call: "bio_reach H s \<Longrightarrow> bio_allowed k (H, s) \<Longrightarrow> bio_perform k (H, s) = Some (H', s') \<Longrightarrow> bio_reach H' s'"

lemma bio_write_inv:
  assumes inv: "bio_inv H s" and d: "bio_devs s d = Some b" and l: "unat off < 2 ^ 63" "unat off + unat len < 2 ^ 64" "unat len \<le> length src"
  shows "\<exists>n s'. bio_write d src 0 off len s = Some (n, s') \<and> bio_inv H s'"
proof -
  obtain r base where w: "window s d r base (unat (bd_size b))" using bio_inv_window[OF inv d] by blast
  obtain br ptr where r: "bio_devs s r = Some br" "bd_driver br = Mem ptr" using window_facts(7)[OF w] by blast
  let ?k = "clip (unat (bd_size b)) off len"
  have k: "0 + ?k \<le> length src" "unat off + ?k \<le> unat (bd_size b) \<or> ?k = 0" using l by (auto simp: clip_def)
  have "bio_inv H (set_memory r (overwrite (memory s r) (base + unat off) (take ?k (drop 0 src))) s)" if "?k \<noteq> 0"
    using k that window_facts(1)[OF w] set_memory_simps(4)[OF r] by (intro set_memory_inv[OF inv r]) simp
  thus ?thesis using bio_write_ok[OF w l(1,2) k(1)] inv by auto
qed

lemma bio_perform_inv:
  assumes inv: "bio_inv H s" and al: "bio_allowed k (H, s)"
  shows "\<exists>H' s'. bio_perform k (H, s) = Some (H', s') \<and> bio_inv H' s'"
proof (cases k)
  case (Open name)
  from bio_open_inv[OF inv, of name] show ?thesis
  proof (elim disjE exE conjE)
    fix d b assume "bio_open name s = Some (Some d, set_ref d (bd_ref b + 1) s)" "bio_inv (H(d := Suc (H d))) (set_ref d (bd_ref b + 1) s)"
    thus ?thesis using Open by (simp del: fun_upd_apply)
  qed (use Open inv in simp)
next
  case (Close d)
  from dec_ref_inv[OF inv, of d] al Close show ?thesis by (auto simp: bio_close_def simp del: fun_upd_apply)
next
  case (Unregister d)
  from unregister_inv[OF inv, of d] al Unregister show ?thesis by auto
next
  case (Create_mem name ptr len)
  from create_membdev_inv[OF inv, of len ptr name] al Create_mem show ?thesis by auto
next
  case (Publish parent sub start len)
  from publish_inv[OF inv, of start len parent sub] al Publish show ?thesis by auto
next
  case (Write d src off len)
  hence a: "0 < H d" "unat off < 2 ^ 63" "unat off + unat len < 2 ^ 64" "unat len \<le> length src" using al by simp_all
  obtain b where "bio_devs s d = Some b" using inv a(1) by (cases "bio_devs s d") (auto simp: bio_inv_def)
  from bio_write_inv[OF inv this a(2-4)] show ?thesis using Write by auto
qed

lemma bio_reach_inv: "bio_reach H s \<Longrightarrow> bio_inv H s"
proof (induction rule: bio_reach.induct)
  case start
  show ?case by (simp add: bio_inv_def bio_init_def)
next
  case (call H s k H' s')
  from bio_perform_inv[OF call.IH call.hyps(2)] call.hyps(3) show ?case by auto
qed

section \<open>Properties\<close>


text \<open>A memory device of two blocks, published, for the witnesses.\<close>

definition disk :: bdev where
  "disk = \<lparr>bd_ref = 1, bd_name = ''disk'', bd_size = 1024, bd_block_size = 512, bd_block_count = 2,
     bd_driver = Mem (replicate 1024 7)\<rparr>"

definition disk_bio :: bio where
  "disk_bio = \<lparr>bdevs = [0], bio_devs = (\<lambda>_. None)(0 \<mapsto> disk), bio_next = 1\<rparr>"

lemma disk_bio_created: "create_membdev ''disk'' (replicate 1024 7) 1024 bio_init = Some (0, disk_bio)"
  by (simp add: create_membdev_def bio_initialize_bdev_def BLOCKSIZE_def new_device_def bio_register_device_def
      bdev_inc_ref_def set_ref_def bio_init_def disk_bio_def disk_def)

lemma disk_bio_reach: "bio_reach (\<lambda>_. 0) disk_bio"
  by (rule bio_reach.call[OF bio_reach.start, of "Create_mem ''disk'' (replicate 1024 7) 1024"]) (simp_all add: disk_bio_created)

lemma disk_window: "window disk_bio 0 0 0 1024"
  by (rule window.mem[of _ _ disk "replicate 1024 7"]) (simp_all add: disk_bio_def disk_def geometry_def)








text \<open>
  C21: Erasing a range, also through a chain of subdevices, fills exactly the part of it that lies on
  the device with zeros and returns its length; the loop that writes the zeros ends.
\<close>

theorem bio_erase_zeroes:
  assumes w: "window s d r base n" and l: "unat off < 2 ^ 63" "unat off + unat len < 2 ^ 64"
  shows "\<exists>s'. bio_erase d off len s = Some (int (clip n off len), s') \<and>
    memory s' r = overwrite (memory s r) (base + unat off) (replicate (clip n off len) 0)"
proof -
  obtain br ptr where r: "bio_devs s r = Some br" "bd_driver br = Mem ptr" using window_facts(7)[OF w] by blast
  show ?thesis using bio_erase_ok[OF assms] set_memory_simps(1)[OF r] by auto
qed

theorem bio_erase_zeroes_witness:
  "\<exists>s'. bio_erase 0 1000 100 disk_bio = Some (24, s') \<and> memory s' 0 = overwrite (memory disk_bio 0) 1000 (replicate 24 0)"
  using bio_erase_zeroes[OF disk_window, of 1000 100] by (auto simp: clip_def)





end
