(* ===== verification/LK_Bcache.thy ===== *)
theory LK_Bcache
  imports LK_Bio
begin

text \<open>
  The block cache (\<^verbatim>\<open>lib/bcache/bcache.c\<close>) on top of a block device. A cache entry is an index into
  \<open>bc_blocks\<close>; the free list and the list in order of last use are sequences of such indices. The
  operations thread the cache and the state of the block devices. A pointer that
  \<^verbatim>\<open>bcache_get_block\<close> hands out is the index of the entry.

  \<open>None\<close> is an assertion failure or a walk over a broken list. A failed read in
  \<^verbatim>\<open>find_or_fill_block\<close> links an entry into the free list while it still is on the other list and so
  breaks both: that state is recorded in \<open>bc_broken\<close>, which is not a field of the source.

  The theory shows that the cache is transparent: it refines an array of blocks.
\<close>

section \<open>The code\<close>

record bcache_block =
  bb_blocknum :: u32
  bb_ref_count :: int
  bb_is_dirty :: bool
  bb_ptr :: "u8 list"

record bcache_stats =
  bs_hits :: u32
  bs_depth :: u32
  bs_misses :: u32
  bs_reads :: u32
  bs_writes :: u32

record bcache =
  bc_dev :: nat
  bc_block_size :: u64
  bc_count :: nat
  bc_stats :: bcache_stats
  bc_free_list :: "nat list"
  bc_lru_list :: "nat list"
  bc_blocks :: "bcache_block list"
  bc_broken :: bool

text \<open>\<open>junk\<close> is what the newly handed_out memory of the entries holds.\<close>

definition bcache_create :: "(nat \<Rightarrow> u32 \<times> u8 list) \<Rightarrow> nat \<Rightarrow> u64 \<Rightarrow> nat \<Rightarrow> bcache" where
  "bcache_create junk dev bs count =
     \<lparr>bc_dev = dev, bc_block_size = bs, bc_count = count,
      bc_stats = \<lparr>bs_hits = 0, bs_depth = 0, bs_misses = 0, bs_reads = 0, bs_writes = 0\<rparr>,
      bc_free_list = rev [0..<count], bc_lru_list = [],
      bc_blocks = map (\<lambda>i. \<lparr>bb_blocknum = fst (junk i), bb_ref_count = 0, bb_is_dirty = False, bb_ptr = snd (junk i)\<rparr>) [0..<count],
      bc_broken = False\<rparr>"

definition upd_block :: "nat \<Rightarrow> (bcache_block \<Rightarrow> bcache_block) \<Rightarrow> bcache \<Rightarrow> bcache" where
  "upd_block i f c = c\<lparr>bc_blocks := (bc_blocks c)[i := f (bc_blocks c ! i)]\<rparr>"

definition block_offset :: "bcache \<Rightarrow> u32 \<Rightarrow> u64" where
  "block_offset c b = ucast b * bc_block_size c"

text \<open>The byte counts of the device are assigned to a 32-bit \<^verbatim>\<open>int\<close>.\<close>

definition to_int :: "int \<Rightarrow> int" where
  "to_int x = sint (of_int x :: 32 word)"

definition flush_block :: "nat \<Rightarrow> bcache \<times> bio \<Rightarrow> (int \<times> bcache \<times> bio) option" where
  "flush_block i = (\<lambda>(c, s). do {
     let b = bc_blocks c ! i;
     (rc, s) \<leftarrow> bio_write (bc_dev c) (bb_ptr b) 0 (block_offset c (bb_blocknum b)) (bc_block_size c) s;
     let rc = to_int rc;
     if rc < 0 then Some (rc, c, s)
     else Some (0, upd_block i (bb_is_dirty_update (\<lambda>_. False)) (c\<lparr>bc_stats := bs_writes_update (\<lambda>n. n + 1) (bc_stats c)\<rparr>), s)
   })"

fun destroy_walk :: "bcache_block list \<Rightarrow> unit option" where
  "destroy_walk [] = Some ()"
| "destroy_walk (b # bs) = do { ASSERT (bb_ref_count b = 0); destroy_walk bs }"

definition bcache_destroy :: "bcache \<Rightarrow> unit option" where
  "bcache_destroy c = destroy_walk (take (bc_count c) (bc_blocks c))"

text \<open>The position of a block number on the list, if it is there.\<close>

fun find_pos :: "(nat \<Rightarrow> bool) \<Rightarrow> nat list \<Rightarrow> nat option" where
  "find_pos p [] = None"
| "find_pos p (i # is) = (if p i then Some 0 else map_option Suc (find_pos p is))"

definition move_to_tail :: "nat \<Rightarrow> bcache \<Rightarrow> bcache" where
  "move_to_tail i c = c\<lparr>bc_lru_list := remove1 i (bc_lru_list c) @ [i]\<rparr>"

definition find_block :: "u32 \<Rightarrow> bcache \<Rightarrow> (nat option \<times> bcache) option" where
  "find_block blocknum c = do {
     ASSERT (\<not> bc_broken c);
     (case find_pos (\<lambda>i. bb_blocknum (bc_blocks c ! i) = blocknum) (bc_lru_list c) of
        Some k \<Rightarrow>
          let i = bc_lru_list c ! k
          in Some (Some i, (move_to_tail i c)\<lparr>bc_stats :=
                bs_depth_update (\<lambda>n. n + of_nat (Suc k)) (bs_hits_update (\<lambda>n. n + 1) (bc_stats c))\<rparr>)
      | None \<Rightarrow> Some (None, c\<lparr>bc_stats := bs_misses_update (\<lambda>n. n + 1) (bc_stats c)\<rparr>))
   }"

definition alloc_block :: "bcache \<times> bio \<Rightarrow> (nat option \<times> bcache \<times> bio) option" where
  "alloc_block = (\<lambda>(c, s).
     case bc_free_list c of
       i # free \<Rightarrow>
         Some (Some i, (upd_block i (bb_ref_count_update (\<lambda>_. 0)) c)\<lparr>bc_free_list := free, bc_lru_list := bc_lru_list c @ [i]\<rparr>, s)
     | [] \<Rightarrow>
         (case find_pos (\<lambda>i. bb_ref_count (bc_blocks c ! i) = 0) (bc_lru_list c) of
            None \<Rightarrow> Some (None, c, s)
          | Some k \<Rightarrow> do {
              let i = bc_lru_list c ! k;
              (err, c, s) \<leftarrow> (if bb_is_dirty (bc_blocks c ! i) then flush_block i (c, s) else Some (0, c, s));
              if err \<noteq> 0 then Some (None, c, s)
              else Some (Some i, move_to_tail i c, s)
            }))"

definition find_or_fill_block :: "u32 \<Rightarrow> bcache \<times> bio \<Rightarrow> (nat option \<times> bcache \<times> bio) option" where
  "find_or_fill_block blocknum = (\<lambda>(c, s). do {
     (found, c) \<leftarrow> find_block blocknum c;
     (block, c, s) \<leftarrow> (case found of
        Some i \<Rightarrow> Some (Some i, c, s)
      | None \<Rightarrow> do {
          (block, c, s) \<leftarrow> alloc_block (c, s);
          i \<leftarrow> block;
          let c = upd_block i (bb_blocknum_update (\<lambda>_. blocknum)) c;
          (err, buf) \<leftarrow> bio_read (bc_dev c) (bb_ptr (bc_blocks c ! i)) 0 (block_offset c blocknum) (bc_block_size c) s;
          let c = upd_block i (bb_ptr_update (\<lambda>_. buf)) c;
          if to_int err < 0 then Some (None, c\<lparr>bc_free_list := bc_free_list c @ [i], bc_broken := True\<rparr>, s)
          else Some (Some i, c\<lparr>bc_stats := bs_reads_update (\<lambda>n. n + 1) (bc_stats c)\<rparr>, s)
        });
     (case block of
        None \<Rightarrow> Some (None, c, s)
      | Some i \<Rightarrow> do { ASSERT (bb_blocknum (bc_blocks c ! i) = blocknum); Some (Some i, c, s) })
   })"

definition bcache_read_block :: "u8 list \<Rightarrow> u32 \<Rightarrow> bcache \<times> bio \<Rightarrow> (int \<times> u8 list \<times> bcache \<times> bio) option" where
  "bcache_read_block buf blocknum cs = do {
     (block, c, s) \<leftarrow> find_or_fill_block blocknum cs;
     (case block of
        None \<Rightarrow> Some (-1, buf, c, s)
      | Some i \<Rightarrow> do {
          d \<leftarrow> memcpy_from (bb_ptr (bc_blocks c ! i)) 0 (unat (bc_block_size c));
          buf \<leftarrow> memcpy_to buf 0 d;
          Some (0, buf, c, s)
        })
   }"

text \<open>The pointer that is returned through the argument is \<open>None\<close> where the code leaves it alone.\<close>

definition bcache_get_block :: "u32 \<Rightarrow> bcache \<times> bio \<Rightarrow> (int \<times> nat option \<times> bcache \<times> bio) option" where
  "bcache_get_block blocknum cs = do {
     (block, c, s) \<leftarrow> find_or_fill_block blocknum cs;
     (case block of
        None \<Rightarrow> Some (-1, None, c, s)
      | Some i \<Rightarrow> Some (0, Some i, upd_block i (bb_ref_count_update (\<lambda>n. n + 1)) c, s))
   }"

definition bcache_put_block :: "u32 \<Rightarrow> bcache \<times> bio \<Rightarrow> (int \<times> bcache \<times> bio) option" where
  "bcache_put_block blocknum = (\<lambda>(c, s). do {
     (found, c) \<leftarrow> find_block blocknum c;
     i \<leftarrow> found;
     ASSERT (0 < bb_ref_count (bc_blocks c ! i));
     Some (0, upd_block i (bb_ref_count_update (\<lambda>n. n - 1)) c, s)
   })"

definition bcache_mark_block_dirty :: "u32 \<Rightarrow> bcache \<times> bio \<Rightarrow> (int \<times> bcache \<times> bio) option" where
  "bcache_mark_block_dirty blocknum = (\<lambda>(c, s). do {
     (found, c) \<leftarrow> find_block blocknum c;
     (case found of
        None \<Rightarrow> Some (-1, c, s)
      | Some i \<Rightarrow> Some (0, upd_block i (bb_is_dirty_update (\<lambda>_. True)) c, s))
   })"

definition bcache_zero_block :: "u32 \<Rightarrow> bcache \<times> bio \<Rightarrow> (int \<times> bcache \<times> bio) option" where
  "bcache_zero_block blocknum = (\<lambda>(c, s). do {
     (found, c) \<leftarrow> find_block blocknum c;
     (block, c, s) \<leftarrow>
       (case found of
          Some i \<Rightarrow> Some (Some i, c, s)
        | None \<Rightarrow> do {
            (block, c, s) \<leftarrow> alloc_block (c, s);
            (case block of
               None \<Rightarrow> Some (None, c, s)
             | Some i \<Rightarrow> Some (Some i, upd_block i (bb_blocknum_update (\<lambda>_. blocknum)) c, s))
          });
     (case block of
        None \<Rightarrow> Some (-1, c, s)
      | Some i \<Rightarrow> do {
          buf \<leftarrow> memcpy_to (bb_ptr (bc_blocks c ! i)) 0 (replicate (unat (bc_block_size c)) 0);
          Some (0, upd_block i (\<lambda>b. b\<lparr>bb_ptr := buf, bb_is_dirty := True\<rparr>) c, s)
        })
   })"

fun flush_walk :: "nat list \<Rightarrow> bcache \<times> bio \<Rightarrow> (int \<times> bcache \<times> bio) option" where
  "flush_walk [] (c, s) = Some (0, c, s)"
| "flush_walk (i # is) (c, s) =
     (if bb_is_dirty (bc_blocks c ! i)
      then do { (err, c, s) \<leftarrow> flush_block i (c, s); if err \<noteq> 0 then Some (err, c, s) else flush_walk is (c, s) }
      else flush_walk is (c, s))"

definition bcache_flush :: "bcache \<times> bio \<Rightarrow> (int \<times> bcache \<times> bio) option" where
  "bcache_flush = (\<lambda>(c, s). do { ASSERT (\<not> bc_broken c); flush_walk (bc_lru_list c) (c, s) })"

section \<open>Invariant and view\<close>

definition bsize :: "bcache \<Rightarrow> nat" where
  "bsize c = unat (bc_block_size c)"

text \<open>Block \<open>b\<close> as the device \<open>(r, base, n)\<close> has it.\<close>

definition dev_block :: "nat \<times> nat \<times> nat \<Rightarrow> nat \<Rightarrow> bio \<Rightarrow> nat \<Rightarrow> u8 list" where
  "dev_block w bs s b = (case w of (r, base, n) \<Rightarrow> take bs (drop (b * bs) (window_data r base n s)))"

definition on_device :: "nat \<times> nat \<times> nat \<Rightarrow> nat \<Rightarrow> nat \<Rightarrow> bool" where
  "on_device w bs b \<longleftrightarrow> (b + 1) * bs \<le> snd (snd w)"

definition is_window :: "nat \<times> nat \<times> nat \<Rightarrow> bcache \<Rightarrow> bio \<Rightarrow> bool" where
  "is_window w c s \<longleftrightarrow> (case w of (r, base, n) \<Rightarrow> window s (bc_dev c) r base n) \<and> 0 < bsize c \<and> bsize c < 2 ^ 31"

definition num :: "bcache \<Rightarrow> nat \<Rightarrow> nat" where
  "num c i = unat (bb_blocknum (bc_blocks c ! i))"

definition entry_ok :: "nat \<times> nat \<times> nat \<Rightarrow> nat \<Rightarrow> bio \<Rightarrow> bcache_block \<Rightarrow> bool" where
  "entry_ok w bs s e \<longleftrightarrow> on_device w bs (unat (bb_blocknum e)) \<and> 0 \<le> bb_ref_count e \<and>
     (\<not> bb_is_dirty e \<longrightarrow> bb_ptr e = dev_block w bs s (unat (bb_blocknum e)))"

text \<open>\<open>L\<close> is the set of the entries that hold a block.\<close>

definition entries_inv :: "nat \<times> nat \<times> nat \<Rightarrow> nat set \<Rightarrow> bcache \<Rightarrow> bio \<Rightarrow> bool" where
  "entries_inv w L c s \<longleftrightarrow> is_window w c s \<and> length (bc_blocks c) = bc_count c \<and> L \<subseteq> {..< bc_count c} \<and>
     (\<forall>e\<in>set (bc_blocks c). length (bb_ptr e) = bsize c) \<and> inj_on (num c) L \<and>
     (\<forall>i\<in>L. entry_ok w (bsize c) s (bc_blocks c ! i))"

definition lists_inv :: "bcache \<Rightarrow> bool" where
  "lists_inv c \<longleftrightarrow> \<not> bc_broken c \<and> distinct (bc_lru_list c @ bc_free_list c) \<and>
     set (bc_lru_list c @ bc_free_list c) = {..< bc_count c} \<and> (\<forall>i\<in>set (bc_free_list c). \<not> bb_is_dirty (bc_blocks c ! i))"

definition cache_inv :: "nat \<times> nat \<times> nat \<Rightarrow> bcache \<Rightarrow> bio \<Rightarrow> bool" where
  "cache_inv w c s \<longleftrightarrow> lists_inv c \<and> entries_inv w (set (bc_lru_list c)) c s"

text \<open>What a client of the cache sees as block \<open>b\<close>.\<close>

definition view_of :: "nat \<times> nat \<times> nat \<Rightarrow> nat set \<Rightarrow> bcache \<Rightarrow> bio \<Rightarrow> nat \<Rightarrow> u8 list" where
  "view_of w L c s b = (if b \<in> num c ` L then bb_ptr (bc_blocks c ! the_inv_into L (num c) b) else dev_block w (bsize c) s b)"

abbreviation view :: "nat \<times> nat \<times> nat \<Rightarrow> bcache \<Rightarrow> bio \<Rightarrow> nat \<Rightarrow> u8 list" where
  "view w c s \<equiv> view_of w (set (bc_lru_list c)) c s"

lemma view_in: "entries_inv w L c s \<Longrightarrow> i \<in> L \<Longrightarrow> view_of w L c s (num c i) = bb_ptr (bc_blocks c ! i)"
  by (simp add: view_of_def entries_inv_def the_inv_into_f_f)

lemma view_out: "b \<notin> num c ` L \<Longrightarrow> view_of w L c s b = dev_block w (bsize c) s b"
  by (simp add: view_of_def)

lemma view_eqI:
  assumes "entries_inv w L c s" "\<And>i. i \<in> L \<Longrightarrow> f (num c i) = bb_ptr (bc_blocks c ! i)"
    "\<And>b. b \<notin> num c ` L \<Longrightarrow> f b = dev_block w (bsize c) s b"
  shows "view_of w L c s = f"
proof
  fix b
  show "view_of w L c s b = f b"
  proof (cases "b \<in> num c ` L")
    case True
    then obtain i where "i \<in> L" "b = num c i" by blast
    thus ?thesis using view_in[OF assms(1)] assms(2) by simp
  qed (use assms(3) view_out in metis)
qed

text \<open>Only the blocks, the device and the block size matter for the entries.\<close>

definition core :: "bcache \<Rightarrow> nat \<times> u64 \<times> nat \<times> bcache_block list" where
  "core c = (bc_dev c, bc_block_size c, bc_count c, bc_blocks c)"

lemma core_irrelevant:
  assumes "core c = core c'"
  shows "entries_inv w L c s = entries_inv w L c' s" "view_of w L c s = view_of w L c' s" "num c = num c'" "bsize c = bsize c'"
proof -
  show n: "num c = num c'" and b: "bsize c = bsize c'" using assms by (simp_all add: core_def num_def bsize_def fun_eq_iff)
  show "entries_inv w L c s = entries_inv w L c' s" using assms n b by (simp add: entries_inv_def is_window_def core_def)
  show "view_of w L c s = view_of w L c' s" using assms n b by (intro ext) (simp add: view_of_def core_def)
qed

lemma core_simps [simp]:
  "core (c\<lparr>bc_stats := x\<rparr>) = core c" "core (c\<lparr>bc_free_list := y\<rparr>) = core c" "core (c\<lparr>bc_lru_list := y\<rparr>) = core c"
  "core (move_to_tail i c) = core c"
  by (simp_all add: core_def move_to_tail_def)

section \<open>Changes of one entry\<close>

text \<open>An entry without a modification can be dropped.\<close>

lemma drop_entry:
  assumes inv: "entries_inv w L c s" and i: "i \<in> L" "\<not> bb_is_dirty (bc_blocks c ! i)"
  shows "entries_inv w (L - {i}) c s" "view_of w (L - {i}) c s = view_of w L c s"
proof -
  show inv': "entries_inv w (L - {i}) c s" using inv by (auto simp: entries_inv_def inj_on_def)
  show "view_of w (L - {i}) c s = view_of w L c s"
  proof (rule view_eqI[OF inv'])
    fix j assume "j \<in> L - {i}"
    thus "view_of w L c s (num c j) = bb_ptr (bc_blocks c ! j)" using view_in[OF inv] by simp
  next
    fix b assume b: "b \<notin> num c ` (L - {i})"
    have "bb_ptr (bc_blocks c ! i) = dev_block w (bsize c) s (num c i)"
      using inv i by (simp add: entries_inv_def entry_ok_def num_def)
    thus "view_of w L c s b = dev_block w (bsize c) s b"
      using b view_in[OF inv i(1)] view_out[of b c L w s] by (cases "b = num c i") auto
  qed
qed

text \<open>An entry can be set to a block that no other entry holds.\<close>

lemma set_entry:
  assumes inv: "entries_inv w (L - {i}) c s" and i: "i < bc_count c"
    and e: "length (bb_ptr e) = bsize c" "entry_ok w (bsize c) s e" "unat (bb_blocknum e) \<notin> num c ` (L - {i})"
  shows "entries_inv w (insert i L) (upd_block i (\<lambda>_. e) c) s"
    "view_of w (insert i L) (upd_block i (\<lambda>_. e) c) s = (view_of w (L - {i}) c s)(unat (bb_blocknum e) := bb_ptr e)"
proof -
  let ?c = "upd_block i (\<lambda>_. e) c"
  have len: "length (bc_blocks c) = bc_count c" using inv by (simp add: entries_inv_def)
  have nth: "bc_blocks ?c ! j = (if j = i then e else bc_blocks c ! j)" for j
    using i len by (simp add: upd_block_def)
  have num: "num ?c j = (if j = i then unat (bb_blocknum e) else num c j)" for j by (simp add: num_def nth)
  have img: "num ?c ` insert i L = insert (unat (bb_blocknum e)) (num c ` (L - {i}))"
    by (auto simp: num)
  have bs: "bsize ?c = bsize c" by (simp add: upd_block_def bsize_def)
  have ne: "num c j \<noteq> unat (bb_blocknum e)" if "j \<in> L" "j \<noteq> i" for j
    using e(3) that by (metis DiffI imageI singletonD)
  have inj: "inj_on (num ?c) (insert i L)"
  proof (rule inj_onI)
    fix x y assume "x \<in> insert i L" "y \<in> insert i L" "num ?c x = num ?c y"
    thus "x = y" using inv ne[of x] ne[of y] by (cases "x = i"; cases "y = i") (auto simp: num entries_inv_def inj_on_def)
  qed
  have len': "\<forall>x\<in>set (bc_blocks ?c). length (bb_ptr x) = bsize c"
    using inv e(1) set_update_subset_insert[of "bc_blocks c" i e] by (auto simp: entries_inv_def upd_block_def)
  have w: "is_window w ?c s = is_window w c s" by (simp add: is_window_def upd_block_def bsize_def)
  show inv': "entries_inv w (insert i L) ?c s"
    unfolding entries_inv_def
  proof (intro conjI)
    show "length (bc_blocks ?c) = bc_count ?c" using len by (simp add: upd_block_def)
    show "insert i L \<subseteq> {..<bc_count ?c}" using inv i by (auto simp: entries_inv_def upd_block_def)
    show "\<forall>j\<in>insert i L. entry_ok w (bsize ?c) s (bc_blocks ?c ! j)" using inv e(2) by (simp add: entries_inv_def bs nth)
  qed (use inv inj len' in \<open>simp_all add: entries_inv_def w bs\<close>)
  show "view_of w (insert i L) ?c s = (view_of w (L - {i}) c s)(unat (bb_blocknum e) := bb_ptr e)"
  proof (rule view_eqI[OF inv'])
    fix j assume j: "j \<in> insert i L"
    show "((view_of w (L - {i}) c s)(unat (bb_blocknum e) := bb_ptr e)) (num ?c j) = bb_ptr (bc_blocks ?c ! j)"
    proof (cases "j = i")
      case False
      hence "num c j \<noteq> unat (bb_blocknum e)" using j ne by simp
      thus ?thesis using False j view_in[OF inv, of j] by (simp add: nth num)
    qed (simp add: nth num)
  next
    fix b assume "b \<notin> num ?c ` insert i L"
    thus "((view_of w (L - {i}) c s)(unat (bb_blocknum e) := bb_ptr e)) b = dev_block w (bsize ?c) s b"
      unfolding img bs using view_out[of b c "L - {i}" w s] by simp
  qed
qed

lemma modify_entry:
  assumes inv: "entries_inv w L c s" and i: "i \<in> L"
    and e: "length (bb_ptr e) = bsize c" "entry_ok w (bsize c) s e" "bb_blocknum e = bb_blocknum (bc_blocks c ! i)"
  shows "entries_inv w L (upd_block i (\<lambda>_. e) c) s"
    "view_of w L (upd_block i (\<lambda>_. e) c) s = (view_of w L c s)(num c i := bb_ptr e)"
proof -
  have inv': "entries_inv w (L - {i}) c s" using inv by (auto simp: entries_inv_def inj_on_def)
  have n: "unat (bb_blocknum e) = num c i" using e(3) by (simp add: num_def)
  have ni: "unat (bb_blocknum e) \<notin> num c ` (L - {i})"
    using inv i unfolding n by (auto simp: entries_inv_def inj_on_def)
  have il: "i < bc_count c" "insert i L = L" using inv i by (auto simp: entries_inv_def)
  note se = set_entry[OF inv' il(1) e(1,2) ni, unfolded il(2) n]
  show "entries_inv w L (upd_block i (\<lambda>_. e) c) s" by (rule se(1))
  have "(view_of w (L - {i}) c s)(num c i := bb_ptr e) = (view_of w L c s)(num c i := bb_ptr e)"
  proof
    fix b
    show "((view_of w (L - {i}) c s)(num c i := bb_ptr e)) b = ((view_of w L c s)(num c i := bb_ptr e)) b"
    proof (cases "b = num c i")
      case False
      show ?thesis
      proof (cases "b \<in> num c ` (L - {i})")
        case True
        then obtain j where "j \<in> L - {i}" "b = num c j" by blast
        thus ?thesis using view_in[OF inv, of j] view_in[OF inv', of j] by simp
      next
        case nin: False
        hence "b \<notin> num c ` L" using False by auto
        thus ?thesis using nin view_out[of b c L w s] view_out[of b c "L - {i}" w s] False by simp
      qed
    qed simp
  qed
  thus "view_of w L (upd_block i (\<lambda>_. e) c) s = (view_of w L c s)(num c i := bb_ptr e)" using se(2) by simp
qed

section \<open>The device\<close>

lemma slice_apart:
  "a + length x \<le> length b \<Longrightarrow> base + n \<le> a \<or> a + length x \<le> base \<Longrightarrow>
   take n (drop base (overwrite b a x)) = take n (drop base b)"
  by (rule nth_equalityI) (auto simp: nth_overwrite)

lemma to_int_id: "n < 2 ^ 31 \<Longrightarrow> to_int (int n) = int n"
  by (simp add: to_int_def sint_sbintrunc' signed_take_bit_int_eq_self del: of_int_of_nat_eq)

lemma block_place:
  assumes w: "is_window w c s" "w = (r, base, n)" and b: "on_device w (bsize c) (unat b)"
  shows "unat (block_offset c b) = unat b * bsize c" "unat b * bsize c + bsize c \<le> n"
    "unat (block_offset c b) < 2 ^ 63" "unat (block_offset c b) + unat (bc_block_size c) < 2 ^ 64"
    "clip n (block_offset c b) (bc_block_size c) = bsize c" "window s (bc_dev c) r base n"
proof -
  show win: "window s (bc_dev c) r base n" using w by (simp add: is_window_def)
  have n: "n < 2 ^ 32" by (rule window_facts(2)[OF win])
  show fit: "unat b * bsize c + bsize c \<le> n" using b w(2) by (simp add: on_device_def)
  hence lt: "unat b * bsize c < 2 ^ 64" using n by simp
  have "unat (ucast b :: u64) * unat (bc_block_size c) < 2 ^ LENGTH(64)" using lt by (simp add: unat_u32_u64 bsize_def)
  hence "unat (block_offset c b) = unat (ucast b :: u64) * unat (bc_block_size c)"
    unfolding block_offset_def by (simp add: unat_word_ariths)
  thus off: "unat (block_offset c b) = unat b * bsize c" by (simp add: unat_u32_u64 bsize_def)
  show "unat (block_offset c b) < 2 ^ 63" unfolding off using fit n by simp
  have "unat b * bsize c + bsize c < 2 ^ 64" using fit n by simp
  thus "unat (block_offset c b) + unat (bc_block_size c) < 2 ^ 64" unfolding off by (simp add: bsize_def)
  show "clip n (block_offset c b) (bc_block_size c) = bsize c" using fit unfolding clip_def off by (simp add: bsize_def)
qed

lemma dev_read:
  assumes "is_window w c s" "on_device w (bsize c) (unat b)" "length buf = bsize c"
  shows "bio_read (bc_dev c) buf 0 (block_offset c b) (bc_block_size c) s = Some (int (bsize c), dev_block w (bsize c) s (unat b))"
proof -
  obtain r base n where w: "w = (r, base, n)" by (cases w)
  note p = block_place[OF assms(1) w assms(2)]
  note l = length_window_data[OF p(6)]
  let ?x = "take (bsize c) (drop (unat b * bsize c) (window_data r base n s))"
  have lx: "length ?x = bsize c" using p(2) l by simp
  have k: "bsize c = clip (length (window_data r base n s)) (block_offset c b) (bc_block_size c)" using p(5) l by simp
  have "bio_read (bc_dev c) buf 0 (block_offset c b) (bc_block_size c) s = Some (int (bsize c), overwrite buf 0 ?x)"
    using bv.read_bytes[OF p(6,3,4) k, of 0 buf] assms(3) unfolding p(1) by simp
  also have "overwrite buf 0 ?x = ?x" unfolding overwrite_def using lx assms(3) by simp
  finally show ?thesis by (simp add: dev_block_def w)
qed

lemma dev_write:
  assumes "is_window w c s" "on_device w (bsize c) (unat b)" "length x = bsize c"
  shows "\<exists>s'. bio_write (bc_dev c) x 0 (block_offset c b) (bc_block_size c) s = Some (int (bsize c), s') \<and> is_window w c s' \<and>
    dev_block w (bsize c) s' = (dev_block w (bsize c) s)(unat b := x)"
proof -
  obtain r base n where w: "w = (r, base, n)" by (cases w)
  note p = block_place[OF assms(1) w assms(2)]
  note l = length_window_data[OF p(6)]
  let ?D = "overwrite (window_data r base n s) (unat b * bsize c) x"
  let ?s = "window_upd r base ?D s"
  have k: "bsize c = clip (length (window_data r base n s)) (block_offset c b) (bc_block_size c)" using p(5) l by simp
  have fit: "unat b * bsize c + length x \<le> length (window_data r base n s)" using p(2) l assms(3) by simp
  have "bio_write (bc_dev c) x 0 (block_offset c b) (bc_block_size c) s = Some (int (bsize c), ?s)"
    using bv.write_bytes[OF p(6,3,4) k, of 0 x] assms(3) unfolding p(1) by simp
  moreover have ok: "window ?s (bc_dev c) r base n" "window_data r base n ?s = ?D"
    using ws.ok_upd[OF p(6), of ?D] fit by simp_all
  moreover have "dev_block w (bsize c) ?s = (dev_block w (bsize c) s)(unat b := x)"
  proof
    fix b'
    show "dev_block w (bsize c) ?s b' = ((dev_block w (bsize c) s)(unat b := x)) b'"
    proof (cases "b' = unat b")
      case True
      thus ?thesis using slice_overwrite[OF fit] assms(3) by (simp add: dev_block_def w ok(2))
    next
      case False
      hence "b' + 1 \<le> unat b \<or> unat b + 1 \<le> b'" by linarith
      hence "(b' + 1) * bsize c \<le> unat b * bsize c \<or> (unat b + 1) * bsize c \<le> b' * bsize c" by (meson mult_le_mono1)
      hence "b' * bsize c + bsize c \<le> unat b * bsize c \<or> unat b * bsize c + length x \<le> b' * bsize c"
        using assms(3) by (simp add: algebra_simps)
      thus ?thesis using False slice_apart[OF fit] by (simp add: dev_block_def w ok(2))
    qed
  qed
  ultimately show ?thesis using assms(1) w by (auto simp: is_window_def)
qed

section \<open>Operations\<close>

lemma flush_block_ok:
  assumes inv: "entries_inv w L c s" and i: "i \<in> L"
  shows "\<exists>s'. flush_block i (c, s) =
      Some (0, upd_block i (bb_is_dirty_update (\<lambda>_. False)) (c\<lparr>bc_stats := bs_writes_update (\<lambda>n. n + 1) (bc_stats c)\<rparr>), s') \<and>
    entries_inv w L (upd_block i (bb_is_dirty_update (\<lambda>_. False)) c) s' \<and>
    view_of w L (upd_block i (bb_is_dirty_update (\<lambda>_. False)) c) s' = view_of w L c s"
proof -
  let ?e = "bc_blocks c ! i"
  let ?b = "bb_blocknum ?e"
  have il: "i < bc_count c" "is_window w c s" "length (bb_ptr ?e) = bsize c" "on_device w (bsize c) (unat ?b)" "0 \<le> bb_ref_count ?e"
    and bs: "bsize c < 2 ^ 31"
    using inv i by (auto simp: entries_inv_def entry_ok_def is_window_def)
  obtain s' where s': "bio_write (bc_dev c) (bb_ptr ?e) 0 (block_offset c ?b) (bc_block_size c) s = Some (int (bsize c), s')"
    "is_window w c s'" "dev_block w (bsize c) s' = (dev_block w (bsize c) s)(num c i := bb_ptr ?e)"
    using dev_write[OF il(2,4,3)] by (auto simp: num_def)
  have run: "flush_block i (c, s) =
      Some (0, upd_block i (bb_is_dirty_update (\<lambda>_. False)) (c\<lparr>bc_stats := bs_writes_update (\<lambda>n. n + 1) (bc_stats c)\<rparr>), s')"
    using s'(1) to_int_id[OF bs] by (simp add: flush_block_def Let_def)
  have ne: "num c j \<noteq> num c i" if "j \<in> L" "j \<noteq> i" for j using inv i that by (auto simp: entries_inv_def inj_on_def)
  have inv1: "entries_inv w (L - {i}) c s'"
    using inv s'(2,3) ne by (auto simp: entries_inv_def entry_ok_def inj_on_def num_def)
  let ?e' = "?e\<lparr>bb_is_dirty := False\<rparr>"
  have e: "length (bb_ptr ?e') = bsize c" "entry_ok w (bsize c) s' ?e'" "unat (bb_blocknum ?e') \<notin> num c ` (L - {i})"
    using il s'(3) ne by (simp_all add: entry_ok_def num_def) force
  have u: "upd_block i (\<lambda>_. ?e') c = upd_block i (bb_is_dirty_update (\<lambda>_. False)) c" and iL: "insert i L = L"
    using i by (auto simp: upd_block_def)
  note se = set_entry[OF inv1 il(1) e, unfolded u iL]
  have "(view_of w (L - {i}) c s')(num c i := bb_ptr ?e) = view_of w L c s"
  proof (rule view_eqI[OF inv, symmetric])
    fix j assume "j \<in> L"
    thus "((view_of w (L - {i}) c s')(num c i := bb_ptr ?e)) (num c j) = bb_ptr (bc_blocks c ! j)"
      using view_in[OF inv1, of j] ne[of j] by (cases "j = i") auto
  next
    fix b assume b: "b \<notin> num c ` L"
    hence "b \<noteq> num c i" "b \<notin> num c ` (L - {i})" using i by auto
    thus "((view_of w (L - {i}) c s')(num c i := bb_ptr ?e)) b = dev_block w (bsize c) s b"
      using view_out[of b c "L - {i}" w s'] s'(3) by simp
  qed
  thus ?thesis using run se by (auto simp: num_def)
qed

text \<open>The positions of the elements of a list that satisfy a predicate.\<close>

lemma find_pos_None: "find_pos p xs = None \<longleftrightarrow> (\<forall>x\<in>set xs. \<not> p x)"
  by (induction xs) auto

lemma find_pos_Some: "find_pos p xs = Some k \<Longrightarrow> k < length xs \<and> p (xs ! k)"
  by (induction xs arbitrary: k) (auto split: if_splits)

text \<open>Entries in use are untouched: every entry with a reference stays and keeps its contents.\<close>

definition pinned_kept :: "bcache \<Rightarrow> bcache \<Rightarrow> bool" where
  "pinned_kept c c' \<longleftrightarrow> (\<forall>j\<in>set (bc_lru_list c). 0 < bb_ref_count (bc_blocks c ! j) \<longrightarrow>
     j \<in> set (bc_lru_list c') \<and> bc_blocks c' ! j = bc_blocks c ! j)"

definition shape :: "bcache \<Rightarrow> nat \<times> u64 \<times> nat" where
  "shape c = (bc_dev c, bc_block_size c, bc_count c)"

lemma shape_simps [simp]:
  "shape (c\<lparr>bc_stats := x\<rparr>) = shape c" "shape (c\<lparr>bc_free_list := y\<rparr>) = shape c" "shape (c\<lparr>bc_lru_list := y\<rparr>) = shape c"
  "shape (move_to_tail i c) = shape c" "shape (upd_block i f c) = shape c"
  by (simp_all add: shape_def move_to_tail_def upd_block_def)

lemma shape_bsize: "shape c = shape c' \<Longrightarrow> bsize c = bsize c' \<and> bc_count c = bc_count c' \<and> is_window w c s = is_window w c' s"
  by (simp add: shape_def bsize_def is_window_def)

lemma move_to_tail_set: "i \<in> set (bc_lru_list c) \<Longrightarrow> distinct (bc_lru_list c) \<Longrightarrow> set (bc_lru_list (move_to_tail i c)) = set (bc_lru_list c)"
  by (auto simp: move_to_tail_def)

lemma move_to_tail_lists:
  assumes "lists_inv c" "i \<in> set (bc_lru_list c)"
  shows "lists_inv (move_to_tail i c)"
proof -
  have "set (remove1 i (bc_lru_list c) @ [i]) = set (bc_lru_list c)" using assms by (auto simp: lists_inv_def)
  thus ?thesis using assms by (auto simp: lists_inv_def move_to_tail_def)
qed

lemma find_block_ok:
  assumes inv: "cache_inv w c s"
  shows "\<exists>r c'. find_block b c = Some (r, c') \<and> cache_inv w c' s \<and> view w c' s = view w c s \<and> core c' = core c \<and>
    set (bc_lru_list c') = set (bc_lru_list c) \<and> bc_free_list c' = bc_free_list c \<and>
    (case r of Some i \<Rightarrow> i \<in> set (bc_lru_list c) \<and> num c i = unat b | None \<Rightarrow> unat b \<notin> num c ` set (bc_lru_list c))"
proof (cases "find_pos (\<lambda>i. bb_blocknum (bc_blocks c ! i) = b) (bc_lru_list c)")
  case None
  let ?c = "c\<lparr>bc_stats := bs_misses_update (\<lambda>n. n + 1) (bc_stats c)\<rparr>"
  have "find_block b c = Some (None, ?c)" using None inv by (simp add: find_block_def cache_inv_def lists_inv_def)
  moreover have "cache_inv w ?c s" "view w ?c s = view w c s"
    using inv core_irrelevant[of ?c c] by (simp_all add: cache_inv_def lists_inv_def)
  ultimately show ?thesis using None by (auto simp: find_pos_None num_def word_unat_eq_iff)
next
  case (Some k)
  let ?i = "bc_lru_list c ! k"
  let ?c = "(move_to_tail ?i c)\<lparr>bc_stats := bs_depth_update (\<lambda>n. n + of_nat (Suc k)) (bs_hits_update (\<lambda>n. n + 1) (bc_stats c))\<rparr>"
  have i: "?i \<in> set (bc_lru_list c)" "num c ?i = unat b" using find_pos_Some[OF Some] by (auto simp: num_def)
  have "find_block b c = Some (Some ?i, ?c)" using Some inv by (simp add: find_block_def cache_inv_def lists_inv_def Let_def)
  moreover have l: "lists_inv (move_to_tail ?i c)" "set (bc_lru_list ?c) = set (bc_lru_list c)"
    using move_to_tail_lists[OF _ i(1)] move_to_tail_set[OF i(1)] inv by (auto simp: cache_inv_def lists_inv_def)
  moreover have "cache_inv w ?c s" "view w ?c s = view w c s"
    using inv l core_irrelevant[of ?c c] by (simp_all add: cache_inv_def lists_inv_def)
  moreover have "bc_free_list ?c = bc_free_list c" by (simp add: move_to_tail_def)
  ultimately show ?thesis using i by auto
qed

definition room :: "bcache \<Rightarrow> bool" where
  "room c \<longleftrightarrow> bc_free_list c \<noteq> [] \<or> (\<exists>i\<in>set (bc_lru_list c). bb_ref_count (bc_blocks c ! i) = 0)"

text \<open>What \<^verbatim>\<open>alloc_block\<close> gives: an entry that nobody uses, with the contents of all blocks unchanged.\<close>

definition handed_out :: "nat \<times> nat \<times> nat \<Rightarrow> bcache \<Rightarrow> bio \<Rightarrow> nat \<Rightarrow> bcache \<Rightarrow> bio \<Rightarrow> bool" where
  "handed_out w c s i c' s' \<longleftrightarrow> lists_inv c' \<and> i \<in> set (bc_lru_list c') \<and> entries_inv w (set (bc_lru_list c') - {i}) c' s' \<and>
     view_of w (set (bc_lru_list c') - {i}) c' s' = view w c s \<and> bb_ref_count (bc_blocks c' ! i) = 0 \<and>
     \<not> bb_is_dirty (bc_blocks c' ! i) \<and> num c' ` (set (bc_lru_list c') - {i}) \<subseteq> num c ` set (bc_lru_list c) \<and>
     (\<forall>j. j \<noteq> i \<longrightarrow> bc_blocks c' ! j = bc_blocks c ! j) \<and> shape c' = shape c \<and> pinned_kept c c' \<and>
     (i \<in> set (bc_lru_list c) \<longrightarrow> bb_ref_count (bc_blocks c ! i) = 0) \<and> set (bc_lru_list c') = insert i (set (bc_lru_list c))"

lemma alloc_free:
  assumes inv: "cache_inv w c s" and f: "bc_free_list c = i # free"
  shows "\<exists>c'. alloc_block (c, s) = Some (Some i, c', s) \<and> handed_out w c s i c' s"
proof -
  let ?c1 = "upd_block i (bb_ref_count_update (\<lambda>_. 0)) c"
  let ?c = "?c1\<lparr>bc_free_list := free, bc_lru_list := bc_lru_list c @ [i]\<rparr>"
  have i: "i < bc_count c" "i \<notin> set (bc_lru_list c)" "i \<notin> set free" "\<not> bb_is_dirty (bc_blocks c ! i)" "length (bc_blocks c) = bc_count c"
    using inv f by (auto simp: cache_inv_def lists_inv_def entries_inv_def)
  have nth: "bc_blocks ?c1 ! j = (if j = i then (bc_blocks c ! i)\<lparr>bb_ref_count := 0\<rparr> else bc_blocks c ! j)" for j
    using i by (simp add: upd_block_def)
  have num: "num ?c = num c" by (simp add: num_def nth fun_eq_iff)
  have bs: "bsize ?c = bsize c" by (simp add: bsize_def upd_block_def)
  have L: "set (bc_lru_list ?c) - {i} = set (bc_lru_list c)" using i(2) by auto
  have ptr: "\<forall>e\<in>set (bc_blocks ?c). length (bb_ptr e) = bsize c"
    using inv i(1,5) set_update_subset_insert[of "bc_blocks c" i "(bc_blocks c ! i)\<lparr>bb_ref_count := 0\<rparr>"]
    by (auto simp: cache_inv_def entries_inv_def upd_block_def)
  have ent: "entries_inv w (set (bc_lru_list c)) ?c s"
    using inv i ptr unfolding cache_inv_def entries_inv_def num bs
    by (auto simp: nth) (auto simp: is_window_def bsize_def upd_block_def)
  have "view_of w (set (bc_lru_list c)) ?c s = view w c s"
    by (rule view_eqI[OF ent]) (use inv i(2) view_in view_out in \<open>auto simp: cache_inv_def num nth bs\<close>)
  moreover have "lists_inv ?c" using inv f i by (auto simp: cache_inv_def lists_inv_def upd_block_def nth_list_update)
  moreover have "shape ?c = shape c" by (simp add: shape_def upd_block_def)
  moreover have "pinned_kept c ?c" using nth i(2) by (auto simp: pinned_kept_def)
  ultimately have "handed_out w c s i ?c s" using ent L i nth num unfolding handed_out_def by auto
  thus ?thesis using f by (simp add: alloc_block_def)
qed

lemma alloc_evict:
  assumes inv: "cache_inv w c s" and f: "bc_free_list c = []" "room c"
  shows "\<exists>i c' s'. alloc_block (c, s) = Some (Some i, c', s') \<and> handed_out w c s i c' s'"
proof -
  let ?L = "set (bc_lru_list c)"
  obtain k where k: "find_pos (\<lambda>i. bb_ref_count (bc_blocks c ! i) = 0) (bc_lru_list c) = Some k"
    using f by (cases "find_pos (\<lambda>i. bb_ref_count (bc_blocks c ! i) = 0) (bc_lru_list c)") (auto simp: room_def find_pos_None)
  define i where "i = bc_lru_list c ! k"
  have i: "i \<in> ?L" "bb_ref_count (bc_blocks c ! i) = 0" using find_pos_Some[OF k] by (auto simp: i_def)
  have ent: "entries_inv w ?L c s" and lists: "lists_inv c" using inv by (simp_all add: cache_inv_def)
  have il: "i < length (bc_blocks c)" using i ent by (auto simp: entries_inv_def)
  obtain c1 s1 where c1: "(if bb_is_dirty (bc_blocks c ! i) then flush_block i (c, s) else Some (0, c, s)) = Some (0, c1, s1)"
    "entries_inv w ?L c1 s1" "view_of w ?L c1 s1 = view w c s" "bc_blocks c1 = (bc_blocks c)[i := (bc_blocks c ! i)\<lparr>bb_is_dirty := False\<rparr>]"
    "shape c1 = shape c" "bc_lru_list c1 = bc_lru_list c" "bc_free_list c1 = []" "bc_broken c1 = bc_broken c"
  proof (cases "bb_is_dirty (bc_blocks c ! i)")
    case True
    let ?c = "upd_block i (bb_is_dirty_update (\<lambda>_. False)) c"
    let ?c' = "upd_block i (bb_is_dirty_update (\<lambda>_. False)) (c\<lparr>bc_stats := bs_writes_update (\<lambda>n. n + 1) (bc_stats c)\<rparr>)"
    obtain s' where s': "flush_block i (c, s) = Some (0, ?c', s')" "entries_inv w ?L ?c s'" "view_of w ?L ?c s' = view w c s"
      using flush_block_ok[OF ent i(1)] by blast
    have e: "core ?c' = core ?c" by (simp add: core_def upd_block_def)
    show ?thesis by (rule that[of ?c' s']) (use s' True f core_irrelevant[OF e] in \<open>simp_all add: upd_block_def shape_def\<close>)
  next
    case False
    hence "(bc_blocks c)[i := (bc_blocks c ! i)\<lparr>bb_is_dirty := False\<rparr>] = bc_blocks c"
      by (metis (full_types) bcache_block.surjective bcache_block.update_convs(3) list_update_id)
    thus ?thesis using that[of c s] False ent f by simp
  qed
  let ?c = "move_to_tail i c1"
  have L: "set (bc_lru_list ?c) = ?L" using move_to_tail_set[of i c1] i(1) c1(6) lists by (auto simp: lists_inv_def)
  have nth: "bc_blocks ?c ! j = (if j = i then (bc_blocks c ! i)\<lparr>bb_is_dirty := False\<rparr> else bc_blocks c ! j)" for j
    using il c1(4) by (simp add: move_to_tail_def)
  have lists': "lists_inv ?c" using move_to_tail_lists[of c1 i] lists c1 i(1) f(1) by (simp add: lists_inv_def shape_def)
  have "\<not> bb_is_dirty (bc_blocks c1 ! i)" using il c1(4) by simp
  note d = drop_entry[OF c1(2) i(1) this]
  have d': "entries_inv w (?L - {i}) ?c s1" "view_of w (?L - {i}) ?c s1 = view w c s"
    using d c1(3) core_irrelevant[of ?c c1] by simp_all
  have "num ?c ` (?L - {i}) \<subseteq> num c ` ?L" by (auto simp: num_def nth)
  moreover have "pinned_kept c ?c" using i(2) by (auto simp: pinned_kept_def L nth)
  ultimately have "handed_out w c s i ?c s1"
    unfolding handed_out_def L using lists' d' i c1(5) by (auto simp: nth)
  moreover have "alloc_block (c, s) = Some (Some i, ?c, s1)" using k f c1(1) by (simp add: alloc_block_def i_def[symmetric] Let_def split: if_splits)
  ultimately show ?thesis by blast
qed

lemma alloc_ok: "cache_inv w c s \<Longrightarrow> room c \<Longrightarrow> \<exists>i c' s'. alloc_block (c, s) = Some (Some i, c', s') \<and> handed_out w c s i c' s'"
  using alloc_free alloc_evict by (cases "bc_free_list c") blast+

lemma alloc_full: "\<not> room c \<Longrightarrow> alloc_block (c, s) = Some (None, c, s)"
  by (auto simp: alloc_block_def room_def find_pos_None split: list.splits option.splits dest: find_pos_Some)

text \<open>The allocated entry can take any block that is not in the cache.\<close>

lemma fill_handed_out:
  assumes a: "handed_out w c s i c' s'" and inv: "cache_inv w c s"
    and e: "length (bb_ptr e) = bsize c" "entry_ok w (bsize c) s' e" "unat (bb_blocknum e) \<notin> num c ` set (bc_lru_list c)"
  shows "cache_inv w (upd_block i (\<lambda>_. e) c') s'"
    "view w (upd_block i (\<lambda>_. e) c') s' = (view w c s)(unat (bb_blocknum e) := bb_ptr e)"
    "pinned_kept c (upd_block i (\<lambda>_. e) c')" "num (upd_block i (\<lambda>_. e) c') i = unat (bb_blocknum e)"
proof -
  let ?c = "upd_block i (\<lambda>_. e) c'"
  let ?L = "set (bc_lru_list c')"
  have a': "lists_inv c'" "i \<in> ?L" "entries_inv w (?L - {i}) c' s'" "view_of w (?L - {i}) c' s' = view w c s"
    "num c' ` (?L - {i}) \<subseteq> num c ` set (bc_lru_list c)" "shape c' = shape c" "pinned_kept c c'"
    "i \<in> set (bc_lru_list c) \<longrightarrow> bb_ref_count (bc_blocks c ! i) = 0"
    using a unfolding handed_out_def by blast+
  note sh = shape_bsize[OF a'(6)]
  have il: "i < bc_count c'" using a'(1,2) by (auto simp: lists_inv_def)
  have len: "length (bc_blocks c') = bc_count c'" using a'(3) by (simp add: entries_inv_def)
  have iL: "insert i ?L = ?L" using a'(2) by blast
  have ni: "unat (bb_blocknum e) \<notin> num c' ` (?L - {i})" using e(3) a'(5) by blast
  note se = set_entry[OF a'(3) il _ _ ni, unfolded iL, simplified sh]
  have lru: "bc_lru_list ?c = bc_lru_list c'" by (simp add: upd_block_def)
  have "i \<notin> set (bc_free_list c')" using a'(1,2) by (auto simp: lists_inv_def)
  hence "lists_inv ?c" using a'(1) by (auto simp: lists_inv_def upd_block_def) (metis nth_list_update_neq)
  thus "cache_inv w ?c s'" unfolding cache_inv_def lru using se(1) e by simp
  show "view w ?c s' = (view w c s)(unat (bb_blocknum e) := bb_ptr e)"
    unfolding lru using se(2) e a'(4) by simp
  show "pinned_kept c ?c" unfolding pinned_kept_def
  proof (intro ballI impI)
    fix j assume j: "j \<in> set (bc_lru_list c)" "0 < bb_ref_count (bc_blocks c ! j)"
    hence "j \<noteq> i" using a'(8) by auto
    thus "j \<in> set (bc_lru_list ?c) \<and> bc_blocks ?c ! j = bc_blocks c ! j" using a'(7) j by (simp add: pinned_kept_def upd_block_def)
  qed
  show "num ?c i = unat (bb_blocknum e)" using il len by (simp add: num_def upd_block_def)
qed

text \<open>Two changes of one entry are one.\<close>

lemma upd_block_twice: "upd_block i f (upd_block i g c) = upd_block i (\<lambda>e. f (g e)) c" if "i < length (bc_blocks c)"
  using that by (simp add: upd_block_def)

lemma upd_block_const: "upd_block i f c = upd_block i (\<lambda>_. f (bc_blocks c ! i)) c"
  by (simp add: upd_block_def)

lemma upd_block_stats: "upd_block i f (c\<lparr>bc_stats := x\<rparr>) = (upd_block i f c)\<lparr>bc_stats := x\<rparr>"
  by (simp add: upd_block_def)

lemma cache_inv_stats: "cache_inv w (c\<lparr>bc_stats := x\<rparr>) s = cache_inv w c s" "view_of w L (c\<lparr>bc_stats := x\<rparr>) s = view_of w L c s"
  using core_irrelevant[of "c\<lparr>bc_stats := x\<rparr>" c] by (simp_all add: cache_inv_def lists_inv_def)

lemma pinned_kept_stats: "pinned_kept c (c'\<lparr>bc_stats := x\<rparr>) = pinned_kept c c'"
  by (simp add: pinned_kept_def)

lemma pinned_kept_trans:
  assumes "core c1 = core c" "set (bc_lru_list c1) = set (bc_lru_list c)" "pinned_kept c1 c2"
  shows "pinned_kept c c2"
  using assms by (simp add: pinned_kept_def core_def)

text \<open>After \<^verbatim>\<open>find_block\<close> missed, \<^verbatim>\<open>alloc_block\<close> starts from an equivalent cache.\<close>

definition cached :: "bcache \<Rightarrow> u32 \<Rightarrow> bool" where
  "cached c b \<longleftrightarrow> unat b \<in> num c ` set (bc_lru_list c)"

definition fillable :: "nat \<times> nat \<times> nat \<Rightarrow> bcache \<Rightarrow> u32 \<Rightarrow> bool" where
  "fillable w c b \<longleftrightarrow> on_device w (bsize c) (unat b) \<and> (cached c b \<or> room c)"

lemma find_cases:
  assumes inv: "cache_inv w c s" and b: "fillable w c b"
  obtains (hit) i c1 where "find_block b c = Some (Some i, c1)" "cache_inv w c1 s" "view w c1 s = view w c s" "shape c1 = shape c"
      "pinned_kept c c1" "i \<in> set (bc_lru_list c1)" "num c1 i = unat b" "set (bc_lru_list c1) = set (bc_lru_list c)" "bc_blocks c1 = bc_blocks c"
    | (miss) c1 i c2 s2 where "find_block b c = Some (None, c1)" "alloc_block (c1, s) = Some (Some i, c2, s2)" "handed_out w c1 s i c2 s2"
      "cache_inv w c1 s" "view w c1 s = view w c s" "core c1 = core c" "set (bc_lru_list c1) = set (bc_lru_list c)"
      "unat b \<notin> num c1 ` set (bc_lru_list c1)"
proof -
  obtain r c1 where f: "find_block b c = Some (r, c1)" "cache_inv w c1 s" "view w c1 s = view w c s" "core c1 = core c"
    "set (bc_lru_list c1) = set (bc_lru_list c)" "bc_free_list c1 = bc_free_list c"
    "case r of Some i \<Rightarrow> i \<in> set (bc_lru_list c) \<and> num c i = unat b | None \<Rightarrow> unat b \<notin> num c ` set (bc_lru_list c)"
    using find_block_ok[OF inv, of b] by blast
  have num: "num c1 = num c" using core_irrelevant(3)[OF f(4)] .
  have bl: "bc_blocks c1 = bc_blocks c" "shape c1 = shape c" using f(4) by (simp_all add: core_def shape_def)
  show ?thesis
  proof (cases r)
    case (Some i)
    have "pinned_kept c c1" using f(5) bl by (simp add: pinned_kept_def)
    thus ?thesis using hit[of i c1] f Some num bl by simp
  next
    case None
    hence "room c1" using b f bl by (auto simp: fillable_def cached_def room_def)
    then obtain i c2 s2 where "alloc_block (c1, s) = Some (Some i, c2, s2)" "handed_out w c1 s i c2 s2"
      using alloc_ok[OF f(2)] by blast
    thus ?thesis using miss[of c1 i c2 s2] f None num by simp
  qed
qed

lemma find_or_fill_ok:
  assumes inv: "cache_inv w c s" and b: "fillable w c b"
  shows "\<exists>i c' s'. find_or_fill_block b (c, s) = Some (Some i, c', s') \<and> cache_inv w c' s' \<and> view w c' s' = view w c s \<and>
    shape c' = shape c \<and> pinned_kept c c' \<and> i \<in> set (bc_lru_list c') \<and> num c' i = unat b \<and>
    (\<forall>j\<in>set (bc_lru_list c'). j \<notin> set (bc_lru_list c) \<or> bc_blocks c' ! j \<noteq> bc_blocks c ! j \<longrightarrow> j = i \<and> bb_ref_count (bc_blocks c' ! j) = 0)"
  using inv b
proof (cases rule: find_cases)
  case (hit i c1)
  hence "bb_blocknum (bc_blocks c1 ! i) = b" by (simp add: num_def word_unat_eq_iff)
  hence "find_or_fill_block b (c, s) = Some (Some i, c1, s)" using hit(1) by (simp add: find_or_fill_block_def)
  thus ?thesis using hit by auto
next
  case (miss c1 i c2 s2)
  have a: "shape c2 = shape c1" "i \<in> set (bc_lru_list c2)" "entries_inv w (set (bc_lru_list c2) - {i}) c2 s2" "lists_inv c2"
    "bb_ref_count (bc_blocks c2 ! i) = 0" "\<not> bb_is_dirty (bc_blocks c2 ! i)"
    "\<forall>j. j \<noteq> i \<longrightarrow> bc_blocks c2 ! j = bc_blocks c1 ! j" "set (bc_lru_list c2) = insert i (set (bc_lru_list c1))"
    using miss(3) unfolding handed_out_def by blast+
  have il: "i < length (bc_blocks c2)" using a(2,3,4) by (auto simp: lists_inv_def entries_inv_def)
  have sh: "shape c2 = shape c" using a(1) miss(6) by (simp add: shape_def core_def)
  have bs: "bsize c2 = bsize c" "bsize c1 = bsize c" "is_window w c2 s2"
    using shape_bsize[OF sh] core_irrelevant(4)[OF miss(6)] a(3) by (simp_all add: entries_inv_def)
  have dev: "on_device w (bsize c2) (unat b)" using b bs by (simp add: fillable_def)
  let ?x = "dev_block w (bsize c) s2 (unat b)"
  let ?e = "(bc_blocks c2 ! i)\<lparr>bb_blocknum := b, bb_ptr := ?x\<rparr>"
  let ?c = "upd_block i (\<lambda>_. ?e) c2"
  let ?c' = "?c\<lparr>bc_stats := bs_reads_update (\<lambda>n. n + 1) (bc_stats c2)\<rparr>"
  have ptr: "length (bb_ptr (bc_blocks c2 ! i)) = bsize c2" using a(3) il by (simp add: entries_inv_def)
  have rd: "bio_read (bc_dev c2) (bb_ptr (bc_blocks c2 ! i)) 0 (block_offset c2 b) (bc_block_size c2) s2 = Some (int (bsize c), ?x)"
    using dev_read[OF bs(3) dev ptr] bs(1) by simp
  have nn: "\<not> to_int (int (bsize c)) < 0" using to_int_id bs by (simp add: is_window_def)
  have up: "upd_block i (bb_ptr_update (\<lambda>_. ?x)) (upd_block i (bb_blocknum_update (\<lambda>_. b)) c2) = ?c"
    using il by (simp add: upd_block_def)
  have "find_or_fill_block b (c, s) = Some (Some i, ?c', s2)"
    using miss(1,2) rd nn il unfolding find_or_fill_block_def Let_def
    by (simp add: upd_block_def block_offset_def split_beta)
  moreover have filled: "cache_inv w ?c s2 \<and> view w ?c s2 = (view w c1 s)(unat b := ?x) \<and> pinned_kept c1 ?c \<and> num ?c i = unat b"
  proof -
    obtain r base n where w: "w = (r, base, n)" by (cases w)
    have lx: "length ?x = bsize c1"
      using block_place[OF bs(3) w dev] length_window_data bs by (fastforce simp: dev_block_def w)
    have "entry_ok w (bsize c1) s2 ?e" using dev bs a(5) by (simp add: entry_ok_def)
    thus ?thesis using fill_handed_out[OF miss(3,4), of ?e] miss(8) lx by simp
  qed
  moreover have x: "?x = view w c1 s (unat b)"
  proof -
    have v: "view_of w (set (bc_lru_list c2) - {i}) c2 s2 = view w c1 s"
      "num c2 ` (set (bc_lru_list c2) - {i}) \<subseteq> num c1 ` set (bc_lru_list c1)"
      using miss(3) unfolding handed_out_def by blast+
    have "unat b \<notin> num c2 ` (set (bc_lru_list c2) - {i})" using v(2) miss(8) by blast
    from view_out[OF this, of w s2] show ?thesis using v(1) bs(1) by simp
  qed
  moreover have "cache_inv w ?c' s2" using filled by (simp add: cache_inv_stats)
  moreover have "(view w c1 s)(unat b := ?x) = view w c1 s" unfolding x by (rule fun_upd_triv)
  with filled have "view w ?c s2 = view w c1 s" by (elim conjE) (erule trans)
  hence "view w ?c s2 = view w c s" unfolding miss(5) .
  hence "view w ?c' s2 = view w c s" by (simp add: cache_inv_stats)
  moreover have "pinned_kept c ?c'" unfolding pinned_kept_stats using filled by (intro pinned_kept_trans[OF miss(6,7)]) blast
  moreover have "\<forall>j\<in>set (bc_lru_list ?c'). j \<notin> set (bc_lru_list c) \<or> bc_blocks ?c' ! j \<noteq> bc_blocks c ! j \<longrightarrow>
    j = i \<and> bb_ref_count (bc_blocks ?c' ! j) = 0"
    using a(5,7,8) il miss(6,7) by (auto simp: upd_block_def core_def nth_list_update)
  moreover have "i \<in> set (bc_lru_list ?c')" "num ?c' i = unat b" "shape ?c' = shape c"
    using a(2) filled sh by (simp_all add: upd_block_def num_def shape_def)
  ultimately show ?thesis by blast
qed

section \<open>Histories of calls\<close>

text \<open>
  The state is the pointers the clients hold (pairs of a block number and the entry that
  \<^verbatim>\<open>bcache_get_block\<close> returned), the cache and the devices. \<open>Store_block\<close> is a client that writes through
  its pointer and then calls \<^verbatim>\<open>bcache_mark_block_dirty\<close>.
\<close>

datatype bc_call =
    Read_block u32
  | Get_block u32
  | Put_block u32 nat
  | Store_block u32 nat "u8 list"
  | Zero_block u32
  | Flush_blocks

type_synonym bc_state = "(u32 \<times> nat) list \<times> bcache \<times> bio"

fun bc_perform :: "bc_call \<Rightarrow> bc_state \<Rightarrow> ((int \<times> u8 list) \<times> bc_state) option" where
  "bc_perform (Read_block b) (H, c, s) = do {
     (rc, buf, c, s) \<leftarrow> bcache_read_block (replicate (bsize c) 0) b (c, s);
     Some ((rc, buf), H, c, s)
   }"
| "bc_perform (Get_block b) (H, c, s) = do {
     (rc, p, c, s) \<leftarrow> bcache_get_block b (c, s);
     (case p of None \<Rightarrow> Some ((rc, []), H, c, s) | Some i \<Rightarrow> Some ((rc, bb_ptr (bc_blocks c ! i)), (b, i) # H, c, s))
   }"
| "bc_perform (Put_block b i) (H, c, s) = do {
     (rc, c, s) \<leftarrow> bcache_put_block b (c, s);
     Some ((rc, []), remove1 (b, i) H, c, s)
   }"
| "bc_perform (Store_block b i x) (H, c, s) = do {
     (rc, c, s) \<leftarrow> bcache_mark_block_dirty b (upd_block i (bb_ptr_update (\<lambda>_. x)) c, s);
     Some ((rc, []), H, c, s)
   }"
| "bc_perform (Zero_block b) (H, c, s) = do {
     (rc, c, s) \<leftarrow> bcache_zero_block b (c, s);
     Some ((rc, []), H, c, s)
   }"
| "bc_perform Flush_blocks (H, c, s) = do {
     (rc, c, s) \<leftarrow> bcache_flush (c, s);
     Some ((rc, []), H, c, s)
   }"

text \<open>The same calls on an array of blocks of \<open>bs\<close> bytes: the specification.\<close>

fun array_step :: "nat \<Rightarrow> bc_call \<Rightarrow> (nat \<Rightarrow> u8 list) \<Rightarrow> (int \<times> u8 list) \<times> (nat \<Rightarrow> u8 list)" where
  "array_step bs (Read_block b) A = ((0, A (unat b)), A)"
| "array_step bs (Get_block b) A = ((0, A (unat b)), A)"
| "array_step bs (Put_block b i) A = ((0, []), A)"
| "array_step bs (Store_block b i x) A = ((0, []), A(unat b := x))"
| "array_step bs (Zero_block b) A = ((0, []), A(unat b := replicate bs 0))"
| "array_step bs Flush_blocks A = ((0, []), A)"

text \<open>
  What the clients have to respect: blocks on the device; not more pointers to different blocks at a
  time than the cache has entries; only pointers they hold are used and given back.
\<close>

fun bc_allowed :: "nat \<times> nat \<times> nat \<Rightarrow> bc_call \<Rightarrow> bc_state \<Rightarrow> bool" where
  "bc_allowed w (Put_block b i) (H, c, s) = ((b, i) \<in> set H)"
| "bc_allowed w (Store_block b i x) (H, c, s) = ((b, i) \<in> set H \<and> length x = bsize c)"
| "bc_allowed w Flush_blocks (H, c, s) = True"
| "bc_allowed w (Read_block b) (H, c, s) =
     (on_device w (bsize c) (unat b) \<and> (b \<in> fst ` set H \<or> card (snd ` set H) < bc_count c))"
| "bc_allowed w (Get_block b) (H, c, s) =
     (on_device w (bsize c) (unat b) \<and> (b \<in> fst ` set H \<or> card (snd ` set H) < bc_count c))"
| "bc_allowed w (Zero_block b) (H, c, s) =
     (on_device w (bsize c) (unat b) \<and> (b \<in> fst ` set H \<or> card (snd ` set H) < bc_count c))"

definition refs_inv :: "(u32 \<times> nat) list \<Rightarrow> bcache \<Rightarrow> bool" where
  "refs_inv H c \<longleftrightarrow> (\<forall>i\<in>set (bc_lru_list c). bb_ref_count (bc_blocks c ! i) = int (count_list (map snd H) i)) \<and>
     (\<forall>(b, i)\<in>set H. i \<in> set (bc_lru_list c) \<and> bb_blocknum (bc_blocks c ! i) = b)"

definition bc_inv :: "nat \<times> nat \<times> nat \<Rightarrow> bc_state \<Rightarrow> bool" where
  "bc_inv w = (\<lambda>(H, c, s). cache_inv w c s \<and> refs_inv H c)"

lemma handle_cached: "refs_inv H c \<Longrightarrow> b \<in> fst ` set H \<Longrightarrow> cached c b"
  by (force simp: refs_inv_def cached_def num_def)

lemma allowed_fillable:
  assumes inv: "bc_inv w (H, c, s)" and b: "on_device w (bsize c) (unat b)" "b \<in> fst ` set H \<or> card (snd ` set H) < bc_count c"
  shows "fillable w c b"
proof (cases "b \<in> fst ` set H")
  case True
  thus ?thesis using handle_cached inv b by (auto simp: bc_inv_def fillable_def)
next
  case False
  have "\<not> {..<bc_count c} \<subseteq> snd ` set H"
  proof
    assume "{..<bc_count c} \<subseteq> snd ` set H"
    from card_mono[OF _ this] show False using False b by simp
  qed
  then obtain j where j: "j < bc_count c" "j \<notin> snd ` set H" by auto
  hence "count_list (map snd H) j = 0" by (simp add: count_list_0_iff)
  moreover have "set (bc_lru_list c @ bc_free_list c) = {..<bc_count c}" using inv by (simp add: bc_inv_def cache_inv_def lists_inv_def)
  hence "j \<in> set (bc_lru_list c) \<or> j \<in> set (bc_free_list c)" using j(1) by auto
  ultimately have "room c" using inv by (auto simp: room_def bc_inv_def refs_inv_def)
  thus ?thesis using b(1) by (simp add: fillable_def)
qed

lemma count_held: "(0 < count_list (map snd H) i) = (i \<in> snd ` set H)"
  using count_list_0_iff[of "map snd H" i] by auto

text \<open>Keeping the entries in use keeps the agreement with the clients' pointers.\<close>

lemma refs_kept:
  assumes refs: "refs_inv H c" and k: "pinned_kept c c'"
    and z: "\<forall>j\<in>set (bc_lru_list c'). j \<notin> set (bc_lru_list c) \<or> bc_blocks c' ! j \<noteq> bc_blocks c ! j \<longrightarrow> bb_ref_count (bc_blocks c' ! j) = 0"
  shows "refs_inv H c'"
proof -
  have pin: "j \<in> set (bc_lru_list c) \<and> 0 < bb_ref_count (bc_blocks c ! j) \<and> j \<in> set (bc_lru_list c') \<and> bc_blocks c' ! j = bc_blocks c ! j"
    if "j \<in> snd ` set H" for j
  proof -
    have "j \<in> set (bc_lru_list c)" using refs that by (auto simp: refs_inv_def)
    moreover have "0 < count_list (map snd H) j" using that by (simp only: count_held)
    ultimately show ?thesis using refs k by (auto simp: refs_inv_def pinned_kept_def)
  qed
  show ?thesis unfolding refs_inv_def
  proof (intro conjI ballI)
    fix i assume i: "i \<in> set (bc_lru_list c')"
    show "bb_ref_count (bc_blocks c' ! i) = int (count_list (map snd H) i)"
    proof (cases "i \<in> snd ` set H")
      case True
      thus ?thesis using pin[OF True] refs by (simp add: refs_inv_def)
    next
      case False
      hence "count_list (map snd H) i = 0" by (simp add: count_list_0_iff)
      thus ?thesis using bspec[OF z i] refs
        by (cases "i \<in> set (bc_lru_list c) \<and> bc_blocks c' ! i = bc_blocks c ! i") (auto simp: refs_inv_def)
    qed
  next
    fix h assume h: "h \<in> set H"
    show "case h of (b, i) \<Rightarrow> i \<in> set (bc_lru_list c') \<and> bb_blocknum (bc_blocks c' ! i) = b"
    proof (cases h)
      case (Pair b i)
      hence "i \<in> snd ` set H" "bb_blocknum (bc_blocks c ! i) = b" using h refs unfolding refs_inv_def by force+
      thus ?thesis using pin[of i] unfolding Pair by simp
    qed
  qed
qed

lemma entry_view:
  assumes "cache_inv w c s" "i \<in> set (bc_lru_list c)" "num c i = unat b"
  shows "bb_ptr (bc_blocks c ! i) = view w c s (unat b)" "length (bb_ptr (bc_blocks c ! i)) = bsize c" "i < length (bc_blocks c)"
proof -
  have inv: "entries_inv w (set (bc_lru_list c)) c s" using assms(1) by (simp add: cache_inv_def)
  show "bb_ptr (bc_blocks c ! i) = view w c s (unat b)" using view_in[OF inv assms(2)] assms(3) by simp
  show "i < length (bc_blocks c)" using inv assms(2) by (auto simp: entries_inv_def)
  thus "length (bb_ptr (bc_blocks c ! i)) = bsize c" using inv by (simp add: entries_inv_def)
qed

text \<open>Changing an entry in place, as the operations on cached blocks do.\<close>

lemma modify_cached:
  assumes inv: "cache_inv w c s" and i: "i \<in> set (bc_lru_list c)"
    and e: "length (bb_ptr (f (bc_blocks c ! i))) = bsize c" "entry_ok w (bsize c) s (f (bc_blocks c ! i))"
      "bb_blocknum (f (bc_blocks c ! i)) = bb_blocknum (bc_blocks c ! i)"
  shows "cache_inv w (upd_block i f c) s" "view w (upd_block i f c) s = (view w c s)(num c i := bb_ptr (f (bc_blocks c ! i)))"
proof -
  have ent: "entries_inv w (set (bc_lru_list c)) c s" using inv by (simp add: cache_inv_def)
  note m = modify_entry[OF ent i e, folded upd_block_const]
  have lru: "bc_lru_list (upd_block i f c) = bc_lru_list c" by (simp add: upd_block_def)
  have "i \<notin> set (bc_free_list c)" using inv i by (auto simp: cache_inv_def lists_inv_def)
  hence "lists_inv (upd_block i f c)" using inv
    by (auto simp: cache_inv_def lists_inv_def upd_block_def) (metis nth_list_update_neq)
  thus "cache_inv w (upd_block i f c) s" using m(1) by (simp add: cache_inv_def lru)
  show "view w (upd_block i f c) s = (view w c s)(num c i := bb_ptr (f (bc_blocks c ! i)))" using m(2) by (simp add: lru)
qed

definition steps_to :: "nat \<times> nat \<times> nat \<Rightarrow> bc_call \<Rightarrow> bc_state \<Rightarrow> bool" where
  "steps_to w k = (\<lambda>(H, c, s). \<exists>H' c' s'. bc_perform k (H, c, s) = Some (fst (array_step (bsize c) k (view w c s)), H', c', s') \<and>
     bc_inv w (H', c', s') \<and> view w c' s' = snd (array_step (bsize c) k (view w c s)) \<and> shape c' = shape c)"

lemma read_step:
  assumes inv: "bc_inv w (H, c, s)" and b: "fillable w c b"
  shows "steps_to w (Read_block b) (H, c, s)"
proof -
  obtain i c' s' where f: "find_or_fill_block b (c, s) = Some (Some i, c', s')" "cache_inv w c' s'" "view w c' s' = view w c s"
    "shape c' = shape c" "pinned_kept c c'" "i \<in> set (bc_lru_list c')" "num c' i = unat b"
    "\<forall>j\<in>set (bc_lru_list c'). j \<notin> set (bc_lru_list c) \<or> bc_blocks c' ! j \<noteq> bc_blocks c ! j \<longrightarrow> j = i \<and> bb_ref_count (bc_blocks c' ! j) = 0"
    using find_or_fill_ok[OF _ b] inv unfolding bc_inv_def by blast
  note e = entry_view[OF f(2,6,7)]
  have bs: "unat (bc_block_size c') = bsize c" "bsize c' = bsize c" using f(4) by (simp_all add: shape_def bsize_def)
  have "bcache_read_block (replicate (bsize c) 0) b (c, s) = Some (0, view w c s (unat b), c', s')"
    using f(1,3) e bs unfolding bcache_read_block_def by (simp add: memcpy_from_def memcpy_to_def)
  moreover have "refs_inv H c'" using inv f(5,8) by (intro refs_kept[of H c c']) (auto simp: bc_inv_def)
  ultimately show ?thesis using f(2,3,4) by (simp add: steps_to_def bc_inv_def)
qed

lemma get_step:
  assumes inv: "bc_inv w (H, c, s)" and b: "fillable w c b"
  shows "steps_to w (Get_block b) (H, c, s)"
proof -
  obtain i c' s' where f: "find_or_fill_block b (c, s) = Some (Some i, c', s')" "cache_inv w c' s'" "view w c' s' = view w c s"
    "shape c' = shape c" "pinned_kept c c'" "i \<in> set (bc_lru_list c')" "num c' i = unat b"
    "\<forall>j\<in>set (bc_lru_list c'). j \<notin> set (bc_lru_list c) \<or> bc_blocks c' ! j \<noteq> bc_blocks c ! j \<longrightarrow> j = i \<and> bb_ref_count (bc_blocks c' ! j) = 0"
    using find_or_fill_ok[OF _ b] inv unfolding bc_inv_def by blast
  note e = entry_view[OF f(2,6,7)]
  let ?f = "bb_ref_count_update (\<lambda>n. n + 1)"
  let ?c = "upd_block i ?f c'"
  have refs: "refs_inv H c'" using inv f(5,8) by (intro refs_kept[of H c c']) (auto simp: bc_inv_def)
  have ok: "entry_ok w (bsize c') s' (bc_blocks c' ! i)" using f(2,6) by (simp add: cache_inv_def entries_inv_def)
  have m: "cache_inv w ?c s'" "view w ?c s' = view w c s"
    using modify_cached[OF f(2,6), of ?f] e ok f(3,7) by (simp_all add: entry_ok_def)
  have bn: "bb_blocknum (bc_blocks c' ! i) = b" using f(7) by (simp add: num_def word_unat_eq_iff)
  have "refs_inv ((b, i) # H) ?c"
    using refs e(3) bn f(6) by (auto simp: refs_inv_def upd_block_def nth_list_update)
  moreover have "bb_ptr (bc_blocks ?c ! i) = view w c s (unat b)" using e(1,3) f(3) by (simp add: upd_block_def)
  ultimately show ?thesis using f(1,4) m by (simp add: steps_to_def bc_inv_def bcache_get_block_def)
qed

lemma find_hit:
  assumes inv: "cache_inv w c s" and i: "i \<in> set (bc_lru_list c)" "num c i = unat b"
  shows "\<exists>c'. find_block b c = Some (Some i, c') \<and> cache_inv w c' s \<and> view w c' s = view w c s \<and> shape c' = shape c \<and>
    bc_blocks c' = bc_blocks c \<and> set (bc_lru_list c') = set (bc_lru_list c)"
proof -
  obtain r c' where f: "find_block b c = Some (r, c')" "cache_inv w c' s" "view w c' s = view w c s" "core c' = core c"
    "set (bc_lru_list c') = set (bc_lru_list c)"
    "case r of Some i \<Rightarrow> i \<in> set (bc_lru_list c) \<and> num c i = unat b | None \<Rightarrow> unat b \<notin> num c ` set (bc_lru_list c)"
    using find_block_ok[OF inv, of b] by blast
  have "inj_on (num c) (set (bc_lru_list c))" using inv by (simp add: cache_inv_def entries_inv_def)
  hence "r = Some i" using f(6) i by (cases r) (auto simp: inj_on_def, metis image_eqI)
  thus ?thesis using f by (simp add: core_def shape_def)
qed

lemma held_entry: "bc_inv w (H, c, s) \<Longrightarrow> (b, i) \<in> set H \<Longrightarrow> i \<in> set (bc_lru_list c) \<and> num c i = unat b \<and> 0 < bb_ref_count (bc_blocks c ! i)"
proof -
  assume inv: "bc_inv w (H, c, s)" and h: "(b, i) \<in> set H"
  have i: "i \<in> set (bc_lru_list c)" "bb_blocknum (bc_blocks c ! i) = b" using inv h by (auto simp: bc_inv_def refs_inv_def)
  have "i \<in> snd ` set H" using h by force
  hence "0 < count_list (map snd H) i" by (simp only: count_held)
  thus ?thesis using inv i by (simp add: bc_inv_def refs_inv_def num_def)
qed

lemma count_remove1:
  "(b, i) \<in> set H \<Longrightarrow> count_list (map snd H) j = count_list (map snd (remove1 (b, i) H)) j + (if j = i then 1 else 0)"
  by (induction H) auto

lemma refs_modify:
  assumes "refs_inv H c" "set (bc_lru_list c') = set (bc_lru_list c)"
    "\<And>j. j \<in> set (bc_lru_list c) \<Longrightarrow> bb_ref_count (bc_blocks c' ! j) = bb_ref_count (bc_blocks c ! j) \<and> bb_blocknum (bc_blocks c' ! j) = bb_blocknum (bc_blocks c ! j)"
  shows "refs_inv H c'"
  using assms by (fastforce simp: refs_inv_def)

lemma put_step:
  assumes inv: "bc_inv w (H, c, s)" and h: "(b, i) \<in> set H"
  shows "steps_to w (Put_block b i) (H, c, s)"
proof -
  have i: "i \<in> set (bc_lru_list c)" "num c i = unat b" "0 < bb_ref_count (bc_blocks c ! i)" using held_entry[OF inv h] by auto
  obtain c' where f: "find_block b c = Some (Some i, c')" "cache_inv w c' s" "view w c' s = view w c s" "shape c' = shape c"
    "bc_blocks c' = bc_blocks c" "set (bc_lru_list c') = set (bc_lru_list c)"
    using find_hit[OF _ i(1,2)] inv unfolding bc_inv_def by blast
  let ?f = "bb_ref_count_update (\<lambda>n. n - 1)"
  let ?c = "upd_block i ?f c'"
  have i': "i \<in> set (bc_lru_list c')" "num c' i = unat b" using i f(5,6) by (simp_all add: num_def)
  note e = entry_view[OF f(2) i']
  have ok: "entry_ok w (bsize c') s (bc_blocks c' ! i)" using f(2) i'(1) by (simp add: cache_inv_def entries_inv_def)
  have m: "cache_inv w ?c s" "view w ?c s = view w c s"
    using modify_cached[OF f(2) i'(1), of ?f] e ok f(3,5) i' i(3) by (simp_all add: entry_ok_def)
  have "refs_inv (remove1 (b, i) H) ?c" unfolding refs_inv_def
  proof (intro conjI ballI)
    fix j assume "j \<in> set (bc_lru_list ?c)"
    thus "bb_ref_count (bc_blocks ?c ! j) = int (count_list (map snd (remove1 (b, i) H)) j)"
      using inv e(3) f(5,6) count_remove1[OF h, of j] by (auto simp: bc_inv_def refs_inv_def upd_block_def nth_list_update)
  next
    fix p assume "p \<in> set (remove1 (b, i) H)"
    hence "p \<in> set H" by (meson notin_set_remove1)
    thus "case p of (b, j) \<Rightarrow> j \<in> set (bc_lru_list ?c) \<and> bb_blocknum (bc_blocks ?c ! j) = b"
      using inv e(3) f(5,6) by (cases p) (auto simp: bc_inv_def refs_inv_def upd_block_def nth_list_update)
  qed
  moreover have "bcache_put_block b (c, s) = Some (0, ?c, s)" using f(1,5) i(3) by (simp add: bcache_put_block_def)
  ultimately show ?thesis using m f(4) by (simp add: steps_to_def bc_inv_def)
qed

lemma find_block_upd:
  assumes "\<And>e. bb_blocknum (f e) = bb_blocknum e"
  shows "find_block b (upd_block i f c) = map_option (\<lambda>(r, c'). (r, upd_block i f c')) (find_block b c)"
proof -
  have "bb_blocknum (bc_blocks (upd_block i f c) ! j) = bb_blocknum (bc_blocks c ! j)" for j
    using assms by (cases "i < length (bc_blocks c)") (simp_all add: upd_block_def nth_list_update list_update_beyond)
  hence "find_pos (\<lambda>j. bb_blocknum (bc_blocks (upd_block i f c) ! j) = b) (bc_lru_list (upd_block i f c)) =
    find_pos (\<lambda>j. bb_blocknum (bc_blocks c ! j) = b) (bc_lru_list c)" by (simp add: upd_block_def)
  thus ?thesis unfolding find_block_def ASSERT_def Let_def
    by (auto simp: upd_block_def move_to_tail_def split: option.splits)
qed

lemma store_step:
  assumes inv: "bc_inv w (H, c, s)" and h: "(b, i) \<in> set H" and x: "length x = bsize c"
  shows "steps_to w (Store_block b i x) (H, c, s)"
proof -
  have i: "i \<in> set (bc_lru_list c)" "num c i = unat b" using held_entry[OF inv h] by auto
  obtain c' where f: "find_block b c = Some (Some i, c')" "cache_inv w c' s" "view w c' s = view w c s" "shape c' = shape c"
    "bc_blocks c' = bc_blocks c" "set (bc_lru_list c') = set (bc_lru_list c)"
    using find_hit[OF _ i] inv unfolding bc_inv_def by blast
  let ?f = "\<lambda>e. e\<lparr>bb_ptr := x, bb_is_dirty := True\<rparr>"
  let ?c = "upd_block i ?f c'"
  have i': "i \<in> set (bc_lru_list c')" "num c' i = unat b" using i f(5,6) by (simp_all add: num_def)
  note e = entry_view[OF f(2) i']
  have bs: "bsize c' = bsize c" using shape_bsize[OF f(4)] by simp
  have ok: "entry_ok w (bsize c') s (bc_blocks c' ! i)" using f(2) i'(1) by (simp add: cache_inv_def entries_inv_def)
  have m: "cache_inv w ?c s" "view w ?c s = (view w c s)(unat b := x)"
    using modify_cached[OF f(2) i'(1), of ?f] e ok x f(3) i' bs by (simp_all add: entry_ok_def)
  have "refs_inv H ?c" using inv e(3) f(5,6) unfolding bc_inv_def
    by (intro refs_modify[of H c ?c]) (auto simp: upd_block_def nth_list_update)
  moreover have "bcache_mark_block_dirty b (upd_block i (bb_ptr_update (\<lambda>_. x)) c, s) = Some (0, ?c, s)"
    using f(1) e(3) by (simp add: bcache_mark_block_dirty_def find_block_upd) (simp add: upd_block_def)
  ultimately show ?thesis using m f(4) by (simp add: steps_to_def bc_inv_def)
qed

lemma zero_step:
  assumes inv: "bc_inv w (H, c, s)" and b: "fillable w c b"
  shows "steps_to w (Zero_block b) (H, c, s)"
proof -
  have ci: "cache_inv w c s" and refs: "refs_inv H c" using inv by (simp_all add: bc_inv_def)
  let ?z = "replicate (bsize c) (0 :: u8)"
  show ?thesis using ci b
  proof (cases rule: find_cases)
    case (hit i c1)
    let ?f = "\<lambda>e. e\<lparr>bb_ptr := ?z, bb_is_dirty := True\<rparr>"
    let ?c = "upd_block i ?f c1"
    note e = entry_view[OF hit(2,6,7)]
    have bs: "bsize c1 = bsize c" "unat (bc_block_size c1) = bsize c" using shape_bsize[OF hit(4)] by (simp_all add: bsize_def)
    have ok: "entry_ok w (bsize c1) s (bc_blocks c1 ! i)" using hit(2,6) by (simp add: cache_inv_def entries_inv_def)
    have m: "cache_inv w ?c s" "view w ?c s = (view w c s)(unat b := ?z)"
      using modify_cached[OF hit(2,6), of ?f] e ok hit(3,7) bs by (simp_all add: entry_ok_def)
    have "refs_inv H ?c" using refs e(3) hit(8,9)
      by (intro refs_modify[of H c ?c]) (auto simp: upd_block_def nth_list_update)
    moreover have "bcache_zero_block b (c, s) = Some (0, ?c, s)"
      using hit(1) e(2) bs by (simp add: bcache_zero_block_def memcpy_to_def)
    ultimately show ?thesis using m hit(4) by (simp add: steps_to_def bc_inv_def)
  next
    case (miss c1 i c2 s2)
    have a: "shape c2 = shape c1" "i \<in> set (bc_lru_list c2)" "entries_inv w (set (bc_lru_list c2) - {i}) c2 s2" "lists_inv c2"
      "bb_ref_count (bc_blocks c2 ! i) = 0" "\<forall>j. j \<noteq> i \<longrightarrow> bc_blocks c2 ! j = bc_blocks c1 ! j"
      "set (bc_lru_list c2) = insert i (set (bc_lru_list c1))"
      using miss(3) unfolding handed_out_def by blast+
    have il: "i < length (bc_blocks c2)" using a(2,3,4) by (auto simp: lists_inv_def entries_inv_def)
    have sh: "shape c2 = shape c" using a(1) miss(6) by (simp add: shape_def core_def)
    have bs: "bsize c2 = bsize c" "bsize c1 = bsize c" "unat (bc_block_size c2) = bsize c"
      using shape_bsize[OF sh] core_irrelevant(4)[OF miss(6)] by (simp_all add: bsize_def)
    have ptr: "length (bb_ptr (bc_blocks c2 ! i)) = bsize c2" using a(3) il by (simp add: entries_inv_def)
    let ?e = "(bc_blocks c2 ! i)\<lparr>bb_blocknum := b, bb_ptr := ?z, bb_is_dirty := True\<rparr>"
    let ?c = "upd_block i (\<lambda>_. ?e) c2"
    have "entry_ok w (bsize c1) s2 ?e" using b bs a(5) by (simp add: entry_ok_def fillable_def)
    hence f: "cache_inv w ?c s2" "view w ?c s2 = (view w c s)(unat b := ?z)" "pinned_kept c1 ?c"
      using fill_handed_out[OF miss(3,4), of ?e] miss(5,8) bs by simp_all
    have "pinned_kept c ?c" by (rule pinned_kept_trans[OF miss(6,7) f(3)])
    hence "refs_inv H ?c" using a(5,6,7) il miss(6,7)
      by (intro refs_kept[OF refs]) (auto simp: upd_block_def core_def nth_list_update)
    moreover have "bcache_zero_block b (c, s) = Some (0, ?c, s2)"
      using miss(1,2) ptr bs il by (simp add: bcache_zero_block_def memcpy_to_def upd_block_def)
    ultimately show ?thesis using f sh by (simp add: steps_to_def bc_inv_def)
  qed
qed

lemma flush_walk_ok:
  assumes "cache_inv w c s" "set is' \<subseteq> set (bc_lru_list c)"
  shows "\<exists>c' s'. flush_walk is' (c, s) = Some (0, c', s') \<and> cache_inv w c' s' \<and> view w c' s' = view w c s \<and> shape c' = shape c \<and>
    bc_lru_list c' = bc_lru_list c \<and> (\<forall>j. \<exists>d. bc_blocks c' ! j = (bc_blocks c ! j)\<lparr>bb_is_dirty := d\<rparr> \<and>
      (d \<longrightarrow> bb_is_dirty (bc_blocks c ! j) \<and> j \<notin> set is'))"
  using assms
proof (induction is' arbitrary: c s)
  case Nil
  have "bc_blocks c ! j = (bc_blocks c ! j)\<lparr>bb_is_dirty := bb_is_dirty (bc_blocks c ! j)\<rparr>" for j by simp
  thus ?case using Nil by fastforce
next
  case (Cons i js)
  show ?case
  proof (cases "bb_is_dirty (bc_blocks c ! i)")
    case False
    obtain c' s' where r: "flush_walk js (c, s) = Some (0, c', s')" "cache_inv w c' s'" "view w c' s' = view w c s" "shape c' = shape c"
      "bc_lru_list c' = bc_lru_list c" "\<forall>j. \<exists>d. bc_blocks c' ! j = (bc_blocks c ! j)\<lparr>bb_is_dirty := d\<rparr> \<and>
      (d \<longrightarrow> bb_is_dirty (bc_blocks c ! j) \<and> j \<notin> set js)"
      using Cons.IH[OF Cons.prems(1)] Cons.prems(2) by auto
    have "\<forall>j. \<exists>d. bc_blocks c' ! j = (bc_blocks c ! j)\<lparr>bb_is_dirty := d\<rparr> \<and> (d \<longrightarrow> bb_is_dirty (bc_blocks c ! j) \<and> j \<notin> set (i # js))"
      using r(6) False by (metis set_ConsD)
    thus ?thesis using r False by auto
  next
    case True
    have ent: "entries_inv w (set (bc_lru_list c)) c s" and i: "i \<in> set (bc_lru_list c)" "i < length (bc_blocks c)"
      using Cons.prems by (auto simp: cache_inv_def entries_inv_def)
    let ?f = "bb_is_dirty_update (\<lambda>_. False)"
    let ?d = "upd_block i ?f c"
    let ?c = "upd_block i ?f (c\<lparr>bc_stats := bs_writes_update (\<lambda>n. n + 1) (bc_stats c)\<rparr>)"
    obtain s1 where f: "flush_block i (c, s) = Some (0, ?c, s1)" "entries_inv w (set (bc_lru_list c)) ?d s1"
      "view_of w (set (bc_lru_list c)) ?d s1 = view w c s"
      using flush_block_ok[OF ent i(1)] by blast
    have e: "core ?c = core ?d" "bc_lru_list ?c = bc_lru_list c" "shape ?c = shape c" by (simp_all add: core_def shape_def upd_block_def)
    have nth: "bc_blocks ?c ! j = (if j = i then (bc_blocks c ! i)\<lparr>bb_is_dirty := False\<rparr> else bc_blocks c ! j)" for j
      using i by (simp add: upd_block_def)
    have "lists_inv ?c" using Cons.prems(1) nth by (auto simp: cache_inv_def lists_inv_def upd_block_def)
    hence inv: "cache_inv w ?c s1" "view w ?c s1 = view w c s"
      using f core_irrelevant[OF e(1)] by (simp_all add: cache_inv_def e)
    obtain c' s' where r: "flush_walk js (?c, s1) = Some (0, c', s')" "cache_inv w c' s'" "view w c' s' = view w ?c s1" "shape c' = shape ?c"
      "bc_lru_list c' = bc_lru_list ?c" "\<forall>j. \<exists>d. bc_blocks c' ! j = (bc_blocks ?c ! j)\<lparr>bb_is_dirty := d\<rparr> \<and>
      (d \<longrightarrow> bb_is_dirty (bc_blocks ?c ! j) \<and> j \<notin> set js)"
      using Cons.IH[OF inv(1)] Cons.prems(2) e(2) by auto
    have "\<exists>d. bc_blocks c' ! j = (bc_blocks c ! j)\<lparr>bb_is_dirty := d\<rparr> \<and> (d \<longrightarrow> bb_is_dirty (bc_blocks c ! j) \<and> j \<notin> set (i # js))" for j
      using spec[OF r(6), of j] unfolding nth by (cases "j = i") auto
    thus ?thesis using r(1-5) f(1) True inv(2) e(2,3) by simp
  qed
qed

lemma flush_step:
  assumes inv: "bc_inv w (H, c, s)"
  shows "\<exists>c' s'. bcache_flush (c, s) = Some (0, c', s') \<and> bc_inv w (H, c', s') \<and> view w c' s' = view w c s \<and> shape c' = shape c \<and>
    (\<forall>i\<in>set (bc_lru_list c'). \<not> bb_is_dirty (bc_blocks c' ! i))"
proof -
  have ci: "cache_inv w c s" and refs: "refs_inv H c" using inv by (simp_all add: bc_inv_def)
  obtain c' s' where r: "flush_walk (bc_lru_list c) (c, s) = Some (0, c', s')" "cache_inv w c' s'" "view w c' s' = view w c s" "shape c' = shape c"
    "bc_lru_list c' = bc_lru_list c" and d: "\<And>j. \<exists>d. bc_blocks c' ! j = (bc_blocks c ! j)\<lparr>bb_is_dirty := d\<rparr> \<and>
      (d \<longrightarrow> bb_is_dirty (bc_blocks c ! j) \<and> j \<notin> set (bc_lru_list c))"
    using flush_walk_ok[OF ci order_refl] by blast
  have "refs_inv H c'"
  proof (rule refs_modify[OF refs])
    fix j show "bb_ref_count (bc_blocks c' ! j) = bb_ref_count (bc_blocks c ! j) \<and> bb_blocknum (bc_blocks c' ! j) = bb_blocknum (bc_blocks c ! j)"
      using d[of j] by auto
  qed (simp add: r)
  moreover have "\<not> bb_is_dirty (bc_blocks c' ! i)" if "i \<in> set (bc_lru_list c')" for i using d[of i] that r(5) by auto
  moreover have "bcache_flush (c, s) = Some (0, c', s')" using r(1) ci by (simp add: bcache_flush_def cache_inv_def lists_inv_def)
  ultimately show ?thesis using r by (simp add: bc_inv_def)
qed

lemma bc_step:
  assumes inv: "bc_inv w (H, c, s)" and al: "bc_allowed w k (H, c, s)"
  shows "steps_to w k (H, c, s)"
proof (cases k)
  case (Read_block b)
  thus ?thesis using read_step[OF inv] allowed_fillable[OF inv] al by auto
next
  case (Get_block b)
  thus ?thesis using get_step[OF inv] allowed_fillable[OF inv] al by auto
next
  case (Put_block b i)
  thus ?thesis using put_step[OF inv] al by auto
next
  case (Store_block b i x)
  thus ?thesis using store_step[OF inv] al by auto
next
  case (Zero_block b)
  thus ?thesis using zero_step[OF inv] allowed_fillable[OF inv] al by auto
next
  case Flush_blocks
  thus ?thesis using flush_step[OF inv] by (auto simp: steps_to_def)
qed

text \<open>Runs of the cache, of the array, and the runs the clients may make.\<close>

fun bc_run :: "bc_call list \<Rightarrow> bc_state \<Rightarrow> ((int \<times> u8 list) list \<times> bc_state) option" where
  "bc_run [] st = Some ([], st)"
| "bc_run (k # ks) st = do { (x, st) \<leftarrow> bc_perform k st; (xs, st) \<leftarrow> bc_run ks st; Some (x # xs, st) }"

fun array_run :: "nat \<Rightarrow> bc_call list \<Rightarrow> (nat \<Rightarrow> u8 list) \<Rightarrow> (int \<times> u8 list) list \<times> (nat \<Rightarrow> u8 list)" where
  "array_run bs [] A = ([], A)"
| "array_run bs (k # ks) A = (let (x, A) = array_step bs k A; (xs, A) = array_run bs ks A in (x # xs, A))"

fun bc_admissible :: "nat \<times> nat \<times> nat \<Rightarrow> bc_call list \<Rightarrow> bc_state \<Rightarrow> bool" where
  "bc_admissible w [] st = True"
| "bc_admissible w (k # ks) st =
     (bc_allowed w k st \<and> (case bc_perform k st of None \<Rightarrow> True | Some (_, st) \<Rightarrow> bc_admissible w ks st))"

lemma bc_run_refines:
  assumes "bc_inv w (H, c, s)" "bc_admissible w ks (H, c, s)"
  shows "\<exists>H' c' s'. bc_run ks (H, c, s) = Some (fst (array_run (bsize c) ks (view w c s)), H', c', s') \<and> bc_inv w (H', c', s') \<and>
    view w c' s' = snd (array_run (bsize c) ks (view w c s)) \<and> shape c' = shape c"
  using assms
proof (induction ks arbitrary: H c s)
  case (Cons k ks)
  obtain H1 c1 s1 where 1: "bc_perform k (H, c, s) = Some (fst (array_step (bsize c) k (view w c s)), H1, c1, s1)" "bc_inv w (H1, c1, s1)"
    "view w c1 s1 = snd (array_step (bsize c) k (view w c s))" "shape c1 = shape c"
    using bc_step[OF Cons.prems(1), of k] Cons.prems(2) unfolding steps_to_def by auto
  have bs: "bsize c1 = bsize c" using shape_bsize[OF 1(4)] by simp
  obtain H2 c2 s2 where 2: "bc_run ks (H1, c1, s1) = Some (fst (array_run (bsize c) ks (view w c1 s1)), H2, c2, s2)" "bc_inv w (H2, c2, s2)"
    "view w c2 s2 = snd (array_run (bsize c) ks (view w c1 s1))" "shape c2 = shape c1"
    using Cons.IH[OF 1(2)] Cons.prems(2) 1(1) unfolding bs by auto
  show ?case using 1 2 by (simp add: split_beta)
qed simp

lemma bc_run_append:
  "bc_run (ks @ ls) st = do { (xs, st) \<leftarrow> bc_run ks st; (ys, st) \<leftarrow> bc_run ls st; Some (xs @ ys, st) }"
proof (induction ks arbitrary: st)
  case (Cons k ks)
  show ?case by (cases "bc_perform k st") (auto simp: Cons.IH split_beta bind_assoc Option.bind_eq_None_conv split: Option.bind_splits)
qed (simp add: split_beta)

lemma bcache_create_inv:
  assumes w: "window s d r base n" and bs: "0 < unat bs" "unat bs < 2 ^ 31" and j: "\<forall>i < m. length (snd (junk i)) = unat bs"
  shows "bc_inv (r, base, n) ([], bcache_create junk d bs m, s)"
    "view (r, base, n) (bcache_create junk d bs m) s = dev_block (r, base, n) (unat bs) s"
    "bsize (bcache_create junk d bs m) = unat bs"
proof -
  show b: "bsize (bcache_create junk d bs m) = unat bs" by (simp add: bsize_def bcache_create_def)
  have "lists_inv (bcache_create junk d bs m)" by (auto simp: lists_inv_def bcache_create_def)
  moreover have "entries_inv (r, base, n) {} (bcache_create junk d bs m) s"
    using w bs j b by (auto simp: entries_inv_def is_window_def bcache_create_def)
  moreover have e: "bc_lru_list (bcache_create junk d bs m) = []" by (simp add: bcache_create_def)
  ultimately show "bc_inv (r, base, n) ([], bcache_create junk d bs m, s)" by (simp add: bc_inv_def cache_inv_def refs_inv_def)
  show "view (r, base, n) (bcache_create junk d bs m) s = dev_block (r, base, n) (unat bs) s"
    using b by (simp add: e view_of_def fun_eq_iff)
qed

text \<open>Calls that leave no pointer behind need one entry only.\<close>

definition pinless :: "nat \<times> nat \<times> nat \<Rightarrow> nat \<Rightarrow> bc_call \<Rightarrow> bool" where
  "pinless w bs k = (case k of Read_block b \<Rightarrow> on_device w bs (unat b) | Zero_block b \<Rightarrow> on_device w bs (unat b) | Flush_blocks \<Rightarrow> True | _ \<Rightarrow> False)"

lemma pinless_admissible:
  assumes "bc_inv w ([], c, s)" "0 < bc_count c" "\<forall>k\<in>set ks. pinless w (bsize c) k"
  shows "bc_admissible w ks ([], c, s)"
  using assms
proof (induction ks arbitrary: c s)
  case (Cons k ks)
  have al: "bc_allowed w k ([], c, s)" using Cons.prems by (auto simp: pinless_def split: bc_call.splits)
  obtain H1 c1 s1 where 1: "bc_perform k ([], c, s) = Some (fst (array_step (bsize c) k (view w c s)), H1, c1, s1)" "bc_inv w (H1, c1, s1)"
    "shape c1 = shape c"
    using bc_step[OF Cons.prems(1) al] unfolding steps_to_def by auto
  have "H1 = []" using 1(1) Cons.prems(3) by (cases k) (auto simp: pinless_def split_beta bind_eq_Some_conv)
  thus ?case using al 1 Cons shape_bsize[OF 1(3)] by simp
qed simp

section \<open>Properties\<close>

text \<open>
  C8: The cache is transparent. Whatever a new cache's memory held, every sequence of reads, gets,
  puts, stores through pointers, zeroings and flushes that the clients may make returns, call by call, exactly what
  the same calls return on a plain array of blocks that starts as the contents of the device. No
  call fails.
\<close>

theorem bcache_transparent:
  assumes "window s d r base n" "0 < unat bs" "unat bs < 2 ^ 31" "\<forall>i < m. length (snd (junk i)) = unat bs"
    and "bc_admissible (r, base, n) ks ([], bcache_create junk d bs m, s)"
  shows "\<exists>st. bc_run ks ([], bcache_create junk d bs m, s) = Some (fst (array_run (unat bs) ks (dev_block (r, base, n) (unat bs) s)), st)"
  using bc_run_refines[OF bcache_create_inv(1)[OF assms(1-4)] assms(5)]
  unfolding bcache_create_inv(2,3)[OF assms(1-4)] by blast

theorem bcache_transparent_witness:
  "\<exists>st. bc_run [Zero_block 3, Read_block 4, Read_block 3] ([], bcache_create (\<lambda>_. (0, [5, 5])) 0 2 1, disk_bio) =
    Some ([(0, []), (0, replicate 2 7), (0, replicate 2 0)], st)"
proof -
  have "bc_admissible (0, 0, 1024) [Zero_block 3, Read_block 4, Read_block 3] ([], bcache_create (\<lambda>_. (0, [5, 5])) 0 2 1, disk_bio)"
    using bcache_create_inv[OF disk_window, of 2 1 "\<lambda>_. (0, [5, 5])"]
    by (intro pinless_admissible) (auto simp: pinless_def bsize_def bcache_create_def on_device_def)
  from bcache_transparent[OF disk_window _ _ _ this] show ?thesis
    by (simp add: dev_block_def window_data_def memory_def disk_bio_def disk_def)
qed

text \<open>
  C16: A flush writes everything back. After any such sequence followed by a flush, the device holds
  the contents of the array.
\<close>

theorem bcache_flush_durable:
  assumes "window s d r base n" "0 < unat bs" "unat bs < 2 ^ 31" "\<forall>i < m. length (snd (junk i)) = unat bs"
    and "bc_admissible (r, base, n) ks ([], bcache_create junk d bs m, s)"
  shows "\<exists>xs H c' s'. bc_run (ks @ [Flush_blocks]) ([], bcache_create junk d bs m, s) = Some (xs, H, c', s') \<and>
    dev_block (r, base, n) (unat bs) s' = snd (array_run (unat bs) ks (dev_block (r, base, n) (unat bs) s))"
proof -
  let ?w = "(r, base, n)"
  note new = bcache_create_inv[OF assms(1-4)]
  obtain H c1 s1 where 1: "bc_run ks ([], bcache_create junk d bs m, s) = Some (fst (array_run (unat bs) ks (dev_block ?w (unat bs) s)), H, c1, s1)"
    "bc_inv ?w (H, c1, s1)" "view ?w c1 s1 = snd (array_run (unat bs) ks (dev_block ?w (unat bs) s))" "shape c1 = shape (bcache_create junk d bs m)"
    using bc_run_refines[OF new(1) assms(5)] unfolding new(2,3) by blast
  obtain c2 s2 where 2: "bcache_flush (c1, s1) = Some (0, c2, s2)" "bc_inv ?w (H, c2, s2)" "view ?w c2 s2 = view ?w c1 s1" "shape c2 = shape c1"
    "\<forall>i\<in>set (bc_lru_list c2). \<not> bb_is_dirty (bc_blocks c2 ! i)"
    using flush_step[OF 1(2)] by blast
  have bs: "bsize c2 = unat bs" using shape_bsize[OF 2(4)] shape_bsize[OF 1(4)] new(3) by simp
  have inv: "entries_inv ?w (set (bc_lru_list c2)) c2 s2" using 2(2) by (simp add: bc_inv_def cache_inv_def)
  have "view ?w c2 s2 = dev_block ?w (unat bs) s2"
    by (rule view_eqI[OF inv]) (use inv 2(5) bs in \<open>auto simp: entries_inv_def entry_ok_def num_def\<close>)
  thus ?thesis using 1(1,3) 2(1,3) by (simp add: bc_run_append)
qed

theorem bcache_flush_durable_witness:
  "\<exists>xs H c' s'. bc_run ([Zero_block 3, Zero_block 4] @ [Flush_blocks]) ([], bcache_create (\<lambda>_. (0, [5, 5])) 0 2 1, disk_bio) = Some (xs, H, c', s') \<and>
    dev_block (0, 0, 1024) 2 s' = (dev_block (0, 0, 1024) 2 disk_bio)(3 := replicate 2 0, 4 := replicate 2 0)"
proof -
  have "bc_admissible (0, 0, 1024) [Zero_block 3, Zero_block 4] ([], bcache_create (\<lambda>_. (0, [5, 5])) 0 2 1, disk_bio)"
    using bcache_create_inv[OF disk_window, of 2 1 "\<lambda>_. (0, [5, 5])"]
    by (intro pinless_admissible) (auto simp: pinless_def bsize_def bcache_create_def on_device_def)
  from bcache_flush_durable[OF disk_window _ _ _ this] show ?thesis by (simp del: fun_upd_apply)
qed

text \<open>
  C17: Pointers stay valid. After any such sequence, every pointer a client holds is still an entry
  that carries the block it was given for, with the block's current contents and a reference count
  above 0, however many other blocks went through the cache.
\<close>

theorem bcache_pointers_valid:
  assumes "window s d r base n" "0 < unat bs" "unat bs < 2 ^ 31" "\<forall>i < m. length (snd (junk i)) = unat bs"
    and "bc_admissible (r, base, n) ks ([], bcache_create junk d bs m, s)"
  shows "\<exists>xs H c' s'. bc_run ks ([], bcache_create junk d bs m, s) = Some (xs, H, c', s') \<and>
    (\<forall>(b, i)\<in>set H. bb_blocknum (bc_blocks c' ! i) = b \<and> 0 < bb_ref_count (bc_blocks c' ! i) \<and>
      bb_ptr (bc_blocks c' ! i) = snd (array_run (unat bs) ks (dev_block (r, base, n) (unat bs) s)) (unat b))"
proof -
  let ?w = "(r, base, n)"
  note new = bcache_create_inv[OF assms(1-4)]
  obtain xs H c' s' where 1: "bc_run ks ([], bcache_create junk d bs m, s) = Some (xs, H, c', s')" "bc_inv ?w (H, c', s')"
    "view ?w c' s' = snd (array_run (unat bs) ks (dev_block ?w (unat bs) s))"
    using bc_run_refines[OF new(1) assms(5)] unfolding new(2,3) by blast
  have ci: "cache_inv ?w c' s'" using 1(2) by (simp add: bc_inv_def)
  have "bb_blocknum (bc_blocks c' ! i) = b \<and> 0 < bb_ref_count (bc_blocks c' ! i) \<and> bb_ptr (bc_blocks c' ! i) = view ?w c' s' (unat b)"
    if "(b, i) \<in> set H" for b i
  proof -
    have i: "i \<in> set (bc_lru_list c')" "num c' i = unat b" "0 < bb_ref_count (bc_blocks c' ! i)" using held_entry[OF 1(2) that] by auto
    thus ?thesis using entry_view(1)[OF ci i(1,2)] by (simp add: num_def word_unat_eq_iff)
  qed
  thus ?thesis using 1 by auto
qed

theorem bcache_pointers_valid_witness:
  "\<exists>xs H c' s'. bc_run [Get_block 1] ([], bcache_create (\<lambda>_. (0, [5, 5])) 0 2 1, disk_bio) = Some (xs, H, c', s') \<and>
    (\<forall>(b, i)\<in>set H. bb_blocknum (bc_blocks c' ! i) = b \<and> 0 < bb_ref_count (bc_blocks c' ! i) \<and>
      bb_ptr (bc_blocks c' ! i) = dev_block (0, 0, 1024) 2 disk_bio (unat b))"
  using bcache_pointers_valid[OF disk_window, of 2 1 "\<lambda>_. (0, [5, 5])" "[Get_block 1]"]
  by (simp add: on_device_def bsize_def bcache_create_def split: option.splits)



end
