(* ===== verification/LK_Libc.thy ===== *)
theory LK_Libc
  imports LK_Prelude
begin

text \<open>
  The string functions of the C library (\<^verbatim>\<open>lib/libc/string\<close>), the character classes (\<^verbatim>\<open>ctype.c\<close>) and the
  conversions from text (\<^verbatim>\<open>atoi.c\<close>). \<^verbatim>\<open>char\<close> is unsigned on arm64.

  Where overlap or alignment matters (\<^verbatim>\<open>memcpy\<close>, \<^verbatim>\<open>memmove\<close>, \<^verbatim>\<open>memset\<close>, \<^verbatim>\<open>strtok\<close>) the functions work on one memory, a list
  of bytes, and a pointer is an index into it. Elsewhere a pointer is the list of the bytes from
  it to the end of its object, and a returned pointer the distance from the argument. \<open>None\<close> is an
  access outside of the object.
\<close>

section \<open>Moving memory\<close>

text \<open>The value of a \<^verbatim>\<open>size_t\<close> assigned to the \<^verbatim>\<open>int\<close> that counts the loops.\<close>

definition int_of_size :: "u64 \<Rightarrow> int" where
  "int_of_size w = sint (ucast w :: 32 word)"

text \<open>The copying loops, upwards and downwards, with steps of \<open>k\<close> bytes.\<close>

fun copy_up :: "nat \<Rightarrow> nat \<Rightarrow> nat \<Rightarrow> nat \<Rightarrow> u8 list \<Rightarrow> u8 list option" where
  "copy_up k 0 d s m = Some m"
| "copy_up k (Suc n) d s m = do {
     x \<leftarrow> memcpy_from m s k;
     m \<leftarrow> memcpy_to m d x;
     copy_up k n (d + k) (s + k) m
   }"

fun copy_down :: "nat \<Rightarrow> nat \<Rightarrow> nat \<Rightarrow> nat \<Rightarrow> u8 list \<Rightarrow> u8 list option" where
  "copy_down k 0 d s m = Some m"
| "copy_down k (Suc n) d s m = do {
     ASSERT (k \<le> d \<and> k \<le> s);
     x \<leftarrow> memcpy_from m (s - k) k;
     m \<leftarrow> memcpy_to m (d - k) x;
     copy_down k n (d - k) (s - k) m
   }"

text \<open>
  \<^verbatim>\<open>lsize\<close> is 8; \<^verbatim>\<open>((long)d | (long)s) & lmask\<close> tells whether one of the pointers is not a multiple of 8 and
  \<^verbatim>\<open>((long)d ^ (long)s) & lmask\<close> whether they differ modulo 8.
\<close>

definition move_up :: "nat \<Rightarrow> nat \<Rightarrow> u64 \<Rightarrow> u8 list \<Rightarrow> u8 list option" where
  "move_up d s count m = do {
     let len = (if d mod 8 \<noteq> 0 \<or> s mod 8 \<noteq> 0
                then if d mod 8 \<noteq> s mod 8 \<or> count < 8 then int_of_size count else int (8 - d mod 8)
                else 0);
     let count = count - of_int len;
     m \<leftarrow> copy_up 1 (nat len) d s m;
     let d = d + nat len; let s = s + nat len;
     let words = nat (int_of_size (count div 8));
     m \<leftarrow> copy_up 8 words d s m;
     let d = d + 8 * words; let s = s + 8 * words;
     copy_up 1 (nat (int_of_size (count mod 8))) d s m
   }"

definition move_down :: "nat \<Rightarrow> nat \<Rightarrow> u64 \<Rightarrow> u8 list \<Rightarrow> u8 list option" where
  "move_down d s count m = do {
     let d = d + unat count; let s = s + unat count;
     let len = (if d mod 8 \<noteq> 0 \<or> s mod 8 \<noteq> 0
                then if d mod 8 \<noteq> s mod 8 \<or> count \<le> 8 then int_of_size count else int (d mod 8)
                else 0);
     let count = count - of_int len;
     m \<leftarrow> copy_down 1 (nat len) d s m;
     let d = d - nat len; let s = s - nat len;
     let words = nat (int_of_size (count div 8));
     m \<leftarrow> copy_down 8 words d s m;
     let d = d - 8 * words; let s = s - 8 * words;
     copy_down 1 (nat (int_of_size (count mod 8))) d s m
   }"

definition memcpy :: "nat \<Rightarrow> nat \<Rightarrow> u64 \<Rightarrow> u8 list \<Rightarrow> u8 list option" where
  "memcpy dest src count m = (if count = 0 \<or> dest = src then Some m else move_up dest src count m)"

definition memmove :: "nat \<Rightarrow> nat \<Rightarrow> u64 \<Rightarrow> u8 list \<Rightarrow> u8 list option" where
  "memmove dest src count m =
     (if count = 0 \<or> dest = src then Some m
      else if dest < src then move_up dest src count m
      else move_down dest src count m)"

definition bcopy :: "nat \<Rightarrow> nat \<Rightarrow> u64 \<Rightarrow> u8 list \<Rightarrow> u8 list option" where
  "bcopy src dest count m = memcpy dest src count m"

definition moved :: "nat \<Rightarrow> nat \<Rightarrow> nat \<Rightarrow> u8 list \<Rightarrow> u8 list" where
  "moved d s n m = overwrite m d (take n (drop s m))"

lemma length_moved [simp]: "d + n \<le> length m \<Longrightarrow> s + n \<le> length m \<Longrightarrow> length (moved d s n m) = length m"
  by (simp add: moved_def)

lemma nth_moved:
  "d + n \<le> length m \<Longrightarrow> s + n \<le> length m \<Longrightarrow> i < length m \<Longrightarrow>
   moved d s n m ! i = (if d \<le> i \<and> i < d + n then m ! (s + (i - d)) else m ! i)"
  by (auto simp: moved_def nth_overwrite)

text \<open>A move in two parts, the lower one first or the upper one first.\<close>

lemma moved_up:
  assumes "d + (a + b) \<le> length m" "s + (a + b) \<le> length m" "d \<le> s \<or> s + (a + b) \<le> d"
  shows "moved (d + a) (s + a) b (moved d s a m) = moved d s (a + b) m"
  using assms by (intro nth_equalityI) (auto simp: nth_moved)

lemma moved_down:
  assumes "d + (a + b) \<le> length m" "s + (a + b) \<le> length m" "s \<le> d"
  shows "moved d s a (moved (d + a) (s + a) b m) = moved d s (a + b) m"
  using assms by (intro nth_equalityI) (auto simp: nth_moved)

lemma moved_0 [simp]: "moved d s 0 m = m"
  by (simp add: moved_def)

lemma memcpy_moved: "d + k \<le> length m \<Longrightarrow> s + k \<le> length m \<Longrightarrow> memcpy_from m s k \<bind> memcpy_to m d = Some (moved d s k m)"
  by (simp add: memcpy_from_def memcpy_to_overwrite moved_def)

text \<open>Upwards is right if the destination is below the source or apart from it.\<close>

lemma copy_up_ok:
  assumes "d + k * n \<le> length m" "s + k * n \<le> length m" "d \<le> s \<or> s + k * n \<le> d"
  shows "copy_up k n d s m = Some (moved d s (k * n) m)"
  using assms
proof (induction n arbitrary: d s m)
  case (Suc n)
  have f: "d + (k + k * n) \<le> length m" "s + (k + k * n) \<le> length m" "d \<le> s \<or> s + (k + k * n) \<le> d" using Suc.prems by auto
  have "copy_up k (Suc n) d s m = (memcpy_from m s k \<bind> memcpy_to m d) \<bind> copy_up k n (d + k) (s + k)"
    by (simp add: bind_assoc)
  also have "\<dots> = copy_up k n (d + k) (s + k) (moved d s k m)" using f by (simp add: memcpy_moved)
  also have "\<dots> = Some (moved (d + k) (s + k) (k * n) (moved d s k m))" using f by (intro Suc.IH) auto
  also have "\<dots> = Some (moved d s (k * Suc n) m)" using moved_up[OF f] by simp
  finally show ?case .
qed simp

text \<open>Downwards is right if the destination is above the source; the pointers are at the ends.\<close>

lemma copy_down_ok:
  assumes "d + k * n \<le> length m" "s + k * n \<le> length m" "s \<le> d"
  shows "copy_down k n (d + k * n) (s + k * n) m = Some (moved d s (k * n) m)"
  using assms
proof (induction n arbitrary: m)
  case (Suc n)
  have f: "d + (k * n + k) \<le> length m" "s + (k * n + k) \<le> length m" using Suc.prems by auto
  have "copy_down k (Suc n) (d + k * Suc n) (s + k * Suc n) m =
    (memcpy_from m (s + k * n) k \<bind> memcpy_to m (d + k * n)) \<bind> copy_down k n (d + k * n) (s + k * n)"
    by (simp add: bind_assoc add.commute add.left_commute)
  also have "\<dots> = copy_down k n (d + k * n) (s + k * n) (moved (d + k * n) (s + k * n) k m)" using f by (simp add: memcpy_moved)
  also have "\<dots> = Some (moved d s (k * n) (moved (d + k * n) (s + k * n) k m))" using f Suc.prems by (intro Suc.IH) auto
  also have "\<dots> = Some (moved d s (k * Suc n) m)" using moved_down[OF f Suc.prems(3)] by (simp add: add.commute)
  finally show ?case .
qed simp

lemma int_of_size_id: "unat w < 2 ^ 31 \<Longrightarrow> int_of_size w = int (unat w)"
proof -
  assume a: "unat w < 2 ^ 31"
  define n where "n = unat w"
  have e: "(ucast w :: 32 word) = word_of_int (int n)" by (simp add: n_def)
  have "n < 2 ^ 31" using a n_def by simp
  thus ?thesis unfolding int_of_size_def e n_def[symmetric]
    by (simp add: sint_sbintrunc' signed_take_bit_int_eq_self del: of_int_of_nat_eq)
qed

text \<open>A count splits into a head, whole words and a tail; the loops run as often as they should.\<close>

lemma split_count:
  assumes n: "unat count < 2 ^ 31" and h: "len = int h" "h \<le> unat count"
  shows "int_of_size ((count - of_int len) div 8) = int ((unat count - h) div 8)"
    "int_of_size ((count - of_int len) mod 8) = int ((unat count - h) mod 8)"
    "unat count = h + (8 * ((unat count - h) div 8) + (unat count - h) mod 8)"
proof -
  have c: "unat (count - of_int len) = unat count - h" using h n by (simp add: unat_sub_if' unat_of_nat)
  show "int_of_size ((count - of_int len) div 8) = int ((unat count - h) div 8)"
    "int_of_size ((count - of_int len) mod 8) = int ((unat count - h) mod 8)"
    using n by (simp_all add: int_of_size_id unat_div unat_mod c del: of_nat_unat)
  show "unat count = h + (8 * ((unat count - h) div 8) + (unat count - h) mod 8)" using h(2) by simp
qed

lemma move_up_ok:
  assumes n: "unat count < 2 ^ 31" "d + unat count \<le> length m" "s + unat count \<le> length m" and o: "d \<le> s \<or> s + unat count \<le> d"
  shows "move_up d s count m = Some (moved d s (unat count) m)"
proof -
  let ?n = "unat count"
  define len where "len = (if d mod 8 \<noteq> 0 \<or> s mod 8 \<noteq> 0
                then if d mod 8 \<noteq> s mod 8 \<or> count < 8 then int_of_size count else int (8 - d mod 8) else 0)"
  define h where "h = nat len"
  have h: "len = int h" "h \<le> ?n" using int_of_size_id[OF n(1)] by (auto simp: h_def len_def word_less_nat_alt)
  define k where "k = (?n - h) div 8"
  define t where "t = (?n - h) mod 8"
  note w = split_count[OF n(1) h, folded k_def t_def]
  let ?m1 = "moved d s (1 * h) m"
  let ?m2 = "moved (d + h) (s + h) (8 * k) ?m1"
  have 1: "copy_up 1 h d s m = Some ?m1" using n o h by (intro copy_up_ok) auto
  have 2: "copy_up 8 k (d + h) (s + h) ?m1 = Some ?m2" using n o w(3) by (intro copy_up_ok) auto
  have 3: "copy_up 1 t (d + h + 8 * k) (s + h + 8 * k) ?m2 = Some (moved (d + h + 8 * k) (s + h + 8 * k) (1 * t) ?m2)"
    using n o w(3) by (intro copy_up_ok) auto
  have "?m2 = moved d s (h + 8 * k) m" using moved_up[of d h "8 * k" m s] n o w(3) by auto
  hence "moved (d + h + 8 * k) (s + h + 8 * k) (1 * t) ?m2 = moved d s ?n m"
    using moved_up[of d "h + 8 * k" t m s] n o w(3) by (simp add: add.assoc)
  thus ?thesis unfolding move_up_def Let_def len_def[symmetric] h_def[symmetric] w(1,2) using 1 2 3 by simp
qed

lemma move_down_ok:
  assumes n: "unat count < 2 ^ 31" "d + unat count \<le> length m" "s + unat count \<le> length m" and o: "s \<le> d"
  shows "move_down d s count m = Some (moved d s (unat count) m)"
proof -
  let ?n = "unat count"
  define len where "len = (if (d + ?n) mod 8 \<noteq> 0 \<or> (s + ?n) mod 8 \<noteq> 0
                then if (d + ?n) mod 8 \<noteq> (s + ?n) mod 8 \<or> count \<le> 8 then int_of_size count else int ((d + ?n) mod 8) else 0)"
  define h where "h = nat len"
  have "int ((d + ?n) mod 8) \<le> 8" by simp
  hence h: "len = int h" "h \<le> ?n" using int_of_size_id[OF n(1)] by (auto simp: h_def len_def word_le_nat_alt)
  define k where "k = (?n - h) div 8"
  define t where "t = (?n - h) mod 8"
  note w = split_count[OF n(1) h, folded k_def t_def]
  have e: "?n = t + 8 * k + h" using w(3) by simp
  let ?m1 = "moved (d + (t + 8 * k)) (s + (t + 8 * k)) (1 * h) m"
  let ?m2 = "moved (d + t) (s + t) (8 * k) ?m1"
  have 1: "copy_down 1 h (d + ?n) (s + ?n) m = Some ?m1"
    using copy_down_ok[of "d + (t + 8 * k)" 1 h m "s + (t + 8 * k)"] n o e by (simp add: add.assoc)
  have 2: "copy_down 8 k (d + ?n - h) (s + ?n - h) ?m1 = Some ?m2"
    using copy_down_ok[of "d + t" 8 k ?m1 "s + t"] n o e by (simp add: add.assoc)
  have 3: "copy_down 1 t (d + ?n - h - 8 * k) (s + ?n - h - 8 * k) ?m2 = Some (moved d s (1 * t) ?m2)"
    using copy_down_ok[of d 1 t ?m2 s] n o e by simp
  have "moved d s t ?m2 = moved d s (t + 8 * k) ?m1" using moved_down[of d t "8 * k" ?m1 s] n o e by auto
  also have "\<dots> = moved d s ?n m" using moved_down[of d "t + 8 * k" h m s] n o e by (simp add: add.assoc)
  finally show ?thesis unfolding move_down_def Let_def len_def[symmetric] h_def[symmetric] w(1,2) using 1 2 3 by simp
qed

section \<open>Setting memory\<close>

text \<open>The bytes of a 64-bit word as they lie in memory.\<close>

definition word_bytes :: "u64 \<Rightarrow> u8 list" where
  "word_bytes w = map (\<lambda>i. ucast (drop_bit (8 * i) w)) [0..<8]"

fun set_loop :: "nat \<Rightarrow> nat \<Rightarrow> u8 list \<Rightarrow> u8 list \<Rightarrow> u8 list option" where
  "set_loop 0 xs v m = Some m"
| "set_loop (Suc n) xs v m = do { m \<leftarrow> memcpy_to m xs v; set_loop n (xs + length v) v m }"

text \<open>
  \<^verbatim>\<open>cc\<close> is a 32-bit \<^verbatim>\<open>int\<close> that holds the byte four times; it is converted to a 64-bit word
  (with its sign) where whole words are written.
\<close>

definition memset :: "nat \<Rightarrow> u32 \<Rightarrow> nat \<Rightarrow> u8 list \<Rightarrow> u8 list option" where
  "memset s c count m = do {
     let len = (8 - s mod 8) mod 8;
     let cc = c AND 0xff;
     (xs, count, m) \<leftarrow>
       (if len < count then do {
          let count = count - len;
          let cc = cc OR push_bit 8 cc;
          let cc = cc OR push_bit 16 cc;
          m \<leftarrow> set_loop len s [ucast c] m;
          m \<leftarrow> set_loop (count div 8) (s + len) (word_bytes (scast cc)) m;
          Some (s + len + 8 * (count div 8), count mod 8, m)
        } else Some (s, count, m));
     set_loop count xs [ucast c] m
   }"

definition bzero :: "nat \<Rightarrow> nat \<Rightarrow> u8 list \<Rightarrow> u8 list option" where
  "bzero dst count m = memset dst 0 count m"

lemma set_loop_zeros:
  "xs + n * k \<le> length m \<Longrightarrow> set_loop n xs (replicate k 0) m = Some (overwrite m xs (replicate (n * k) 0))"
proof (induction n arbitrary: xs m)
  case (Suc n)
  let ?m = "overwrite m xs (replicate k 0)"
  have "set_loop n (xs + k) (replicate k 0) ?m = Some (overwrite ?m (xs + k) (replicate (n * k) 0))"
    using Suc.prems by (intro Suc.IH) simp
  moreover have "overwrite ?m (xs + k) (replicate (n * k) 0) = overwrite m xs (replicate (k + n * k) 0)"
    using overwrite_append[of xs "replicate k 0" "replicate (n * k) 0" m] Suc.prems by (simp add: replicate_add)
  ultimately show ?case using Suc.prems by (simp add: memcpy_to_overwrite)
qed simp

lemma word_bytes_0: "word_bytes 0 = replicate 8 0"
  by (simp add: word_bytes_def upt_rec eval_nat_numeral)

text \<open>Clearing memory works.\<close>

lemma bzero_ok:
  assumes "s + n \<le> length m"
  shows "bzero s n m = Some (overwrite m s (replicate n 0))"
proof (cases "(8 - s mod 8) mod 8 < n")
  case False
  thus ?thesis using set_loop_zeros[of s n 1 m] assms by (simp add: bzero_def memset_def)
next
  case True
  define len where "len = (8 - s mod 8) mod 8"
  define k where "k = (n - len) div 8"
  define t where "t = (n - len) mod 8"
  have n: "n = len + (k * 8 + t)" using True by (simp add: k_def t_def len_def)
  let ?m1 = "overwrite m s (replicate len 0)"
  let ?m2 = "overwrite ?m1 (s + len) (replicate (k * 8) 0)"
  have 1: "set_loop len s [0] m = Some ?m1" using set_loop_zeros[of s len 1 m] assms n by simp
  have 2: "set_loop k (s + len) (replicate 8 0) ?m1 = Some ?m2" using set_loop_zeros[of "s + len" k 8 ?m1] assms n by simp
  have 3: "set_loop t (s + len + 8 * k) [0] ?m2 = Some (overwrite ?m2 (s + len + 8 * k) (replicate t 0))"
    using set_loop_zeros[of "s + len + 8 * k" t 1 ?m2] assms n by simp
  have "?m2 = overwrite m s (replicate (len + k * 8) 0)"
    using overwrite_append[of s "replicate len 0" "replicate (k * 8) 0" m] assms n by (simp add: replicate_add)
  hence "overwrite ?m2 (s + len + 8 * k) (replicate t 0) = overwrite m s (replicate n 0)"
    using overwrite_append[of s "replicate (len + k * 8) 0" "replicate t 0" m] assms n by (simp add: replicate_add mult.commute add.assoc)
  thus ?thesis using True 1 2 3 unfolding bzero_def memset_def Let_def
    by (simp add: len_def[symmetric] k_def[symmetric] t_def[symmetric] word_bytes_0)
qed

text \<open>The pattern that \<^verbatim>\<open>memset\<close> builds and the bytes that are written for it.\<close>

lemma high_bits:
  assumes "(c :: 32 word) < 128" "7 \<le> n" shows "\<not> bit c n"
proof
  assume b: "bit c n"
  have "unat c < 2 ^ 7" using assms(1) by (simp add: word_less_nat_alt)
  hence "unat c div 2 ^ n = 0" using power_increasing[OF assms(2), of "2::nat"] by simp
  moreover have "bit (unat c) n" using b by (simp add: bit_unsigned_iff)
  ultimately show False by (simp add: bit_iff_odd)
qed

definition four_times :: "32 word \<Rightarrow> 32 word" where
  "four_times c = (let d = (c AND 255) OR push_bit 8 (c AND 255) in d OR push_bit 16 d)"

lemma bit255: "bit (255 :: 32 word) n \<longleftrightarrow> n < 8"
proof -
  have "(255 :: 32 word) = mask 8" by (simp add: mask_eq_exp_minus_1)
  thus ?thesis by (simp only: bit_mask_iff) auto
qed

lemma bit_four_times: "n < 32 \<Longrightarrow> bit (four_times c) n \<longleftrightarrow> bit c (n mod 8)"
proof -
  assume n: "n < 32"
  define e where "e = c AND 255"
  have e: "bit e k \<longleftrightarrow> k < 8 \<and> bit c k" for k unfolding e_def using bit255[of k] by (auto simp: bit_and_iff)
  have p: "bit (four_times c) n \<longleftrightarrow> bit e n \<or> 8 \<le> n \<and> bit e (n - 8) \<or> 16 \<le> n \<and> bit e (n - 16) \<or> 24 \<le> n \<and> bit e (n - 24)"
    using n by (auto simp: four_times_def Let_def e_def[symmetric] bit_or_iff bit_push_bit_iff)
  have m: "(8 + k) mod 8 = k mod 8" "(16 + k) mod 8 = k mod 8" "(24 + k) mod 8 = k mod 8" for k :: nat
    using mod_mult_self1[of k 1 8] mod_mult_self1[of k 2 8] mod_mult_self1[of k 3 8] by (simp_all add: add.commute)
  consider "n < 8" | "8 \<le> n" "n < 16" | "16 \<le> n" "n < 24" | "24 \<le> n" using n by linarith
  thus ?thesis
  proof cases
    case 2
    then obtain k where "n = 8 + k" using le_iff_add by blast
    thus ?thesis using 2 unfolding p e by (simp add: m)
  next
    case 3
    then obtain k where "n = 16 + k" using le_iff_add by blast
    thus ?thesis using 3 unfolding p e by (simp add: m)
  next
    case 4
    then obtain k where "n = 24 + k" using le_iff_add by blast
    thus ?thesis using n unfolding p e by (simp add: m)
  qed (simp add: p e)
qed

lemma byte_four_times:
  assumes c: "c < 128" and i: "i < 8"
  shows "(ucast (drop_bit (8 * i) (scast (four_times c) :: 64 word)) :: 8 word) = (if i < 4 then ucast c else 0)"
proof (rule bit_word_eqI)
  fix n assume n: "n < LENGTH(8)"
  have "(8 * i + n) mod 8 = n" using n by simp
  moreover have "\<not> bit (four_times c) 31" using bit_four_times[of 31 c] high_bits[OF c, of 7] by simp
  ultimately show "bit (ucast (drop_bit (8 * i) (scast (four_times c) :: 64 word)) :: 8 word) n = bit (if i < 4 then ucast c else 0 :: 8 word) n"
    using n i bit_four_times[of "8 * i + n" c] by (auto simp: bit_ucast_iff bit_drop_bit_eq bit_signed_iff)
qed

section \<open>Reading strings\<close>

fun strlen :: "u8 list \<Rightarrow> nat option" where
  "strlen [] = None"
| "strlen (c # s) = (if c = 0 then Some 0 else map_option Suc (strlen s))"

fun strnlen :: "u8 list \<Rightarrow> nat \<Rightarrow> nat option" where
  "strnlen s 0 = Some 0"
| "strnlen [] (Suc count) = None"
| "strnlen (c # s) (Suc count) = (if c = 0 then Some 0 else map_option Suc (strnlen s count))"

text \<open>The difference of two bytes is assigned to a \<^verbatim>\<open>signed char\<close>.\<close>

fun strcmp :: "u8 list \<Rightarrow> u8 list \<Rightarrow> int option" where
  "strcmp (c # cs) (d # ct) =
     (let res = sint (c - d) in if res \<noteq> 0 \<or> c = 0 then Some res else strcmp cs ct)"
| "strcmp _ _ = None"

fun strncmp :: "u8 list \<Rightarrow> u8 list \<Rightarrow> nat \<Rightarrow> int option" where
  "strncmp cs ct 0 = Some 0"
| "strncmp (c # cs) (d # ct) (Suc count) =
     (let res = sint (c - d) in if res \<noteq> 0 \<or> c = 0 then Some res else strncmp cs ct count)"
| "strncmp _ _ (Suc count) = None"

definition strcoll :: "u8 list \<Rightarrow> u8 list \<Rightarrow> int option" where
  "strcoll s1 s2 = strcmp s1 s2"

fun memcmp :: "u8 list \<Rightarrow> u8 list \<Rightarrow> nat \<Rightarrow> int option" where
  "memcmp cs ct 0 = Some 0"
| "memcmp (c # cs) (d # ct) (Suc count) =
     (let res = sint (c - d) in if res \<noteq> 0 then Some res else memcmp cs ct count)"
| "memcmp _ _ (Suc count) = None"

fun strchr :: "u8 list \<Rightarrow> u8 \<Rightarrow> nat option option" where
  "strchr [] c = None"
| "strchr (x # s) c = (if x = c then Some (Some 0) else if x = 0 then Some None else map_option (map_option Suc) (strchr s c))"

text \<open>\<open>i\<close> is how far \<^verbatim>\<open>s\<close> has advanced. \<^verbatim>\<open>c\<close> is compared as an \<^verbatim>\<open>int\<close>.\<close>

fun strrchr_loop :: "nat \<Rightarrow> nat option \<Rightarrow> u8 list \<Rightarrow> int \<Rightarrow> nat option option" where
  "strrchr_loop i found [] c = None"
| "strrchr_loop i found (x # s) c =
     (if x = 0 then Some found else strrchr_loop (Suc i) (if uint x = c then Some i else found) s c)"

definition strrchr :: "u8 list \<Rightarrow> int \<Rightarrow> nat option option" where
  "strrchr s c = strrchr_loop 0 (if c \<noteq> 0 then None else Some 0) s c"

fun memchr :: "u8 list \<Rightarrow> u8 \<Rightarrow> nat \<Rightarrow> nat option option" where
  "memchr b x 0 = Some None"
| "memchr [] x (Suc len) = None"
| "memchr (y # b) x (Suc len) = (if y = x then Some (Some 0) else map_option (map_option Suc) (memchr b x len))"

fun memscan :: "u8 list \<Rightarrow> int \<Rightarrow> nat \<Rightarrow> nat option" where
  "memscan p c 0 = Some 0"
| "memscan [] c (Suc n) = None"
| "memscan (y # p) c (Suc n) = (if uint y = c then Some 0 else map_option Suc (memscan p c n))"

text \<open>The inner loops: whether a byte is among those of a string.\<close>

fun among :: "u8 \<Rightarrow> u8 list \<Rightarrow> bool option" where
  "among x [] = None"
| "among x (a # as) = (if a = 0 then Some False else if x = a then Some True else among x as)"

fun strspn :: "u8 list \<Rightarrow> u8 list \<Rightarrow> nat option" where
  "strspn [] accept = None"
| "strspn (p # s) accept =
     (if p = 0 then Some 0
      else do { b \<leftarrow> among p accept; if b then map_option Suc (strspn s accept) else Some 0 })"

fun strpbrk :: "u8 list \<Rightarrow> u8 list \<Rightarrow> nat option option" where
  "strpbrk [] ct = None"
| "strpbrk (x # cs) ct =
     (if x = 0 then Some None
      else do { b \<leftarrow> among x ct; if b then Some (Some 0) else map_option (map_option Suc) (strpbrk cs ct) })"

text \<open>
  \<^verbatim>\<open>l2\<close> is not 0 in the loop, so \<^verbatim>\<open>l1\<close> is not either. Both are taken as natural numbers: strings are shorter
  than 2 GiB.
\<close>

fun strstr_loop :: "nat \<Rightarrow> nat \<Rightarrow> nat \<Rightarrow> u8 list \<Rightarrow> u8 list \<Rightarrow> nat option option" where
  "strstr_loop i l1 l2 s1 s2 =
     (if l2 \<le> l1 \<and> 0 < l1
      then do {
        r \<leftarrow> memcmp s1 s2 l2;
        if r = 0 then Some (Some i) else strstr_loop (Suc i) (l1 - 1) l2 (tl s1) s2
      }
      else Some None)"

definition strstr :: "u8 list \<Rightarrow> u8 list \<Rightarrow> nat option option" where
  "strstr s1 s2 = do {
     l2 \<leftarrow> strlen s2;
     if l2 = 0 then Some (Some 0)
     else do { l1 \<leftarrow> strlen s1; strstr_loop 0 l1 l2 s1 s2 }
   }"

text \<open>The string a pointer points at.\<close>

definition cstr :: "u8 list \<Rightarrow> u8 list" where
  "cstr p = takeWhile (\<lambda>c. c \<noteq> 0) p"

definition terminated :: "u8 list \<Rightarrow> bool" where
  "terminated p \<longleftrightarrow> 0 \<in> set p"

lemma cstr_simps [simp]: "cstr [] = []" "cstr (c # p) = (if c = 0 then [] else c # cstr p)"
  by (simp_all add: cstr_def)

lemma terminated_simps [simp]: "\<not> terminated []" "terminated (c # p) \<longleftrightarrow> c = 0 \<or> terminated p"
  by (auto simp: terminated_def)

lemma cstr_nonzero: "c \<in> set (cstr p) \<Longrightarrow> c \<noteq> 0"
  by (auto simp: cstr_def dest: set_takeWhileD)

lemma terminated_split: "terminated p \<Longrightarrow> \<exists>z. p = cstr p @ 0 # z"
  by (induction p) auto

lemma strlen_ok: "terminated p \<Longrightarrow> strlen p = Some (length (cstr p))"
  by (induction p rule: strlen.induct) auto

lemma strnlen_ok: "terminated p \<Longrightarrow> strnlen p n = Some (min n (length (cstr p)))"
  by (induction p n rule: strnlen.induct) auto

lemma sint_zero [simp]: "sint (x :: u8) = 0 \<longleftrightarrow> x = 0"
  by (rule signed_eq_0_iff)

lemma strcmp_ok: "terminated p \<Longrightarrow> terminated q \<Longrightarrow> \<exists>r. strcmp p q = Some r \<and> (r = 0 \<longleftrightarrow> cstr p = cstr q)"
  by (induction p q rule: strcmp.induct) (auto simp: Let_def)

lemma strncmp_ok:
  "terminated p \<Longrightarrow> terminated q \<Longrightarrow> \<exists>r. strncmp p q n = Some r \<and> (r = 0 \<longleftrightarrow> take n (cstr p) = take n (cstr q))"
  by (induction p q n rule: strncmp.induct) (auto simp: Let_def)

lemma memcmp_ok:
  "n \<le> length p \<Longrightarrow> n \<le> length q \<Longrightarrow> \<exists>r. memcmp p q n = Some r \<and> (r = 0 \<longleftrightarrow> take n p = take n q)"
  by (induction p q n rule: memcmp.induct) (auto simp: Let_def)

definition first_in :: "(u8 \<Rightarrow> bool) \<Rightarrow> u8 list \<Rightarrow> nat option" where
  "first_in P s = (if \<exists>c\<in>set s. P c then Some (length (takeWhile (\<lambda>c. \<not> P c) s)) else None)"

lemma first_in_simps [simp]:
  "first_in P [] = None" "first_in P (c # s) = (if P c then Some 0 else map_option Suc (first_in P s))"
  by (auto simp: first_in_def)

lemma strchr_ok: "terminated p \<Longrightarrow> c \<noteq> 0 \<Longrightarrow> strchr p c = Some (first_in ((=) c) (cstr p))"
  by (induction p c rule: strchr.induct) auto

lemma memchr_ok: "n \<le> length b \<Longrightarrow> memchr b x n = Some (first_in ((=) x) (take n b))"
  by (induction b x n rule: memchr.induct) auto

lemma among_ok: "terminated a \<Longrightarrow> x \<noteq> 0 \<Longrightarrow> among x a = Some (x \<in> set (cstr a))"
  by (induction x a rule: among.induct) auto

lemma strspn_ok: "terminated p \<Longrightarrow> terminated a \<Longrightarrow> strspn p a = Some (length (takeWhile (\<lambda>c. c \<in> set (cstr a)) (cstr p)))"
  by (induction p a rule: strspn.induct) (auto simp: among_ok)

lemma strpbrk_ok: "terminated p \<Longrightarrow> terminated a \<Longrightarrow> strpbrk p a = Some (first_in (\<lambda>c. c \<in> set (cstr a)) (cstr p))"
  by (induction p a rule: strpbrk.induct) (auto simp: among_ok)

text \<open>The last occurrence is the first one from behind.\<close>

definition last_in :: "u8 \<Rightarrow> u8 list \<Rightarrow> nat option" where
  "last_in c s = map_option (\<lambda>k. length s - 1 - k) (first_in ((=) c) (rev s))"

lemma last_in_Nil [simp]: "last_in c [] = None"
  by (simp add: last_in_def)

lemma last_in_snoc: "last_in c (s @ [x]) = (if x = c then Some (length s) else last_in c s)"
  by (cases "first_in ((=) c) (rev s)") (auto simp: last_in_def)

lemma first_in_bound: "first_in P s = Some k \<Longrightarrow> k < length s"
  by (induction s arbitrary: k) (auto split: if_splits)

lemma last_in_Cons: "last_in c (x # s) = (case last_in c s of Some k \<Rightarrow> Some (Suc k) | None \<Rightarrow> if x = c then Some 0 else None)"
proof (induction s rule: rev_induct)
  case (snoc y s)
  show ?case using snoc last_in_snoc[of c "x # s" y] by (simp add: last_in_snoc)
qed (simp add: last_in_def[of c "[x]"])

lemma strrchr_loop_ok:
  "terminated p \<Longrightarrow> 0 < c \<Longrightarrow> c < 256 \<Longrightarrow>
   strrchr_loop i l p c = Some (case last_in (word_of_int c) (cstr p) of Some k \<Rightarrow> Some (i + k) | None \<Rightarrow> l)"
proof (induction i l p c rule: strrchr_loop.induct)
  case (2 i l x s c)
  have "uint x = c \<longleftrightarrow> x = word_of_int c"
    using 2(3,4) by (auto simp: uint_word_of_int)
  thus ?case using 2 by (auto simp: last_in_Cons split: option.splits)
qed simp

lemma strrchr_ok:
  "terminated p \<Longrightarrow> 0 < c \<Longrightarrow> c < 256 \<Longrightarrow> strrchr p c = Some (last_in (word_of_int c) (cstr p))"
  by (simp add: strrchr_def strrchr_loop_ok split: option.splits)

text \<open>The first place where a string occurs in another.\<close>

definition occurs :: "u8 list \<Rightarrow> u8 list \<Rightarrow> nat \<Rightarrow> bool" where
  "occurs t s i \<longleftrightarrow> i + length t \<le> length s \<and> take (length t) (drop i s) = t"

declare strstr_loop.simps [simp del]

lemma strstr_loop_ok:
  assumes "terminated p" "cstr q = t" "terminated q" "t \<noteq> []" "i + l1 = length (cstr p)" "\<forall>j < i. \<not> occurs t (cstr p) j"
  shows "\<exists>r. strstr_loop i l1 (length t) (drop i p) q = Some r \<and>
    (case r of Some k \<Rightarrow> occurs t (cstr p) k \<and> (\<forall>j < k. \<not> occurs t (cstr p) j) | None \<Rightarrow> \<forall>j. \<not> occurs t (cstr p) j)"
  using assms(5,6)
proof (induction l1 arbitrary: i)
  case 0
  have "\<not> occurs t (cstr p) j" for j using 0 assms(4) by (cases "j < i") (auto simp: occurs_def)
  thus ?case by (simp add: strstr_loop.simps)
next
  case (Suc l1)
  let ?s = "cstr p"
  obtain z where p: "p = ?s @ 0 # z" using terminated_split[OF assms(1)] by blast
  obtain y where q: "q = t @ 0 # y" using terminated_split[OF assms(3)] assms(2) by blast
  show ?case
  proof (cases "length t \<le> Suc l1")
    case False
    have "\<not> occurs t ?s j" for j using Suc.prems False by (cases "j < i") (auto simp: occurs_def)
    thus ?thesis using False by (simp add: strstr_loop.simps)
  next
    case True
    have "length t \<le> length (drop i p)" "length t \<le> length q" using True Suc.prems p q by (metis diff_le_mono le_add1 length_append length_drop diff_add_inverse dual_order.trans, simp)
    then obtain r where r: "memcmp (drop i p) q (length t) = Some r" "r = 0 \<longleftrightarrow> take (length t) (drop i p) = take (length t) q"
      using memcmp_ok by blast
    have "take (length t) (drop i p) = take (length t) (drop i ?s)" using True Suc.prems by (subst p) simp
    hence o: "r = 0 \<longleftrightarrow> occurs t ?s i" using r(2) q True Suc.prems by (simp add: occurs_def)
    show ?thesis
    proof (cases "r = 0")
      case True
      thus ?thesis using r(1) o Suc.prems \<open>length t \<le> Suc l1\<close> by (simp add: strstr_loop.simps)
    next
      case False
      have "\<forall>j < Suc i. \<not> occurs t ?s j" using Suc.prems o False less_Suc_eq by auto
      from Suc.IH[OF _ this] show ?thesis using Suc.prems r(1) False True
        by (subst strstr_loop.simps) (simp add: drop_Suc tl_drop)
    qed
  qed
qed

lemma strstr_ok:
  assumes "terminated p" "terminated q"
  shows "\<exists>r. strstr p q = Some r \<and>
    (case r of Some k \<Rightarrow> occurs (cstr q) (cstr p) k \<and> (\<forall>j < k. \<not> occurs (cstr q) (cstr p) j)
     | None \<Rightarrow> \<forall>j. \<not> occurs (cstr q) (cstr p) j)"
proof (cases "cstr q = []")
  case True
  thus ?thesis using assms by (simp add: strstr_def strlen_ok occurs_def)
next
  case False
  from strstr_loop_ok[OF assms(1) refl assms(2) False, of 0] show ?thesis
    using assms False by (simp add: strstr_def strlen_ok)
qed

section \<open>Copying strings\<close>

text \<open>The source and the destination are different objects.\<close>

fun strcpy :: "u8 list \<Rightarrow> u8 list \<Rightarrow> u8 list option" where
  "strcpy (d # dest) (c # src) = (if c = 0 then Some (0 # dest) else map_option ((#) c) (strcpy dest src))"
| "strcpy _ _ = None"

fun strncpy :: "u8 list \<Rightarrow> u8 list \<Rightarrow> nat \<Rightarrow> u8 list option" where
  "strncpy dest src 0 = Some dest"
| "strncpy (d # dest) (c # src) (Suc count) =
     (if c = 0 then Some (0 # dest) else map_option ((#) c) (strncpy dest src count))"
| "strncpy _ _ (Suc count) = None"

fun strcat :: "u8 list \<Rightarrow> u8 list \<Rightarrow> u8 list option" where
  "strcat [] src = None"
| "strcat (d # dest) src = (if d \<noteq> 0 then map_option ((#) d) (strcat dest src) else strcpy (d # dest) src)"

fun strncat_copy :: "u8 list \<Rightarrow> u8 list \<Rightarrow> nat \<Rightarrow> u8 list option" where
  "strncat_copy (d # dest) (c # src) count =
     (if c = 0 then Some (0 # dest)
      else if count - 1 = 0 then (case dest of [] \<Rightarrow> None | _ # dest \<Rightarrow> Some (c # 0 # dest))
      else map_option ((#) c) (strncat_copy dest src (count - 1)))"
| "strncat_copy _ _ count = None"

fun strncat_find :: "u8 list \<Rightarrow> u8 list \<Rightarrow> nat \<Rightarrow> u8 list option" where
  "strncat_find [] src count = None"
| "strncat_find (d # dest) src count =
     (if d \<noteq> 0 then map_option ((#) d) (strncat_find dest src count) else strncat_copy (d # dest) src count)"

definition strncat :: "u8 list \<Rightarrow> u8 list \<Rightarrow> nat \<Rightarrow> u8 list option" where
  "strncat dest src count = (if 0 < count then strncat_find dest src count else Some dest)"

text \<open>The loop of \<^verbatim>\<open>strlcpy\<close> and \<^verbatim>\<open>strlcat\<close> and the terminator after it: at most \<open>n\<close> bytes.\<close>

fun lcpy_loop :: "nat \<Rightarrow> u8 list \<Rightarrow> u8 list \<Rightarrow> (nat \<times> u8 list) option" where
  "lcpy_loop 0 (d # dst) src = Some (0, 0 # dst)"
| "lcpy_loop (Suc n) (d # dst) (c # src) =
     (if c = 0 then Some (0, 0 # dst)
      else do { (i, dst) \<leftarrow> lcpy_loop n dst src; Some (Suc i, c # dst) })"
| "lcpy_loop _ _ _ = None"

definition strlcpy :: "u8 list \<Rightarrow> u8 list \<Rightarrow> nat \<Rightarrow> (nat \<times> u8 list) option" where
  "strlcpy dst src s =
     (if s = 0 then do { n \<leftarrow> strlen src; Some (n, dst) }
      else do { (i, dst) \<leftarrow> lcpy_loop (s - 1) dst src; n \<leftarrow> strlen (drop i src); Some (i + n, dst) })"

definition strlcat :: "u8 list \<Rightarrow> u8 list \<Rightarrow> nat \<Rightarrow> (nat \<times> u8 list) option" where
  "strlcat dst src s = do {
     j \<leftarrow> strnlen dst s;
     if s = 0 then do { n \<leftarrow> strlen src; Some (j + n, dst) }
     else do {
       (i, rest) \<leftarrow> lcpy_loop (s - 1) (drop j dst) src;
       n \<leftarrow> strlen (drop i src);
       Some (j + i + n, take j dst @ rest)
     }
   }"

definition strxfrm :: "u8 list \<Rightarrow> u8 list \<Rightarrow> nat \<Rightarrow> (nat \<times> u8 list) option" where
  "strxfrm dest src n = do {
     len \<leftarrow> strlen src;
     if n \<noteq> 0 then do {
       let copy_len = (if len < n then len else n - 1);
       d \<leftarrow> memcpy_from src 0 copy_len;
       dest \<leftarrow> memcpy_to dest 0 d;
       dest \<leftarrow> memcpy_to dest copy_len [0];
       Some (len, dest)
     } else Some (len, dest)
   }"

text \<open>\<open>malloc\<close> gives the new memory, \<open>None\<close> for the null pointer.\<close>

definition strdup :: "(nat \<Rightarrow> u8 list option) \<Rightarrow> u8 list \<Rightarrow> u8 list option option" where
  "strdup malloc str = do {
     n \<leftarrow> strlen str;
     let len = n + 1;
     (case malloc len of
        None \<Rightarrow> Some None
      | Some copy \<Rightarrow> do { d \<leftarrow> memcpy_from str 0 len; copy \<leftarrow> memcpy_to copy 0 d; Some (Some copy) })
   }"

lemma strcpy_ok:
  "terminated src \<Longrightarrow> length (cstr src) < length dest \<Longrightarrow>
   strcpy dest src = Some (cstr src @ 0 # drop (Suc (length (cstr src))) dest)"
  by (induction dest src rule: strcpy.induct) auto

lemma strcat_ok:
  "terminated dest \<Longrightarrow> terminated src \<Longrightarrow> length (cstr dest) + length (cstr src) < length dest \<Longrightarrow>
   strcat dest src = Some (cstr dest @ cstr src @ 0 # drop (Suc (length (cstr dest) + length (cstr src))) dest)"
  by (induction dest src rule: strcat.induct) (auto simp: strcpy_ok)

lemma lcpy_loop_ok:
  "terminated src \<Longrightarrow> min n (length (cstr src)) < length dst \<Longrightarrow>
   lcpy_loop n dst src = Some (min n (length (cstr src)), take n (cstr src) @ 0 # drop (Suc (min n (length (cstr src)))) dst)"
  by (induction n dst src rule: lcpy_loop.induct) auto

lemma drop_cstr: "terminated p \<Longrightarrow> i \<le> length (cstr p) \<Longrightarrow> terminated (drop i p) \<and> cstr (drop i p) = drop i (cstr p)"
  by (induction p arbitrary: i) (auto simp: drop_Cons split: nat.splits)

lemma cstr_append: "0 \<notin> set s \<Longrightarrow> cstr (s @ 0 # t) = s \<and> terminated (s @ 0 # t)"
  by (induction s) auto

lemma zero_notin_cstr: "0 \<notin> set (take n (cstr p))"
  using cstr_nonzero in_set_takeD by fastforce

lemma strlcpy_ok:
  assumes "terminated src" "0 < s" "min (s - 1) (length (cstr src)) < length dst"
  shows "\<exists>dst'. strlcpy dst src s = Some (length (cstr src), dst') \<and> terminated dst' \<and> cstr dst' = take (s - 1) (cstr src) \<and>
    length dst' = length dst \<and> drop s dst' = drop s dst"
proof -
  let ?i = "min (s - 1) (length (cstr src))"
  let ?d = "take (s - 1) (cstr src) @ 0 # drop (Suc ?i) dst"
  have "strlen (drop ?i src) = Some (length (cstr src) - ?i)" using drop_cstr[OF assms(1), of ?i] by (simp add: strlen_ok)
  hence "strlcpy dst src s = Some (length (cstr src), ?d)" using assms by (simp add: strlcpy_def lcpy_loop_ok)
  moreover have "drop s ?d = drop s dst" using assms(2) by (cases s) (auto simp: min_def Suc_diff_le)
  ultimately show ?thesis using cstr_append[OF zero_notin_cstr[of "s - 1" src], of "drop (Suc ?i) dst"] assms(3) by auto
qed

lemma strlcat_ok:
  assumes "terminated dst" "terminated src" "length (cstr dst) + length (cstr src) < s" "s \<le> length dst"
  shows "\<exists>dst'. strlcat dst src s = Some (length (cstr dst) + length (cstr src), dst') \<and> terminated dst' \<and> cstr dst' = cstr dst @ cstr src"
proof -
  let ?j = "length (cstr dst)" and ?n = "length (cstr src)"
  have j: "strnlen dst s = Some ?j" using assms by (simp add: strnlen_ok)
  have l: "lcpy_loop (s - 1) (drop ?j dst) src = Some (?n, cstr src @ 0 # drop (Suc ?n) (drop ?j dst))"
    using lcpy_loop_ok[OF assms(2), of "s - 1" "drop ?j dst"] assms by simp
  have "strlen (drop ?n src) = Some 0" using drop_cstr[OF assms(2), of ?n] by (simp add: strlen_ok)
  hence r: "strlcat dst src s = Some (?j + ?n, cstr dst @ cstr src @ 0 # drop (Suc ?n) (drop ?j dst))"
    using j l assms terminated_split[OF assms(1)] by (auto simp: strlcat_def) (metis append_eq_conv_conj)
  have "0 \<notin> set (cstr dst @ cstr src)" using cstr_nonzero by fastforce
  from cstr_append[OF this] show ?thesis using r by simp
qed

lemma lcpy_loop_over: "terminated src \<Longrightarrow> length dst \<le> min n (length (cstr src)) \<Longrightarrow> lcpy_loop n dst src = None"
  by (induction n dst src rule: lcpy_loop.induct) auto

section \<open>Tokens\<close>

text \<open>The state is the static pointer \<^verbatim>\<open>___strtok\<close> and the memory.\<close>

definition strtok :: "nat option \<Rightarrow> u8 list \<Rightarrow> nat option \<times> u8 list \<Rightarrow> (nat option \<times> nat option \<times> u8 list) option" where
  "strtok s ct = (\<lambda>(saved, m).
     case (case s of Some p \<Rightarrow> Some p | None \<Rightarrow> saved) of
       None \<Rightarrow> Some (None, saved, m)
     | Some sbegin \<Rightarrow> do {
         n \<leftarrow> strspn (drop sbegin m) ct;
         let sbegin = sbegin + n;
         ASSERT (sbegin < length m);
         if m ! sbegin = 0 then Some (None, None, m)
         else do {
           send \<leftarrow> strpbrk (drop sbegin m) ct;
           (case send of
              None \<Rightarrow> Some (Some sbegin, None, m)
            | Some k \<Rightarrow>
                if m ! (sbegin + k) \<noteq> 0 then Some (Some sbegin, Some (sbegin + k + 1), m[sbegin + k := 0])
                else Some (Some sbegin, Some (sbegin + k), m))
         }
       })"

text \<open>
  One call on a string: leading separators are skipped; the token up to the next separator is
  returned as a string of its own and the next call goes on behind it.
\<close>

lemma strtok_ok:
  assumes p: "terminated (drop p m)" "terminated ct" and s: "s = cstr (drop p m)" and D: "D = set (cstr ct)"
    and r: "rest = dropWhile (\<lambda>c. c \<in> D) s" "tok = takeWhile (\<lambda>c. c \<notin> D) rest"
  shows "if rest = [] then strtok (Some p) ct (saved, m) = Some (None, None, m)
    else \<exists>q saved' m'. strtok (Some p) ct (saved, m) = Some (Some q, saved', m') \<and> cstr (drop q m') = tok \<and> tok \<noteq> [] \<and>
      (case saved' of None \<Rightarrow> tok = rest
       | Some q' \<Rightarrow> terminated (drop q' m') \<and> cstr (drop q' m') = drop (Suc (length tok)) rest)"
proof -
  let ?n = "length (takeWhile (\<lambda>c. c \<in> D) s)"
  let ?b = "p + ?n"
  have n: "strspn (drop p m) ct = Some ?n" using strspn_ok[OF p] s D by simp
  have "?n \<le> length s" by (simp add: length_takeWhile_le)
  hence b: "terminated (drop ?b m)" "cstr (drop ?b m) = rest"
    using drop_cstr[OF p(1), of ?n] s r(1) by (simp_all add: add.commute dropWhile_eq_drop)
  obtain z where z: "drop ?b m = rest @ 0 # z" using terminated_split[OF b(1)] b(2) by auto
  hence lt: "?b < length m" by (metis drop_eq_Nil append_is_Nil_conv list.distinct(1) not_le)
  have "drop ?b m ! 0 = (rest @ [0]) ! 0" unfolding z by (cases rest) simp_all
  hence hd: "m ! ?b = (rest @ [0]) ! 0" using lt by simp
  show ?thesis
  proof (cases "rest = []")
    case True
    thus ?thesis using n lt hd by (simp add: strtok_def Let_def)
  next
    case False
    hence "hd rest \<in> set rest" by simp
    hence nz: "m ! ?b \<noteq> 0" using hd False b(2) cstr_nonzero[of "hd rest" "drop ?b m"] by (simp add: nth_append hd_conv_nth)
    have "hd rest \<notin> D" using hd_dropWhile[of "\<lambda>c. c \<in> D" s] False r(1) by simp
    hence tok: "tok \<noteq> []" using False r(2) by (cases rest) auto
    have k: "strpbrk (drop ?b m) ct = Some (first_in (\<lambda>c. c \<in> D) rest)" using strpbrk_ok[OF b(1) p(2)] b(2) D by simp
    show ?thesis
    proof (cases "\<exists>c\<in>set rest. c \<in> D")
      case True
      let ?k = "length tok"
      have e: "first_in (\<lambda>c. c \<in> D) rest = Some ?k" using True r(2) by (simp add: first_in_def)
      have kl: "?k < length rest" using first_in_bound[OF e] .
      have t: "take ?k rest = tok" unfolding r(2) by (rule takeWhile_eq_take[symmetric])
      have split: "rest = tok @ rest ! ?k # drop (Suc ?k) rest"
        using id_take_nth_drop[OF kl] t by simp
      have "length m - ?b = length rest + Suc (length z)" using arg_cong[OF z, of length] by simp
      hence bk: "?b + ?k < length m" using kl by linarith
      have "drop ?b m ! ?k = rest ! ?k" unfolding z using kl by (simp add: nth_append)
      hence "m ! (?b + ?k) = rest ! ?k" using lt by simp
      moreover have "rest ! ?k \<noteq> 0" using cstr_nonzero[of "rest ! ?k" "drop ?b m"] b(2) nth_mem[OF kl] by simp
      ultimately have run: "strtok (Some p) ct (saved, m) = Some (Some ?b, Some (?b + ?k + 1), m[?b + ?k := 0])"
        using n lt nz k e by (simp add: strtok_def Let_def)
      have "drop ?b (m[?b + ?k := 0]) = (rest @ 0 # z)[?k := 0]" using z by (simp add: drop_update_swap)
      also have "\<dots> = tok @ 0 # (drop (Suc ?k) rest @ 0 # z)" using split by (metis append.assoc append_Cons list_update_length)
      finally have d: "drop ?b (m[?b + ?k := 0]) = tok @ 0 # (drop (Suc ?k) rest @ 0 # z)" .
      have "drop (?b + ?k + 1) (m[?b + ?k := 0]) = drop (Suc ?k) (drop ?b (m[?b + ?k := 0]))" by (simp add: add.commute)
      hence d': "drop (?b + ?k + 1) (m[?b + ?k := 0]) = drop (Suc ?k) rest @ 0 # z" using d by simp
      have "0 \<notin> set rest" using b(2) cstr_nonzero by fastforce
      hence "0 \<notin> set tok" "0 \<notin> set (drop (Suc ?k) rest)" using r(2) by (auto dest: set_takeWhileD in_set_dropD)
      thus ?thesis using run d d' tok False cstr_append by auto
    next
      case False
      hence "first_in (\<lambda>c. c \<in> D) rest = None" "tok = rest" using r(2) by (auto simp: first_in_def)
      thus ?thesis using n lt nz k b(2) tok \<open>rest \<noteq> []\<close> by (simp add: strtok_def Let_def)
    qed
  qed
qed

section \<open>Character classes\<close>

definition isblank :: "int \<Rightarrow> bool" where "isblank c = (c = 32 \<or> c = 9)"
definition isspace :: "int \<Rightarrow> bool" where "isspace c = (c = 32 \<or> c = 12 \<or> c = 10 \<or> c = 13 \<or> c = 9 \<or> c = 11)"
definition islower :: "int \<Rightarrow> bool" where "islower c = (97 \<le> c \<and> c \<le> 122)"
definition isupper :: "int \<Rightarrow> bool" where "isupper c = (65 \<le> c \<and> c \<le> 90)"
definition isdigit :: "int \<Rightarrow> bool" where "isdigit c = (48 \<le> c \<and> c \<le> 57)"
definition isalpha :: "int \<Rightarrow> bool" where "isalpha c = (isupper c \<or> islower c)"
definition isalnum :: "int \<Rightarrow> bool" where "isalnum c = (isalpha c \<or> isdigit c)"
definition isxdigit :: "int \<Rightarrow> bool" where
  "isxdigit c = (isdigit c \<or> (97 \<le> c \<and> c \<le> 102) \<or> (65 \<le> c \<and> c \<le> 70))"
definition isgraph :: "int \<Rightarrow> bool" where "isgraph c = (32 < c \<and> c < 127)"
definition iscntrl :: "int \<Rightarrow> bool" where "iscntrl c = (c < 32 \<or> c = 127)"
definition isprint :: "int \<Rightarrow> bool" where "isprint c = (32 \<le> c \<and> c < 127)"
definition ispunct :: "int \<Rightarrow> bool" where "ispunct c = (isgraph c \<and> \<not> isalnum c)"
definition tolower :: "int \<Rightarrow> int" where "tolower c = (if 65 \<le> c \<and> c \<le> 90 then c + (97 - 65) else c)"
definition toupper :: "int \<Rightarrow> int" where "toupper c = (if 97 \<le> c \<and> c \<le> 122 then c + (65 - 97) else c)"

lemma case_conversion: "islower c \<Longrightarrow> tolower (toupper c) = c" "isupper c \<Longrightarrow> toupper (tolower c) = c"
  "isupper (toupper c) \<longleftrightarrow> isalpha c"
  by (auto simp: islower_def isupper_def tolower_def toupper_def isalpha_def)

lemma printable_classes: "isprint c \<longleftrightarrow> c = 32 \<or> isalnum c \<or> ispunct c" "isprint c \<Longrightarrow> \<not> iscntrl c"
  by (auto simp: isprint_def isalnum_def ispunct_def isgraph_def iscntrl_def isalpha_def isupper_def islower_def isdigit_def)

fun strnicmp_loop :: "u8 list \<Rightarrow> u8 list \<Rightarrow> nat \<Rightarrow> (int \<times> int) option" where
  "strnicmp_loop (x # s1) (y # s2) len =
     (if x = 0 \<or> y = 0 then Some (uint x, uint y)
      else if x = y then (if len - 1 = 0 then Some (uint x, uint y) else strnicmp_loop s1 s2 (len - 1))
      else if tolower (uint x) \<noteq> tolower (uint y) \<or> len - 1 = 0 then Some (tolower (uint x), tolower (uint y))
      else strnicmp_loop s1 s2 (len - 1))"
| "strnicmp_loop _ _ len = None"

definition strnicmp :: "u8 list \<Rightarrow> u8 list \<Rightarrow> nat \<Rightarrow> int option" where
  "strnicmp s1 s2 len = (if 0 < len then map_option (\<lambda>(c1, c2). c1 - c2) (strnicmp_loop s1 s2 len) else Some 0)"

lemma strnicmp_loop_ok:
  "terminated p \<Longrightarrow> terminated q \<Longrightarrow> 0 < n \<Longrightarrow> \<exists>c1 c2. strnicmp_loop p q n = Some (c1, c2) \<and>
    (c1 = c2 \<longleftrightarrow> map (\<lambda>c. tolower (uint c)) (take n (cstr p)) = map (\<lambda>c. tolower (uint c)) (take n (cstr q)))"
proof (induction p q n rule: strnicmp_loop.induct)
  case (1 x s1 y s2 n)
  obtain k where n: "n = Suc k" using 1(5) by (cases n) auto
  show ?case
  proof (cases "x = 0 \<or> y = 0")
    case True
    thus ?thesis using n by (auto simp: Let_def uint_0_iff)
  next
    case False
    thus ?thesis using 1 n by (cases "k = 0"; cases "x = y") (auto simp: Let_def uint_0_iff)
  qed
qed auto

lemma strnicmp_ok:
  "terminated p \<Longrightarrow> terminated q \<Longrightarrow> \<exists>r. strnicmp p q n = Some r \<and>
    (r = 0 \<longleftrightarrow> map (\<lambda>c. tolower (uint c)) (take n (cstr p)) = map (\<lambda>c. tolower (uint c)) (take n (cstr q)))"
  using strnicmp_loop_ok[of p q n] by (cases "n = 0") (auto simp: strnicmp_def)

section \<open>Numbers from text\<close>

definition hexval :: "u8 \<Rightarrow> int" where
  "hexval c =
     (if 48 \<le> c \<and> c \<le> 57 then uint c - 48
      else if 97 \<le> c \<and> c \<le> 102 then uint c - 97 + 10
      else if 65 \<le> c \<and> c \<le> 70 then uint c - 65 + 10
      else 0)"

text \<open>The loops over the digits; a \<^verbatim>\<open>long\<close> has 64 bits.\<close>

fun hex_loop :: "u64 \<Rightarrow> u8 list \<Rightarrow> u64 option" where
  "hex_loop v [] = None"
| "hex_loop v (c # s) =
     (if c \<noteq> 0 \<and> isxdigit (uint c) then hex_loop (v * 16 + of_int (hexval c)) s else Some v)"

fun dec_loop :: "u64 \<Rightarrow> u8 list \<Rightarrow> u64 option" where
  "dec_loop v [] = None"
| "dec_loop v (c # s) =
     (if c \<noteq> 0 \<and> isdigit (uint c) then dec_loop (v * 10 + ucast c - 48) s else Some v)"

text \<open>Whether a number starts with \<^verbatim>\<open>0x\<close>.\<close>

definition is_hex :: "u8 list \<Rightarrow> bool option" where
  "is_hex s = (case s of [] \<Rightarrow> None | c # t \<Rightarrow> if c = 48 then (case t of [] \<Rightarrow> None | d # _ \<Rightarrow> Some (d = 120)) else Some False)"

definition atol :: "u8 list \<Rightarrow> int option" where
  "atol s = do {
     h \<leftarrow> is_hex s;
     if h then map_option sint (hex_loop 0 (drop 2 s))
     else do {
       let neg = (hd s = 45);
       v \<leftarrow> dec_loop 0 (if neg then tl s else s);
       Some (sint (if neg then - v else v))
     }
   }"

definition atoul :: "u8 list \<Rightarrow> u64 option" where
  "atoul s = do { h \<leftarrow> is_hex s; if h then hex_loop 0 (drop 2 s) else dec_loop 0 s }"

definition atoull :: "u8 list \<Rightarrow> u64 option" where
  "atoull s = do { h \<leftarrow> is_hex s; if h then hex_loop 0 (drop 2 s) else dec_loop 0 s }"

definition atoi :: "u8 list \<Rightarrow> int option" where
  "atoi s = map_option (\<lambda>v. sint (of_int v :: 32 word)) (atol s)"

definition atoui :: "u8 list \<Rightarrow> u32 option" where
  "atoui s = map_option ucast (atoul s)"

section \<open>Properties\<close>

text \<open>
  C28: \<^verbatim>\<open>memmove\<close> moves. For up to 2 GiB inside the memory, whatever the alignment of the pointers and
  however source and destination overlap, afterwards the destination holds what the source held
  before and nothing else has changed; \<^verbatim>\<open>memcpy\<close> does the same if the destination starts below the
  source or the two do not overlap.
\<close>

theorem memmove_correct:
  assumes "unat count < 2 ^ 31" "d + unat count \<le> length m" "s + unat count \<le> length m"
  shows "memmove d s count m = Some (overwrite m d (take (unat count) (drop s m))) \<and>
    (d \<le> s \<or> s + unat count \<le> d \<longrightarrow> memcpy d s count m = Some (overwrite m d (take (unat count) (drop s m))))"
proof -
  have "moved d s (unat count) m = m" if "count = 0 \<or> d = s"
    using that assms by (intro nth_equalityI) (auto simp: nth_moved)
  thus ?thesis using move_up_ok[OF assms] move_down_ok[OF assms]
    by (cases "count = 0 \<or> d = s") (auto simp: memmove_def memcpy_def moved_def)
qed

theorem memmove_correct_witness: "memmove 1 0 2 [1, 2, 3, 4] = Some [1, 1, 2, 4]"
  using memmove_correct[of 2 1 "[1, 2, 3, 4]" 0] by (simp add: overwrite_def)



text \<open>
  C31: \<^verbatim>\<open>strlcpy\<close> into a buffer of the given size always terminates the result inside the buffer,
  stores the string cut off to one less than the size, leaves what is behind the size alone and
  returns the full length of the source.
\<close>

theorem strlcpy_correct:
  assumes "terminated src" "0 < s" "s \<le> length dst"
  shows "\<exists>dst'. strlcpy dst src s = Some (length (cstr src), dst') \<and> terminated dst' \<and> cstr dst' = take (s - 1) (cstr src) \<and>
    length dst' = length dst \<and> drop s dst' = drop s dst"
  using assms by (intro strlcpy_ok) auto

theorem strlcpy_correct_witness:
  "\<exists>dst'. strlcpy [9, 9, 9] [1, 2, 0] 2 = Some (Suc (Suc 0), dst') \<and> terminated dst' \<and> cstr dst' = [1] \<and> drop 2 dst' = [9]"
  using strlcpy_correct[of "[1, 2, 0]" 2 "[9, 9, 9]"] by auto

text \<open>
  C38: A defect: \<^verbatim>\<open>strlcat\<close> overruns its buffer. It allows one less than the whole size to be appended
  instead of what is left of it: whenever the destination is not empty and the result would have to be
  cut off, it writes behind the end of the buffer.
\<close>

theorem strlcat_overruns:
  assumes "terminated dst" "terminated src" "cstr dst \<noteq> []" "length (cstr dst) < length dst"
    and "length dst \<le> length (cstr dst) + length (cstr src)"
  shows "strlcat dst src (length dst) = None"
proof -
  have "length (drop (length (cstr dst)) dst) \<le> min (length dst - 1) (length (cstr src))" using assms by (cases "cstr dst") auto
  from lcpy_loop_over[OF assms(2) this] show ?thesis using assms by (auto simp: strlcat_def strnlen_ok min_def)
qed

theorem strlcat_overruns_witness: "strlcat [1, 2, 0, 0] [3, 4, 5, 0] (length [1, 2, 0, 0 :: u8]) = None"
  by (rule strlcat_overruns) simp_all



end
