(* ===== verification/LK_Printf.thy ===== *)
theory LK_Printf
  imports LK_Libc
begin

text \<open>
  Formatted output (\<^verbatim>\<open>lib/libc/printf.c\<close>). The variable arguments are a list: a number is the 64-bit slot it is
  passed in, a string the bytes from its pointer on (\<open>None\<close> for the null pointer) and a pointer for
  \<^verbatim>\<open>%n\<close> a name; the values stored through such pointers are collected in a list. The engine is
  parametric in the output function, as in the source. \<open>None\<close> is an access outside of an object or a
  missing argument.
\<close>

section \<open>The code\<close>

datatype va_arg = Num u64 | Str "u8 list option" | Dest nat

text \<open>The flags, one field for each bit of \<^verbatim>\<open>flags\<close>.\<close>

record pflags =
  LONGFLAG :: bool
  LONGLONGFLAG :: bool
  HALFFLAG :: bool
  HALFHALFFLAG :: bool
  SIZETFLAG :: bool
  INTMAXFLAG :: bool
  PTRDIFFFLAG :: bool
  ALTFLAG :: bool
  CAPSFLAG :: bool
  SHOWSIGNFLAG :: bool
  SIGNEDFLAG :: bool
  LEFTFORMATFLAG :: bool
  LEADZEROFLAG :: bool
  BLANKPOSFLAG :: bool

definition no_flags :: pflags where
  "no_flags = \<lparr>LONGFLAG = False, LONGLONGFLAG = False, HALFFLAG = False, HALFHALFFLAG = False, SIZETFLAG = False,
     INTMAXFLAG = False, PTRDIFFFLAG = False, ALTFLAG = False, CAPSFLAG = False, SHOWSIGNFLAG = False, SIGNEDFLAG = False,
     LEFTFORMATFLAG = False, LEADZEROFLAG = False, BLANKPOSFLAG = False\<rparr>"

text \<open>A store to an array.\<close>

definition put :: "u8 list \<Rightarrow> nat \<Rightarrow> u8 \<Rightarrow> u8 list option" where
  "put b i c = (if i < length b then Some (b[i := c]) else None)"

text \<open>\<^verbatim>\<open>buf[--pos] = c\<close>.\<close>

definition push :: "u8 \<Rightarrow> nat \<times> u8 list \<Rightarrow> (nat \<times> u8 list) option" where
  "push c = (\<lambda>(pos, b). if pos = 0 then None else map_option (Pair (pos - 1)) (put b (pos - 1) c))"

function dec_digits :: "u64 \<Rightarrow> nat \<times> u8 list \<Rightarrow> (u64 \<times> nat \<times> u8 list) option" where
  "dec_digits n pb =
     (if 10 \<le> n then do { pb \<leftarrow> push (ucast (n mod 10) + 48) pb; dec_digits (n div 10) pb } else Some (n, pb))"
  by pat_completeness auto
termination
proof (relation "measure (\<lambda>(n, pb). unat n)", simp)
  fix n :: u64 and pb x :: "nat \<times> u8 list"
  assume "10 \<le> n"
  thus "((n div 10, x), n, pb) \<in> measure (\<lambda>(n, pb). unat n)" by (simp add: unat_div word_le_nat_alt)
qed

definition longlong_to_string :: "u8 list \<Rightarrow> u64 \<Rightarrow> nat \<Rightarrow> pflags \<Rightarrow> (u8 list \<times> u8) option" where
  "longlong_to_string buf n len flag = do {
     let negative = (SIGNEDFLAG flag \<and> sint n < 0);
     let n = (if negative then - n else n);
     pb \<leftarrow> push 0 (len, buf);
     (n, pb) \<leftarrow> dec_digits n pb;
     (pos, buf) \<leftarrow> push (ucast n + 48) pb;
     let signchar = (if negative then 45 else if SHOWSIGNFLAG flag then 43 else if BLANKPOSFLAG flag then 32 else 0);
     Some (drop pos buf, signchar)
   }"

definition hextable :: "bool \<Rightarrow> u64 \<Rightarrow> u8" where
  "hextable caps d = (if d < 10 then ucast d + 48 else if caps then ucast d + 55 else ucast d + 87)"

function hex_digits :: "bool \<Rightarrow> u64 \<Rightarrow> nat \<times> u8 list \<Rightarrow> (nat \<times> u8 list) option" where
  "hex_digits caps u pb = do {
     pb \<leftarrow> push (hextable caps (u mod 16)) pb;
     if u div 16 \<noteq> 0 then hex_digits caps (u div 16) pb else Some pb
   }"
  by pat_completeness auto
termination
proof (relation "measure (\<lambda>(caps, u, pb). unat u)", simp)
  fix caps and u :: u64 and pb x :: "nat \<times> u8 list"
  assume "u div 16 \<noteq> 0"
  hence "unat (u div 16) \<noteq> 0" by (simp add: unat_eq_zero)
  hence "unat u div 16 \<noteq> 0" by (simp add: unat_div)
  thus "((caps, u div 16, x), caps, u, pb) \<in> measure (\<lambda>(caps, u, pb). unat u)" by (simp add: unat_div)
qed

definition longlong_to_hexstring :: "u8 list \<Rightarrow> u64 \<Rightarrow> nat \<Rightarrow> pflags \<Rightarrow> u8 list option" where
  "longlong_to_hexstring buf u len flag = do {
     pb \<leftarrow> push 0 (len, buf);
     (pos, buf) \<leftarrow> hex_digits (CAPSFLAG flag) u pb;
     Some (drop pos buf)
   }"

text \<open>
  \<open>Inl\<close> is an error of the output function, which ends the engine; \<open>Inr\<close> carries the last count
  returned, \<^verbatim>\<open>chars_written\<close> and the state of the output.
\<close>

type_synonym 's outfun = "u8 list \<Rightarrow> nat \<Rightarrow> 's \<Rightarrow> (int \<times> 's) option"
type_synonym 's printed = "(int \<times> 's) + (int \<times> u64 \<times> 's)"

definition OUTPUT_STRING :: "'s outfun \<Rightarrow> u8 list \<Rightarrow> nat \<Rightarrow> u64 \<times> 's \<Rightarrow> 's printed option" where
  "OUTPUT_STRING out str len = (\<lambda>(chars_written, state). do {
     (err, state) \<leftarrow> out str len state;
     Some (if err < 0 then Inl (err, state) else Inr (err, chars_written + of_int err, state))
   })"

definition OUTPUT_CHAR :: "'s outfun \<Rightarrow> u8 \<Rightarrow> u64 \<times> 's \<Rightarrow> 's printed option" where
  "OUTPUT_CHAR out c = OUTPUT_STRING out [c] 1"

definition andthen :: "'s printed option \<Rightarrow> (int \<Rightarrow> u64 \<times> 's \<Rightarrow> 's printed option) \<Rightarrow> 's printed option" where
  "andthen r k = (case r of None \<Rightarrow> None | Some (Inl e) \<Rightarrow> Some (Inl e) | Some (Inr (err, st)) \<Rightarrow> k err st)"

definition SIZE_MAX :: nat where
  "SIZE_MAX = 2 ^ 64 - 1"

fun pad :: "'s outfun \<Rightarrow> u8 \<Rightarrow> nat \<Rightarrow> u64 \<times> 's \<Rightarrow> 's printed option" where
  "pad out c 0 st = Some (Inr (0, st))"
| "pad out c (Suc n) st = andthen (OUTPUT_CHAR out c st) (\<lambda>_. pad out c n)"

text \<open>The shared output code. A width given as \<^verbatim>\<open>format_num\<close>, compared with what was written.\<close>

definition output_string :: "'s outfun \<Rightarrow> pflags \<Rightarrow> u32 \<Rightarrow> u8 \<Rightarrow> u8 list \<Rightarrow> u64 \<times> 's \<Rightarrow> 's printed option" where
  "output_string out flags format_num signchar s st =
     (if LEFTFORMATFLAG flags
      then andthen (OUTPUT_STRING out s SIZE_MAX st) (\<lambda>err. pad out 32 (unat format_num - nat err))
      else do {
        string_len \<leftarrow> strlen s;
        let format_num = (if signchar \<noteq> 0 \<and> 0 < format_num then format_num - 1 else format_num);
        andthen (if LEADZEROFLAG flags \<and> signchar \<noteq> 0 then OUTPUT_CHAR out signchar st else Some (Inr (0, st))) (\<lambda>_ st.
        andthen (pad out (if LEADZEROFLAG flags then 48 else 32) (unat format_num - string_len) st) (\<lambda>_ st.
        andthen (if \<not> LEADZEROFLAG flags \<and> signchar \<noteq> 0 then OUTPUT_CHAR out signchar st else Some (Inr (0, st))) (\<lambda>_ st.
        OUTPUT_STRING out s SIZE_MAX st)))
      })"

text \<open>The characters up to the next \<^verbatim>\<open>%\<close> or the end: how many, the one that ends them, and the rest.\<close>

fun plain :: "u8 list \<Rightarrow> (nat \<times> u8 \<times> u8 list) option" where
  "plain [] = None"
| "plain (c # fmt) =
     (if c = 0 \<or> c = 37 then Some (0, c, fmt) else map_option (\<lambda>(n, c, fmt). (Suc n, c, fmt)) (plain fmt))"

text \<open>From \<^verbatim>\<open>next_format\<close> to a character that is no flag, width or length.\<close>

fun next_format :: "pflags \<Rightarrow> u32 \<Rightarrow> u8 list \<Rightarrow> (u8 \<times> pflags \<times> u32 \<times> u8 list) option" where
  "next_format flags format_num [] = None"
| "next_format flags format_num (c # fmt) =
     (if 48 \<le> c \<and> c \<le> 57 then
        next_format (if c = 48 \<and> format_num = 0 then flags\<lparr>LEADZEROFLAG := True\<rparr> else flags) (format_num * 10 + (ucast c - 48)) fmt
      else if c = 46 then next_format flags format_num fmt
      else if c = 45 then next_format (flags\<lparr>LEFTFORMATFLAG := True\<rparr>) format_num fmt
      else if c = 43 then next_format (flags\<lparr>SHOWSIGNFLAG := True\<rparr>) format_num fmt
      else if c = 32 then next_format (flags\<lparr>BLANKPOSFLAG := True\<rparr>) format_num fmt
      else if c = 35 then next_format (flags\<lparr>ALTFLAG := True\<rparr>) format_num fmt
      else if c = 108 then next_format (flags\<lparr>LONGLONGFLAG := LONGLONGFLAG flags \<or> LONGFLAG flags, LONGFLAG := True\<rparr>) format_num fmt
      else if c = 104 then next_format (flags\<lparr>HALFHALFFLAG := HALFHALFFLAG flags \<or> HALFFLAG flags, HALFFLAG := True\<rparr>) format_num fmt
      else if c = 122 then next_format (flags\<lparr>SIZETFLAG := True\<rparr>) format_num fmt
      else if c = 106 then next_format (flags\<lparr>INTMAXFLAG := True\<rparr>) format_num fmt
      else if c = 116 then next_format (flags\<lparr>PTRDIFFFLAG := True\<rparr>) format_num fmt
      else Some (c, flags, format_num, fmt))"

text \<open>The numeric arguments, by the length flags.\<close>

definition signed_arg :: "pflags \<Rightarrow> u64 \<Rightarrow> u64" where
  "signed_arg flags x =
     (if LONGLONGFLAG flags then x else if LONGFLAG flags then x
      else if HALFHALFFLAG flags then scast (ucast x :: 8 word)
      else if HALFFLAG flags then scast (ucast x :: 16 word)
      else if SIZETFLAG flags then x else if INTMAXFLAG flags then x else if PTRDIFFFLAG flags then x
      else scast (ucast x :: 32 word))"

definition unsigned_arg :: "pflags \<Rightarrow> u64 \<Rightarrow> u64" where
  "unsigned_arg flags x =
     (if LONGLONGFLAG flags then x else if LONGFLAG flags then x
      else if HALFHALFFLAG flags then ucast (ucast x :: 8 word)
      else if HALFFLAG flags then ucast (ucast x :: 16 word)
      else if SIZETFLAG flags then x else if INTMAXFLAG flags then x else if PTRDIFFFLAG flags then x
      else ucast (ucast x :: 32 word))"

text \<open>How many bytes \<^verbatim>\<open>%n\<close> stores.\<close>

definition count_bytes :: "pflags \<Rightarrow> nat" where
  "count_bytes flags =
     (if LONGLONGFLAG flags then 8 else if LONGFLAG flags then 8 else if HALFHALFFLAG flags then 1
      else if HALFFLAG flags then 2 else if SIZETFLAG flags then 8 else 4)"

fun num_arg :: "va_arg list \<Rightarrow> (u64 \<times> va_arg list) option" where
  "num_arg (Num x # ap) = Some (x, ap)"
| "num_arg _ = None"

fun str_arg :: "va_arg list \<Rightarrow> (u8 list option \<times> va_arg list) option" where
  "str_arg (Str s # ap) = Some (s, ap)"
| "str_arg _ = None"

fun ptr_arg :: "va_arg list \<Rightarrow> (nat \<times> va_arg list) option" where
  "ptr_arg (Dest p # ap) = Some (p, ap)"
| "ptr_arg _ = None"

text \<open>
  The cases of the switch. \<open>nb\<close> is what \<^verbatim>\<open>num_buffer\<close> holds. The result has the remaining arguments, the values
  stored for \<^verbatim>\<open>%n\<close> and the output.
\<close>

definition hex_format :: "'s outfun \<Rightarrow> u8 list \<Rightarrow> pflags \<Rightarrow> u32 \<Rightarrow> u64 \<Rightarrow> u64 \<times> 's \<Rightarrow> 's printed option" where
  "hex_format out nb flags format_num x st = do {
     s \<leftarrow> longlong_to_hexstring nb (unsigned_arg flags x) (length nb) flags;
     andthen (if ALTFLAG flags
              then andthen (OUTPUT_CHAR out 48 st) (\<lambda>_. OUTPUT_CHAR out (if CAPSFLAG flags then 88 else 120))
              else Some (Inr (0, st))) (\<lambda>_ st.
     output_string out flags format_num 0 s st)
   }"

definition convert :: "'s outfun \<Rightarrow> u8 list \<Rightarrow> u8 \<Rightarrow> pflags \<Rightarrow> u32 \<Rightarrow> va_arg list \<Rightarrow> u64 \<times> 's \<Rightarrow>
    (va_arg list \<times> (nat \<times> nat \<times> u64) list \<times> 's printed) option" where
  "convert out nb c flags format_num ap st =
     (if c = 37 then do { r \<leftarrow> OUTPUT_CHAR out 37 st; Some (ap, [], r) }
      else if c = 99 then do { (x, ap) \<leftarrow> num_arg ap; r \<leftarrow> OUTPUT_CHAR out (ucast x) st; Some (ap, [], r) }
      else if c = 115 then do {
        (s, ap) \<leftarrow> str_arg ap;
        let s = (case s of None \<Rightarrow> map of_char ''<null>'' @ [0] | Some s \<Rightarrow> s);
        r \<leftarrow> output_string out (flags\<lparr>LEADZEROFLAG := False\<rparr>) format_num 0 s st;
        Some (ap, [], r)
      }
      else if c = 105 \<or> c = 100 then do {
        (x, ap) \<leftarrow> num_arg ap;
        (s, signchar) \<leftarrow> longlong_to_string nb (signed_arg flags x) (length nb) (flags\<lparr>SIGNEDFLAG := True\<rparr>);
        r \<leftarrow> output_string out (flags\<lparr>SIGNEDFLAG := True\<rparr>) format_num signchar s st;
        Some (ap, [], r)
      }
      else if c = 117 then do {
        (x, ap) \<leftarrow> num_arg ap;
        (s, signchar) \<leftarrow> longlong_to_string nb (unsigned_arg flags x) (length nb) flags;
        r \<leftarrow> output_string out flags format_num signchar s st;
        Some (ap, [], r)
      }
      else if c = 112 then do {
        (x, ap) \<leftarrow> num_arg ap;
        r \<leftarrow> hex_format out nb (flags\<lparr>LONGFLAG := True, ALTFLAG := True\<rparr>) format_num x st;
        Some (ap, [], r)
      }
      else if c = 88 then do {
        (x, ap) \<leftarrow> num_arg ap;
        r \<leftarrow> hex_format out nb (flags\<lparr>CAPSFLAG := True\<rparr>) format_num x st;
        Some (ap, [], r)
      }
      else if c = 120 then do {
        (x, ap) \<leftarrow> num_arg ap; r \<leftarrow> hex_format out nb flags format_num x st; Some (ap, [], r) }
      else if c = 110 then do {
        (p, ap) \<leftarrow> ptr_arg ap; Some (ap, [(p, count_bytes flags, fst st)], Inr (0, st)) }
      else do { r \<leftarrow> andthen (OUTPUT_CHAR out 37 st) (\<lambda>_. OUTPUT_CHAR out c); Some (ap, [], r) })"

lemma plain_shorter: "plain fmt = Some (n, c, rest) \<Longrightarrow> length rest < length fmt"
  by (induction fmt arbitrary: n) (auto split: if_splits simp: less_Suc_eq)

lemma next_format_step:
  "next_format f n (c # fmt) = Some r \<Longrightarrow> r = (c, f, n, fmt) \<or> (\<exists>f' n'. next_format f' n' fmt = Some r)"
  unfolding next_format.simps by (simp only: split: if_splits; blast)

lemma next_format_shorter: "next_format f n fmt = Some (c, f', n', rest) \<Longrightarrow> length rest < length fmt"
proof (induction fmt arbitrary: f n)
  case (Cons x fmt)
  from next_format_step[OF Cons.prems] Cons.IH show ?case by (auto simp: less_Suc_eq)
qed simp

text \<open>One pass of the loop after the plain characters: the conversion and what is left of the format.\<close>

function engine :: "'s outfun \<Rightarrow> u8 list \<Rightarrow> u8 list \<Rightarrow> va_arg list \<Rightarrow> u64 \<times> 's \<Rightarrow>
    ((nat \<times> nat \<times> u64) list \<times> 's printed) option" where
  "engine out nb fmt ap st =
     (case plain fmt of
        None \<Rightarrow> None
      | Some (string_len, c, rest) \<Rightarrow>
          (case OUTPUT_STRING out fmt string_len st of
             None \<Rightarrow> None
           | Some (Inl e) \<Rightarrow> Some ([], Inl e)
           | Some (Inr (err, st)) \<Rightarrow>
               if c = 0 then Some ([], Inr (err, st))
               else (case next_format no_flags 0 rest of
                 None \<Rightarrow> None
               | Some (c, flags, format_num, rest) \<Rightarrow>
                   if c = 0 then Some ([], Inr (err, st))
                   else (case convert out nb c flags format_num ap st of
                     None \<Rightarrow> None
                   | Some (ap, ns, Inl e) \<Rightarrow> Some (ns, Inl e)
                   | Some (ap, ns, Inr (_, st)) \<Rightarrow>
                       map_option (\<lambda>(ns', r). (ns @ ns', r)) (engine out nb rest ap st)))))"
  by pat_completeness auto
termination
  by (relation "measure (\<lambda>(out, nb, fmt, ap, st). length fmt)")
     (auto dest!: plain_shorter next_format_shorter)

definition printf_engine :: "'s outfun \<Rightarrow> u8 list \<Rightarrow> 's \<Rightarrow> u8 list \<Rightarrow> va_arg list \<Rightarrow> (int \<times> (nat \<times> nat \<times> u64) list \<times> 's) option" where
  "printf_engine out nb state fmt ap = do {
     (ns, r) \<leftarrow> engine out nb fmt ap (0, state);
     Some (case r of Inl (err, state) \<Rightarrow> (err, ns, state)
           | Inr (_, chars_written, state) \<Rightarrow> (sint (ucast chars_written :: 32 word), ns, state))
   }"

record output_args =
  oa_outstr :: "u8 list"
  oa_len :: nat
  oa_pos :: nat

fun vsnprintf_loop :: "nat \<Rightarrow> u8 list \<Rightarrow> output_args \<Rightarrow> (nat \<times> output_args) option" where
  "vsnprintf_loop len [] a = (if len = 0 then Some (0, a) else None)"
| "vsnprintf_loop len (c # str) a =
     (if len = 0 \<or> c = 0 then Some (0, a)
      else do {
        a \<leftarrow> (if oa_pos a < oa_len a
             then map_option (\<lambda>b. a\<lparr>oa_outstr := b, oa_pos := Suc (oa_pos a)\<rparr>) (put (oa_outstr a) (oa_pos a) c)
             else Some a);
        (count, a) \<leftarrow> vsnprintf_loop (len - 1) str a;
        Some (Suc count, a)
      })"

definition vsnprintf_output :: "output_args outfun" where
  "vsnprintf_output str len a = do {
     (count, a) \<leftarrow> vsnprintf_loop len str a;
     Some (sint (of_nat count :: 32 word), a)
   }"

definition vsnprintf :: "u8 list \<Rightarrow> u8 list \<Rightarrow> nat \<Rightarrow> u8 list \<Rightarrow> va_arg list \<Rightarrow> (int \<times> (nat \<times> nat \<times> u64) list \<times> u8 list) option" where
  "vsnprintf nb str len fmt ap = do {
     (wlen, ns, a) \<leftarrow> printf_engine vsnprintf_output nb \<lparr>oa_outstr = str, oa_len = len, oa_pos = 0\<rparr> fmt ap;
     str \<leftarrow> (if len \<le> oa_pos a
            then (if len = 0 then None else put (oa_outstr a) (len - 1) 0)
            else (if wlen < 0 then None else put (oa_outstr a) (nat wlen) 0));
     Some (wlen, ns, str)
   }"

definition vsprintf :: "u8 list \<Rightarrow> u8 list \<Rightarrow> u8 list \<Rightarrow> va_arg list \<Rightarrow> (int \<times> (nat \<times> nat \<times> u64) list \<times> u8 list) option" where
  "vsprintf nb str fmt ap = vsnprintf nb str (2 ^ 31 - 1) fmt ap"

declare engine.simps [simp del] dec_digits.simps [simp del] hex_digits.simps [simp del]

section \<open>Digits\<close>

function dec_str :: "nat \<Rightarrow> u8 list" where
  "dec_str n = (if n < 10 then [of_nat n + 48] else dec_str (n div 10) @ [of_nat (n mod 10) + 48])"
  by pat_completeness auto
termination by (relation "measure id") auto

declare dec_str.simps [simp del]

lemma dec_str_length: "n < 10 ^ Suc k \<Longrightarrow> length (dec_str n) \<le> Suc k"
proof (induction k arbitrary: n)
  case 0
  thus ?case by (simp add: dec_str.simps)
next
  case (Suc k)
  hence "length (dec_str (n div 10)) \<le> Suc k" by (intro Suc.IH) auto
  thus ?case by (subst dec_str.simps) simp
qed

lemma push_ok:
  assumes "0 < pos" "pos \<le> length b"
  shows "push c (pos, b) = Some (pos - 1, b[pos - 1 := c])" "drop (pos - 1) (b[pos - 1 := c]) = c # drop pos b"
proof -
  show "push c (pos, b) = Some (pos - 1, b[pos - 1 := c])" using assms by (simp add: push_def put_def)
  have "drop (pos - 1) b = b ! (pos - 1) # drop pos b" using assms Cons_nth_drop_Suc[of "pos - 1" b] by simp
  thus "drop (pos - 1) (b[pos - 1 := c]) = c # drop pos b" using assms by (simp add: drop_update_swap)
qed

lemma dec_digits_ok:
  assumes "length (dec_str (unat n)) \<le> pos" "pos \<le> length b"
  shows "\<exists>d pos' b'. dec_digits n (pos, b) = Some (d, pos', b') \<and> 0 < pos' \<and> pos' \<le> length b' \<and> length b' = length b \<and>
    (ucast d + 48) # drop pos' b' = dec_str (unat n) @ drop pos b"
  using assms
proof (induction "unat n" arbitrary: n pos b rule: less_induct)
  case less
  show ?case
  proof (cases "10 \<le> n")
    case False
    hence "unat n < 10" by (simp add: word_le_nat_alt)
    moreover have "(ucast n :: u8) = of_nat (unat n)" by simp
    ultimately show ?thesis using less.prems False by (subst dec_digits.simps) (simp add: dec_str.simps)
  next
    case True
    hence n10: "10 \<le> unat n" by (simp add: word_le_nat_alt)
    let ?c = "ucast (n mod 10) + 48 :: u8"
    have s: "dec_str (unat n) = dec_str (unat (n div 10)) @ [?c]"
    proof -
      have "(ucast (n mod 10) :: u8) = of_nat (unat (n mod 10))" by simp
      hence "?c = of_nat (unat n mod 10) + 48" by (simp only: unat_mod unat_numeral) simp
      thus ?thesis using n10 by (subst dec_str.simps) (simp add: unat_div)
    qed
    hence pos: "0 < pos" "length (dec_str (unat (n div 10))) \<le> pos - 1" using less.prems by auto
    let ?b = "b[pos - 1 := ?c]"
    note p = push_ok[OF pos(1) less.prems(2), of ?c]
    have pb: "pos - 1 \<le> length ?b" using less.prems(2) by simp
    have lt: "unat (n div 10) < unat n" using n10 by (simp add: unat_div)
    obtain d pos' b' where r: "dec_digits (n div 10) (pos - 1, ?b) = Some (d, pos', b')" "0 < pos'" "pos' \<le> length b'" "length b' = length ?b"
      "(ucast d + 48) # drop pos' b' = dec_str (unat (n div 10)) @ drop (pos - 1) ?b"
      using less.hyps[OF lt pos(2) pb] by blast
    have "dec_digits n (pos, b) = Some (d, pos', b')" using True p(1) r(1) by (subst dec_digits.simps) simp
    thus ?thesis using r p(2) s by auto
  qed
qed

lemma longlong_to_string_ok:
  assumes "length nb = 32"
  shows "longlong_to_string nb n 32 f =
    (let neg = SIGNEDFLAG f \<and> sint n < 0 in
     Some (dec_str (unat (if neg then - n else n)) @ [0],
       if neg then 45 else if SHOWSIGNFLAG f then 43 else if BLANKPOSFLAG f then 32 else 0))"
proof -
  let ?neg = "SIGNEDFLAG f \<and> sint n < 0"
  let ?n = "if ?neg then - n else n"
  have "unat ?n < 2 ^ 64" using unsigned_less[of ?n, where ?'a = nat] by simp
  hence l: "length (dec_str (unat ?n)) \<le> 20" using dec_str_length[of "unat ?n" 19] by simp
  have p: "push 0 (32, nb) = Some (31, nb[31 := 0])" "drop 31 (nb[31 := 0]) = [0]" using push_ok[of 32 nb 0] assms by simp_all
  obtain d pos' b' where r: "dec_digits ?n (31, nb[31 := 0]) = Some (d, pos', b')" "0 < pos'" "pos' \<le> length b'"
    "(ucast d + 48) # drop pos' b' = dec_str (unat ?n) @ [0]"
    using dec_digits_ok[of ?n 31 "nb[31 := 0]"] l assms p(2) by auto
  note q = push_ok[OF r(2,3), of "ucast d + 48"]
  show ?thesis unfolding longlong_to_string_def Let_def using p(1) r(1,4) q by simp
qed

text \<open>Reading the digits back.\<close>

lemma digit_loop: "k < 10 \<Longrightarrow> dec_loop v ((of_nat k + 48) # s) = dec_loop (v * 10 + of_nat k) s"
proof -
  assume k: "k < 10"
  have u: "unat (of_nat k + 48 :: u8) = k + 48" using k by (simp add: unat_word_ariths unat_of_nat)
  have i: "uint (of_nat k + 48 :: u8) = int k + 48" unfolding uint_nat u by simp
  have "(ucast (of_nat k + 48 :: u8) :: u64) = of_nat (k + 48)" unfolding u[symmetric] by simp
  moreover have "(of_nat k + 48 :: u8) \<noteq> 0" using u by (metis add_eq_0_iff_both_eq_0 unat_0 zero_neq_numeral)
  ultimately show ?thesis using k i by (simp add: isdigit_def)
qed

lemma dec_loop_ok: "\<exists>m. \<forall>v s. dec_loop v (dec_str n @ s) = dec_loop (v * m + of_nat n) s"
proof (induction n rule: dec_str.induct)
  case (1 n)
  show ?case
  proof (cases "n < 10")
    case True
    thus ?thesis using digit_loop by (intro exI[of _ 10]) (simp add: dec_str.simps)
  next
    case False
    then obtain m where m: "\<forall>v s. dec_loop v (dec_str (n div 10) @ s) = dec_loop (v * m + of_nat (n div 10)) s" using 1 by blast
    have "of_nat (n div 10) * 10 + of_nat (n mod 10) = (of_nat n :: u64)"
      by (metis div_mult_mod_eq of_nat_add of_nat_mult of_nat_numeral)
    hence e: "(v * m + of_nat (n div 10)) * 10 + of_nat (n mod 10) = v * (m * 10) + (of_nat n :: u64)" for v by (simp add: algebra_simps)
    have d: "dec_str n = dec_str (n div 10) @ [of_nat (n mod 10) + 48]" using False by (subst dec_str.simps) simp
    have "dec_loop v (dec_str n @ s) = dec_loop ((v * m + of_nat (n div 10)) * 10 + of_nat (n mod 10)) s" for v s
      unfolding d append_assoc append_Cons append_Nil m[rule_format] by (rule digit_loop) simp
    thus ?thesis unfolding e by blast
  qed
qed

lemma dec_str_read: "dec_loop 0 (dec_str n @ 0 # s) = Some (of_nat n)"
  using dec_loop_ok[of n] by auto

section \<open>Output into a buffer\<close>

text \<open>What has been stored so far, and the parts of the state that never change.\<close>

definition stored :: "output_args \<Rightarrow> u8 list" where
  "stored a = take (oa_pos a) (oa_outstr a)"

definition same_buffer :: "output_args \<Rightarrow> output_args \<Rightarrow> bool" where
  "same_buffer a a' \<longleftrightarrow> oa_len a' = oa_len a \<and> length (oa_outstr a') = length (oa_outstr a) \<and>
     drop (oa_len a) (oa_outstr a') = drop (oa_len a) (oa_outstr a) \<and> oa_pos a' \<le> oa_len a'"

definition readable :: "nat \<Rightarrow> u8 list \<Rightarrow> bool" where
  "readable len str \<longleftrightarrow> terminated str \<or> len \<le> length str"

lemma vsnprintf_loop_ok:
  assumes "oa_pos a \<le> oa_len a" "oa_len a \<le> length (oa_outstr a)" "readable len str" "x = take len (cstr str)"
  shows "\<exists>a'. vsnprintf_loop len str a = Some (length x, a') \<and> same_buffer a a' \<and> stored a' = take (oa_len a) (stored a @ x)"
  using assms
proof (induction len str a arbitrary: x rule: vsnprintf_loop.induct)
  case (1 len a)
  hence "len = 0" by (simp add: readable_def)
  thus ?case using 1 by (simp add: same_buffer_def stored_def)
next
  case (2 len c str a)
  show ?case
  proof (cases "len = 0 \<or> c = 0")
    case True
    thus ?thesis using 2(2,3,5) by (auto simp: same_buffer_def stored_def)
  next
    case False
    let ?y = "take (len - 1) (cstr str)"
    have x: "x = c # ?y" using 2(5) False by (cases len) auto
    have rd: "readable (len - 1) str" using 2(4) False by (auto simp: readable_def)
    show ?thesis
    proof (cases "oa_pos a < oa_len a")
      case True
      let ?a = "a\<lparr>oa_outstr := (oa_outstr a)[oa_pos a := c], oa_pos := Suc (oa_pos a)\<rparr>"
      have p: "put (oa_outstr a) (oa_pos a) c = Some ((oa_outstr a)[oa_pos a := c])" using True 2(3) by (simp add: put_def)
      have st: "stored ?a = stored a @ [c]" using True 2(3) by (simp add: stored_def take_Suc_conv_app_nth)
      obtain a' where a': "vsnprintf_loop (len - 1) str ?a = Some (length ?y, a')" "same_buffer ?a a'" "stored a' = take (oa_len a) (stored ?a @ ?y)"
        using 2(1)[OF False, of ?a, OF _ _ _ rd refl] True p 2(3) by auto
      have "same_buffer a a'" using a'(2) True by (simp add: same_buffer_def)
      thus ?thesis using a'(1,3) p True False x st by simp
    next
      case full: False
      obtain a' where a': "vsnprintf_loop (len - 1) str a = Some (length ?y, a')" "same_buffer a a'" "stored a' = take (oa_len a) (stored a @ ?y)"
        using 2(1)[OF False, of a, OF _ _ _ rd refl] full 2(2,3) by auto
      have "length (stored a) = oa_len a" using full 2(2,3) by (simp add: stored_def)
      thus ?thesis using a' full False x by simp
    qed
  qed
qed

text \<open>
  The invariant of the output: as long as there is room, everything written has been stored and
  counted. An error ends the output only when the buffer is full.
\<close>

definition counted :: "output_args \<Rightarrow> u64 \<times> output_args \<Rightarrow> bool" where
  "counted a0 = (\<lambda>(cw, a). same_buffer a0 a \<and> (oa_pos a < oa_len a0 \<longrightarrow> unat cw = oa_pos a))"

definition good :: "output_args \<Rightarrow> output_args printed option \<Rightarrow> bool" where
  "good a0 x = (case x of None \<Rightarrow> False | Some (Inl (e, a)) \<Rightarrow> same_buffer a0 a \<and> oa_pos a = oa_len a0
     | Some (Inr (err, st)) \<Rightarrow> counted a0 st)"

definition small :: "output_args \<Rightarrow> bool" where
  "small a0 \<longleftrightarrow> oa_len a0 \<le> length (oa_outstr a0) \<and> oa_len a0 < 2 ^ 31"

lemma sint_small: "k < 2 ^ 31 \<Longrightarrow> sint (of_nat k :: 32 word) = int k"
proof -
  assume k: "k < 2 ^ 31"
  have "(of_nat k :: 32 word) = word_of_int (int k)" by simp
  thus ?thesis using k by (simp add: sint_sbintrunc' signed_take_bit_int_eq_self del: of_int_of_nat_eq)
qed

lemma good_andthen:
  assumes x: "good a0 x" and k: "\<And>err st. counted a0 st \<Longrightarrow> good a0 (k err st)"
  shows "good a0 (andthen x k)"
proof -
  consider e a where "x = Some (Inl (e, a))" | err st where "x = Some (Inr (err, st))" "counted a0 st"
    using x by (auto simp: good_def split: option.splits sum.splits)
  thus ?thesis by cases (use x k in \<open>simp_all add: andthen_def\<close>)
qed

lemma good_skip: "counted a0 st \<Longrightarrow> good a0 (Some (Inr (err, st)))"
  by (simp add: good_def)

lemma OUTPUT_STRING_good:
  assumes "small a0" "counted a0 st" "readable len s"
  shows "good a0 (OUTPUT_STRING vsnprintf_output s len st)"
proof -
  obtain cw a where st: "st = (cw, a)" by (cases st)
  have b: "same_buffer a0 a" "oa_pos a < oa_len a0 \<Longrightarrow> unat cw = oa_pos a" using assms(2) by (simp_all add: st counted_def)
  hence l: "oa_len a = oa_len a0" "oa_pos a \<le> oa_len a" "oa_len a \<le> length (oa_outstr a)"
    using assms(1) by (simp_all add: same_buffer_def small_def)
  define k where "k = length (take len (cstr s))"
  obtain a' where a': "vsnprintf_loop len s a = Some (k, a')" "same_buffer a a'" "stored a' = take (oa_len a) (stored a @ take len (cstr s))"
    using vsnprintf_loop_ok[OF l(2,3) assms(3) refl] unfolding k_def by blast
  have b': "same_buffer a0 a'" using b(1) a'(2) by (simp add: same_buffer_def)
  have "length (stored a') = oa_pos a'" "length (stored a) = oa_pos a"
    using b b' assms(1) by (simp_all add: stored_def same_buffer_def small_def)
  hence pos: "oa_pos a' = min (oa_len a0) (oa_pos a + k)" using arg_cong[OF a'(3), of length] l(1) by (simp add: k_def)
  show ?thesis
  proof (cases "oa_pos a + k < oa_len a0")
    case False
    hence "oa_pos a' = oa_len a0" using pos by simp
    thus ?thesis using a'(1) b' by (simp add: good_def counted_def OUTPUT_STRING_def vsnprintf_output_def st)
  next
    case True
    hence k: "k < 2 ^ 31" using assms(1) by (simp add: small_def)
    have "unat (cw + of_nat k) = oa_pos a + k"
      using True b(2) assms(1) by (simp add: unat_word_ariths unat_of_nat small_def)
    thus ?thesis using True pos a'(1) b' sint_small[OF k]
      by (simp add: good_def counted_def OUTPUT_STRING_def vsnprintf_output_def st)
  qed
qed

lemma OUTPUT_CHAR_good: "small a0 \<Longrightarrow> counted a0 st \<Longrightarrow> good a0 (OUTPUT_CHAR vsnprintf_output c st)"
  unfolding OUTPUT_CHAR_def by (rule OUTPUT_STRING_good) (simp_all add: readable_def)

lemma pad_good: "small a0 \<Longrightarrow> counted a0 st \<Longrightarrow> good a0 (pad vsnprintf_output c n st)"
  by (induction n arbitrary: st) (auto intro!: good_andthen OUTPUT_CHAR_good good_skip)

lemmas good_intros = good_andthen OUTPUT_STRING_good OUTPUT_CHAR_good pad_good good_skip

lemma output_string_good:
  assumes "small a0" "counted a0 st" "terminated s"
  shows "good a0 (output_string vsnprintf_output f num c s st)"
  using assms unfolding output_string_def
  by (auto simp: strlen_ok readable_def Let_def intro!: good_intros split del: if_split split: if_split)

text \<open>The hexadecimal digits fit into the buffer.\<close>

lemma hex_digits_ok:
  assumes "unat u < 16 ^ Suc k" "Suc k \<le> pos" "pos \<le> length b"
  shows "\<exists>pos' b' ds. hex_digits caps u (pos, b) = Some (pos', b') \<and> drop pos' b' = ds @ drop pos b"
  using assms
proof (induction k arbitrary: u pos b)
  case (0 u pos b)
  have "u div 16 = 0" using 0(1) by (simp add: unat_div word_unat_eq_iff)
  thus ?case using push_ok[of pos b "hextable caps (u mod 16)"] 0 by (subst hex_digits.simps) (auto intro: exI[of _ "[_]"])
next
  case (Suc k u pos b)
  let ?c = "hextable caps (u mod 16)"
  let ?b = "b[pos - 1 := ?c]"
  have p: "push ?c (pos, b) = Some (pos - 1, ?b)" "drop (pos - 1) ?b = ?c # drop pos b"
    using push_ok[of pos b ?c] Suc.prems by simp_all
  have "unat (u div 16) < 16 ^ Suc k" using Suc.prems(1) by (simp add: unat_div)
  moreover have "Suc k \<le> pos - 1" "pos - 1 \<le> length ?b" using Suc.prems(2,3) by auto
  ultimately have "\<exists>pos' b' ds. hex_digits caps (u div 16) (pos - 1, ?b) = Some (pos', b') \<and> drop pos' b' = ds @ drop (pos - 1) ?b"
    by (rule Suc.IH)
  then obtain pos' b' ds where r: "hex_digits caps (u div 16) (pos - 1, ?b) = Some (pos', b')" "drop pos' b' = ds @ drop (pos - 1) ?b"
    by blast
  show ?case
  proof (cases "u div 16 = 0")
    case True
    thus ?thesis using p by (subst hex_digits.simps) (auto intro: exI[of _ "[_]"])
  next
    case False
    hence "hex_digits caps u (pos, b) = Some (pos', b')" using p(1) r(1) by (subst hex_digits.simps) simp
    moreover have "drop pos' b' = (ds @ [?c]) @ drop pos b" using r(2) p(2) by simp
    ultimately show ?thesis by blast
  qed
qed

lemma longlong_to_hexstring_ok:
  assumes "length nb = 32"
  shows "\<exists>s. longlong_to_hexstring nb u 32 f = Some s \<and> terminated s"
proof -
  have "unat u < 16 ^ Suc 15" using unsigned_less[of u, where ?'a = nat] by simp
  moreover have p: "push 0 (32, nb) = Some (31, nb[31 := 0])" "drop 31 (nb[31 := 0]) = [0]" using push_ok[of 32 nb 0] assms by simp_all
  ultimately obtain pos' b' ds where "hex_digits (CAPSFLAG f) u (31, nb[31 := 0]) = Some (pos', b')" "drop pos' b' = ds @ [0]"
    using hex_digits_ok[of u 15 31 "nb[31 := 0]" "CAPSFLAG f"] assms by auto
  thus ?thesis using p(1) by (simp add: longlong_to_hexstring_def terminated_def)
qed

text \<open>The arguments that a conversion character takes, and arguments that fit a format.\<close>

definition conv_args :: "u8 \<Rightarrow> va_arg list \<Rightarrow> va_arg list option" where
  "conv_args c ap =
     (if c \<in> {99, 105, 100, 117, 112, 88, 120} then (case ap of Num _ # ap \<Rightarrow> Some ap | _ \<Rightarrow> None)
      else if c = 115 then (case ap of Str None # ap \<Rightarrow> Some ap | Str (Some s) # ap \<Rightarrow> if terminated s then Some ap else None | _ \<Rightarrow> None)
      else if c = 110 then (case ap of Dest _ # ap \<Rightarrow> Some ap | _ \<Rightarrow> None)
      else Some ap)"

function args_fit :: "u8 list \<Rightarrow> va_arg list \<Rightarrow> bool" where
  "args_fit fmt ap =
     (case plain fmt of None \<Rightarrow> False
      | Some (n, c, rest) \<Rightarrow>
          c = 0 \<or>
          (case next_format no_flags 0 rest of None \<Rightarrow> False
           | Some (c, flags, num, rest) \<Rightarrow>
               c = 0 \<or> (case conv_args c ap of None \<Rightarrow> False | Some ap \<Rightarrow> args_fit rest ap)))"
  by pat_completeness auto
termination
  by (relation "measure (\<lambda>(fmt, ap). length fmt)") (auto dest!: plain_shorter next_format_shorter)

declare args_fit.simps [simp del]

lemma hex_format_good:
  assumes "small a0" "counted a0 st" "length nb = 32"
  shows "good a0 (hex_format vsnprintf_output nb f num x st)"
proof -
  obtain s where "longlong_to_hexstring nb (unsigned_arg f x) 32 f = Some s" "terminated s" using longlong_to_hexstring_ok[OF assms(3)] by blast
  thus ?thesis using assms unfolding hex_format_def by (auto intro!: good_intros output_string_good)
qed

lemma convert_good:
  assumes "small a0" "counted a0 st" "length nb = 32" "conv_args c ap = Some ap'"
  shows "\<exists>ns r. convert vsnprintf_output nb c f num ap st = Some (ap', ns, r) \<and> good a0 (Some r)"
proof -
  have g: "\<exists>r. x = Some r \<and> good a0 (Some r)" if "good a0 x" for x using that by (cases x) (auto simp: good_def)
  have n: "\<exists>x. ap = Num x # ap'" if "c \<in> {99, 105, 100, 117, 112, 88, 120}"
    using assms(4) that by (auto simp: conv_args_def split: list.splits va_arg.splits)
  note oc = g[OF OUTPUT_CHAR_good[OF assms(1,2)]]
  note os = g[OF output_string_good[OF assms(1,2)]]
  note hf = g[OF hex_format_good[OF assms(1-3)]]
  consider "c = 99" | "c = 105 \<or> c = 100" | "c = 117" | "c = 112" | "c = 88" | "c = 120" | "c = 115" | "c = 110" | "c = 37"
    | "c \<notin> {99, 105, 100, 117, 112, 88, 120, 115, 110, 37}" by blast
  thus ?thesis
  proof cases
    case 1
    thus ?thesis using n oc by (auto simp: convert_def) (metis bind.bind_lunit)
  next
    case 2
    then obtain x where x: "ap = Num x # ap'" using n by blast
    obtain s sc where l: "longlong_to_string nb (signed_arg f x) 32 (f\<lparr>SIGNEDFLAG := True\<rparr>) = Some (s, sc)" "terminated s"
      using longlong_to_string_ok[OF assms(3)] by (simp add: Let_def terminated_def)
    obtain r where "output_string vsnprintf_output (f\<lparr>SIGNEDFLAG := True\<rparr>) num sc s st = Some r" "good a0 (Some r)" using os[OF l(2)] by blast
    thus ?thesis using 2 x l(1) assms(3) by (auto simp: convert_def)
  next
    case 3
    then obtain x where x: "ap = Num x # ap'" using n by blast
    obtain s sc where l: "longlong_to_string nb (unsigned_arg f x) 32 f = Some (s, sc)" "terminated s"
      using longlong_to_string_ok[OF assms(3)] by (simp add: Let_def terminated_def)
    obtain r where "output_string vsnprintf_output f num sc s st = Some r" "good a0 (Some r)" using os[OF l(2)] by blast
    thus ?thesis using 3 x l(1) assms(3) by (simp add: convert_def)
  next
    case 4
    then obtain x where x: "ap = Num x # ap'" using n by blast
    obtain r where "hex_format vsnprintf_output nb (f\<lparr>LONGFLAG := True, ALTFLAG := True\<rparr>) num x st = Some r" "good a0 (Some r)" using hf by blast
    thus ?thesis using 4 x by (simp add: convert_def)
  next
    case 5
    then obtain x where x: "ap = Num x # ap'" using n by blast
    obtain r where "hex_format vsnprintf_output nb (f\<lparr>CAPSFLAG := True\<rparr>) num x st = Some r" "good a0 (Some r)" using hf by blast
    thus ?thesis using 5 x by (simp add: convert_def)
  next
    case 6
    then obtain x where x: "ap = Num x # ap'" using n by blast
    obtain r where "hex_format vsnprintf_output nb f num x st = Some r" "good a0 (Some r)" using hf by blast
    thus ?thesis using 6 x by (simp add: convert_def)
  next
    case 7
    then obtain s where s: "ap = Str s # ap'" "s = None \<or> (\<exists>t. s = Some t \<and> terminated t)"
      using assms(4) by (auto simp: conv_args_def split: list.splits va_arg.splits option.splits if_splits)
    let ?t = "case s of None \<Rightarrow> map of_char ''<null>'' @ [0] | Some s \<Rightarrow> s"
    have "terminated ?t" using s(2) by (auto simp: terminated_def)
    then obtain r where "output_string vsnprintf_output (f\<lparr>LEADZEROFLAG := False\<rparr>) num 0 ?t st = Some r" "good a0 (Some r)" using os by blast
    thus ?thesis using 7 s(1) by (simp add: convert_def Let_def)
  next
    case 8
    then obtain p where "ap = Dest p # ap'" using assms(4) by (auto simp: conv_args_def split: list.splits va_arg.splits)
    thus ?thesis using 8 good_skip[OF assms(2)] by (simp add: convert_def)
  next
    case 9
    moreover have "ap' = ap" using 9 assms(4) by (simp add: conv_args_def)
    moreover obtain r where "OUTPUT_CHAR vsnprintf_output 37 st = Some r" "good a0 (Some r)" using oc by blast
    ultimately show ?thesis by (simp add: convert_def)
  next
    case 10
    moreover have "ap' = ap" using 10 assms(4) by (simp add: conv_args_def)
    moreover have "good a0 (andthen (OUTPUT_CHAR vsnprintf_output 37 st) (\<lambda>_. OUTPUT_CHAR vsnprintf_output c))"
      by (intro good_intros assms)
    from g[OF this] obtain r where "andthen (OUTPUT_CHAR vsnprintf_output 37 st) (\<lambda>_. OUTPUT_CHAR vsnprintf_output c) = Some r" "good a0 (Some r)" by blast
    ultimately show ?thesis by (simp add: convert_def)
  qed
qed

lemma plain_readable: "plain fmt = Some (n, c, rest) \<Longrightarrow> readable n fmt"
proof -
  have "plain fmt = Some (n, c, rest) \<Longrightarrow> n \<le> length fmt" by (induction fmt arbitrary: n) (auto split: if_splits)
  thus "plain fmt = Some (n, c, rest) \<Longrightarrow> readable n fmt" by (simp add: readable_def)
qed

lemma engine_good:
  assumes "small a0" "length nb = 32" "counted a0 st" "args_fit fmt ap"
  shows "\<exists>ns r. engine vsnprintf_output nb fmt ap st = Some (ns, r) \<and> good a0 (Some r)"
  using assms(3,4)
proof (induction fmt ap arbitrary: st rule: args_fit.induct)
  case (1 fmt ap)
  obtain n c rest where p: "plain fmt = Some (n, c, rest)" using 1(3) by (subst (asm) args_fit.simps) (auto split: option.splits)
  have "good a0 (OUTPUT_STRING vsnprintf_output fmt n st)" by (rule OUTPUT_STRING_good[OF assms(1) 1(2) plain_readable[OF p]])
  then consider e a where "OUTPUT_STRING vsnprintf_output fmt n st = Some (Inl (e, a))" "good a0 (Some (Inl (e, a)))"
    | err st1 where "OUTPUT_STRING vsnprintf_output fmt n st = Some (Inr (err, st1))" "counted a0 st1"
    by (auto simp: good_def split: option.splits sum.splits)
  thus ?case
  proof cases
    case (1 e a)
    thus ?thesis using p by (subst engine.simps) simp
  next
    case (2 err st1)
    show ?thesis
    proof (cases "c = 0")
      case True
      thus ?thesis using p 2 by (subst engine.simps) (simp add: good_skip)
    next
      case False
      obtain c' f num rest' where q: "next_format no_flags 0 rest = Some (c', f, num, rest')"
        using 1(3) p False by (subst (asm) args_fit.simps) (auto split: option.splits)
      show ?thesis
      proof (cases "c' = 0")
        case True
        thus ?thesis using p q 2 False by (subst engine.simps) (simp add: good_skip)
      next
        case c': False
        obtain ap' where ap: "conv_args c' ap = Some ap'" "args_fit rest' ap'"
          using 1(3) p q False c' by (subst (asm) args_fit.simps) (auto split: option.splits)
        obtain ns r where r: "convert vsnprintf_output nb c' f num ap st1 = Some (ap', ns, r)" "good a0 (Some r)"
          using convert_good[OF assms(1) 2(2) assms(2) ap(1)] by blast
        show ?thesis
        proof (cases r)
          case (Inl e)
          thus ?thesis using p q 2 False c' r by (subst engine.simps) simp
        next
          case (Inr x)
          obtain err2 st2 where x: "x = (err2, st2)" by (cases x)
          have "counted a0 st2" using r(2) Inr x by (simp add: good_def)
          from 1(1)[OF p refl refl q refl refl refl ap(1) this ap(2)]
          show ?thesis using p q 2 False c' r Inr x by (subst engine.simps) auto
        qed
      qed
    qed
  qed
qed

section \<open>The text of a number\<close>

lemma digit_range: "k < 10 \<Longrightarrow> (of_nat k + 48 :: u8) \<in> {48..57}"
proof -
  assume k: "k < 10"
  hence "unat (of_nat k + 48 :: u8) = k + 48" by (simp add: unat_word_ariths unat_of_nat)
  thus ?thesis using k by (simp add: word_le_nat_alt)
qed

lemma dec_str_digits: "c \<in> set (dec_str n) \<Longrightarrow> c \<in> {48..57}"
proof (induction n rule: dec_str.induct)
  case (1 n)
  thus ?case using digit_range[of n] digit_range[of "n mod 10"] by (subst (asm) (2) dec_str.simps) (auto split: if_splits)
qed

lemma dec_str_not_Nil: "dec_str n \<noteq> []"
  by (subst dec_str.simps) simp

lemma dec_str_nonzero: "0 \<notin> set (dec_str n)"
  using dec_str_digits[of 0 n] by auto

definition ld_text :: "bool \<Rightarrow> u64 \<Rightarrow> u8 list" where
  "ld_text sg x = (if sint x < 0 then (if sg then [45] else []) @ dec_str (unat (- x)) else dec_str (unat x))"

lemma is_hex_dec: "is_hex (dec_str n @ 0 # z) = Some False"
proof -
  obtain c w where w: "dec_str n = c # w" using dec_str_not_Nil by (cases "dec_str n") auto
  have "w \<noteq> [] \<Longrightarrow> hd w \<in> {48..57}" using dec_str_digits[of "hd w" n] w by (cases w) auto
  thus ?thesis using w by (cases w) (auto simp: is_hex_def)
qed

lemma atol_ld_text: "atol (ld_text True x @ 0 # z) = Some (sint x)"
proof (cases "sint x < 0")
  case True
  thus ?thesis using dec_str_read[of "unat (- x)" z] by (simp add: ld_text_def atol_def is_hex_def)
next
  case False
  have "hd (dec_str (unat x) @ 0 # z) \<in> {48..57}" using dec_str_digits[of "hd (dec_str (unat x))" "unat x"] dec_str_not_Nil by simp
  hence "hd (dec_str (unat x) @ 0 # z) \<noteq> 45" by auto
  thus ?thesis using False dec_str_read[of "unat x" z] by (simp add: ld_text_def atol_def is_hex_dec)
qed

text \<open>With room left, a string is appended to what is stored.\<close>

definition holds :: "output_args \<Rightarrow> u8 list \<Rightarrow> u64 \<times> output_args \<Rightarrow> bool" where
  "holds a0 w = (\<lambda>(cw, a). same_buffer a0 a \<and> cw = of_nat (length w) \<and> oa_pos a = length w \<and> stored a = w)"

lemma OUTPUT_STRING_exact:
  assumes "small a0" "holds a0 w st" "readable len s" "take len (cstr s) = x" "length w + length x < oa_len a0"
  shows "\<exists>st'. OUTPUT_STRING vsnprintf_output s len st = Some (Inr (int (length x), st')) \<and> holds a0 (w @ x) st'"
proof -
  obtain cw a where st: "st = (cw, a)" by (cases st)
  have b: "same_buffer a0 a" "cw = of_nat (length w)" "oa_pos a = length w" "stored a = w" using assms(2) by (simp_all add: st holds_def)
  hence l: "oa_len a = oa_len a0" "oa_pos a \<le> oa_len a" "oa_len a \<le> length (oa_outstr a)"
    using assms(1) by (simp_all add: same_buffer_def small_def)
  obtain a' where a': "vsnprintf_loop len s a = Some (length x, a')" "same_buffer a a'" "stored a' = take (oa_len a) (stored a @ x)"
    using vsnprintf_loop_ok[OF l(2,3) assms(3) refl] unfolding assms(4) by blast
  have b': "same_buffer a0 a'" using b(1) a'(2) by (simp add: same_buffer_def)
  have s': "stored a' = w @ x" using a'(3) assms(5) l(1) b(4) by simp
  have "length (stored a') = oa_pos a'" using b' assms(1) by (simp add: stored_def same_buffer_def small_def)
  moreover have "length x < 2 ^ 31" using assms(1,5) by (simp add: small_def)
  ultimately show ?thesis using a'(1) b' s' b(2) sint_small[of "length x"]
    by (simp add: OUTPUT_STRING_def vsnprintf_output_def st holds_def flip: of_nat_add)
qed

lemma output_string_exact:
  assumes "small a0" "holds a0 w st" "0 \<notin> set x" "length w + length y + length x < oa_len a0"
    and "y = (if c = 0 \<or> LEFTFORMATFLAG f then [] else [c])" "\<not> LEADZEROFLAG f"
  shows "\<exists>err st'. output_string vsnprintf_output f 0 c (x @ [0]) st = Some (Inr (err, st')) \<and> holds a0 (w @ y @ x) st'"
proof -
  have rd: "readable SIZE_MAX (x @ [0])" by (simp add: readable_def terminated_def)
  have sm: "length x \<le> SIZE_MAX" using assms(1,4) by (simp add: SIZE_MAX_def small_def)
  hence tk: "take SIZE_MAX (cstr (x @ [0])) = x" using cstr_append[OF assms(3), of "[]"] by simp
  have len: "strlen (x @ [0]) = Some (length x)" using strlen_ok[of "x @ [0]"] cstr_append[OF assms(3), of "[]"] by (simp add: terminated_def)
  show ?thesis
  proof (cases "y = []")
    case True
    hence "c = 0 \<or> LEFTFORMATFLAG f" using assms(5) by (simp split: if_splits)
    thus ?thesis using OUTPUT_STRING_exact[OF assms(1,2) rd tk] assms(4,6) True len
      by (auto simp: output_string_def andthen_def)
  next
    case False
    hence c: "y = [c]" "c \<noteq> 0" "\<not> LEFTFORMATFLAG f" using assms(5) by (simp_all split: if_splits)
    obtain st1 where st1: "OUTPUT_CHAR vsnprintf_output c st = Some (Inr (1, st1))" "holds a0 (w @ [c]) st1"
      using OUTPUT_STRING_exact[OF assms(1,2), of 1 "[c]" "[c]"] assms(4) c by (auto simp: OUTPUT_CHAR_def readable_def)
    show ?thesis using OUTPUT_STRING_exact[OF assms(1) st1(2) rd tk] assms(4,6) c len st1(1)
      by (auto simp: output_string_def andthen_def)
  qed
qed

definition fmt_ld :: "bool \<Rightarrow> u8 list" where
  "fmt_ld left = (if left then [37, 45, 108, 100, 0] else [37, 108, 100, 0])"

lemma engine_ld:
  assumes "small a0" "holds a0 [] (0, a0)" "length nb = 32" "length (ld_text (\<not> left) x) < oa_len a0"
  shows "\<exists>a'. engine vsnprintf_output nb (fmt_ld left) [Num x] (0, a0) = Some ([], Inr (0, of_nat (length (ld_text (\<not> left) x)), a')) \<and>
    same_buffer a0 a' \<and> oa_pos a' = length (ld_text (\<not> left) x) \<and> stored a' = ld_text (\<not> left) x"
proof -
  let ?f = "no_flags\<lparr>LONGFLAG := True, LEFTFORMATFLAG := left\<rparr>"
  let ?fs = "?f\<lparr>SIGNEDFLAG := True\<rparr>"
  let ?t = "ld_text (\<not> left) x"
  let ?n = "if sint x < 0 then - x else x"
  let ?c = "if sint x < 0 then 45 else 0 :: u8"
  have empty: "\<exists>st'. OUTPUT_STRING vsnprintf_output s 0 st = Some (Inr (0, st')) \<and> holds a0 w st'" if "holds a0 w st" "length w < oa_len a0" for s st w
    using OUTPUT_STRING_exact[OF assms(1) that(1), of 0 s "[]"] that(2) by (simp add: readable_def)
  obtain st1 where st1: "OUTPUT_STRING vsnprintf_output (fmt_ld left) 0 (0, a0) = Some (Inr (0, st1))" "holds a0 [] st1"
    using empty[OF assms(2)] assms(4) by fastforce
  have ls: "longlong_to_string nb (signed_arg ?f x) (length nb) ?fs = Some (dec_str (unat ?n) @ [0], ?c)"
    using longlong_to_string_ok[OF assms(3), of x ?fs] by (simp add: assms(3) signed_arg_def no_flags_def Let_def)
  let ?y = "if ?c = 0 \<or> LEFTFORMATFLAG ?fs then [] else [?c]"
  have t: "?y @ dec_str (unat ?n) = ?t" by (simp add: ld_text_def)
  have "length ([] :: u8 list) + length ?y + length (dec_str (unat ?n)) < oa_len a0" using assms(4) unfolding t[symmetric] by simp
  from output_string_exact[OF assms(1) st1(2) dec_str_nonzero this refl] obtain err st2
    where st2: "output_string vsnprintf_output ?fs 0 ?c (dec_str (unat ?n) @ [0]) st1 = Some (Inr (err, st2))" "holds a0 ?t st2"
    unfolding t append_Nil by (auto simp: no_flags_def)
  obtain st3 where st3: "OUTPUT_STRING vsnprintf_output [0] 0 st2 = Some (Inr (0, st3))" "holds a0 ?t st3"
    using empty[OF st2(2) assms(4)] by blast
  have pl: "plain (fmt_ld left) = Some (0, 37, tl (fmt_ld left))" by (simp add: fmt_ld_def)
  have nf: "next_format no_flags 0 (tl (fmt_ld left)) = Some (100, ?f, 0, [0])" by (simp add: fmt_ld_def no_flags_def)
  have cv: "convert vsnprintf_output nb 100 ?f 0 [Num x] st1 = Some ([], [], Inr (err, st2))"
    using ls st2(1) by (simp add: convert_def)
  have "engine vsnprintf_output nb [0] [] st2 = Some ([], Inr (0, st3))" using st3(1) by (subst engine.simps) simp
  hence "engine vsnprintf_output nb (fmt_ld left) [Num x] (0, a0) = Some ([], Inr (0, st3))"
    using st1(1) pl nf cv by (subst engine.simps) simp
  thus ?thesis using st3(2) by (cases st3) (auto simp: holds_def)
qed

lemma vsnprintf_ld:
  assumes "length nb = 32" "22 \<le> len" "len \<le> length str" "len < 2 ^ 31"
  shows "\<exists>z. vsnprintf nb str len (fmt_ld left) [Num x] =
    Some (int (length (ld_text (\<not> left) x)), [], ld_text (\<not> left) x @ 0 # z)"
proof -
  let ?t = "ld_text (\<not> left) x"
  let ?a = "\<lparr>oa_outstr = str, oa_len = len, oa_pos = 0\<rparr>"
  have l: "length (dec_str (unat y)) \<le> 20" for y :: u64
    using dec_str_length[of "unat y" 19] unsigned_less[of y, where ?'a = nat] by simp
  have t: "length ?t < len" using l[of x] l[of "- x"] assms(2) by (simp add: ld_text_def)
  have a: "small ?a" "holds ?a [] (0, ?a)" using assms by (simp_all add: small_def holds_def same_buffer_def stored_def)
  obtain a' where a': "engine vsnprintf_output nb (fmt_ld left) [Num x] (0, ?a) = Some ([], Inr (0, of_nat (length ?t), a'))"
    "same_buffer ?a a'" "oa_pos a' = length ?t" "stored a' = ?t"
    using engine_ld[OF a assms(1), of left x] t by auto
  have w: "sint (ucast (of_nat (length ?t) :: u64) :: 32 word) = int (length ?t)"
  proof -
    have "(ucast (of_nat (length ?t) :: u64) :: 32 word) = of_nat (unat (of_nat (length ?t) :: u64))" by simp
    also have "\<dots> = of_nat (length ?t)" using t assms(4) by (simp add: unat_of_nat)
    finally show ?thesis using sint_small[of "length ?t"] t assms(4) by simp
  qed
  have o: "length ?t < length (oa_outstr a')" using a'(2) t assms(3) by (simp add: same_buffer_def)
  have "(oa_outstr a')[length ?t := 0] = ?t @ 0 # drop (Suc (length ?t)) (oa_outstr a')"
    using o a'(3,4) by (simp add: upd_conv_take_nth_drop stored_def)
  thus ?thesis using a'(1,3) w t o by (auto simp: vsnprintf_def printf_engine_def put_def)
qed

section \<open>Theorems\<close>

text \<open>
  C27: For a format with arguments that fit it, \<^verbatim>\<open>vsnprintf\<close> returns, never writes at or past \<^verbatim>\<open>len\<close>, and leaves a
  terminated string in the buffer, whatever flags and widths the format has and however long the text is.
\<close>

theorem vsnprintf_bounded:
  assumes "args_fit fmt ap" "0 < len" "len \<le> length str" "len < 2 ^ 31" "length nb = 32"
  shows "\<exists>wlen ns str'. vsnprintf nb str len fmt ap = Some (wlen, ns, str') \<and>
    length str' = length str \<and> drop len str' = drop len str \<and> terminated (take len str')"
proof -
  let ?a = "\<lparr>oa_outstr = str, oa_len = len, oa_pos = 0\<rparr>"
  have a: "small ?a" "counted ?a (0, ?a)" using assms by (simp_all add: small_def counted_def same_buffer_def)
  obtain ns r where r: "engine vsnprintf_output nb fmt ap (0, ?a) = Some (ns, r)" "good ?a (Some r)"
    using engine_good[OF a(1) assms(5) a(2) assms(1)] by blast
  then obtain wlen a' where w: "printf_engine vsnprintf_output nb ?a fmt ap = Some (wlen, ns, a')" "same_buffer ?a a'"
    "oa_pos a' < len \<Longrightarrow> wlen = int (oa_pos a')"
  proof (cases r)
    case (Inl e)
    thus ?thesis using r that[of "fst e" "snd e"] by (cases e) (auto simp: printf_engine_def good_def)
  next
    case (Inr x)
    obtain err cw b where x: "x = (err, cw, b)" by (cases x)
    have b: "same_buffer ?a b" "oa_pos b < len \<Longrightarrow> unat cw = oa_pos b" using r(2) Inr x by (simp_all add: good_def counted_def)
    have "sint (ucast cw :: 32 word) = int (oa_pos b)" if "oa_pos b < len"
    proof -
      have "(ucast cw :: 32 word) = of_nat (oa_pos b)" unfolding b(2)[OF that, symmetric] by simp
      thus ?thesis using sint_small[of "oa_pos b"] that assms(4) by simp
    qed
    thus ?thesis using r(1) Inr x b(1) that by (simp add: printf_engine_def)
  qed
  define i where "i = (if len \<le> oa_pos a' then len - 1 else oa_pos a')"
  have i: "i < len" "length (oa_outstr a') = length str" "drop len (oa_outstr a') = drop len str"
    using w(2) assms(2) by (simp_all add: i_def same_buffer_def)
  hence "vsnprintf nb str len fmt ap = Some (wlen, ns, (oa_outstr a')[i := 0])"
    using w(1,3) assms(2,3) by (cases "len \<le> oa_pos a'") (simp_all add: vsnprintf_def put_def i_def)
  moreover have "0 \<in> set (take len ((oa_outstr a')[i := 0]))"
    using i assms(3) by (simp add: take_update_swap set_update_memI)
  ultimately show ?thesis using i by (simp add: terminated_def)
qed

theorem vsnprintf_bounded_witness:
  "\<exists>wlen ns str'. vsnprintf (replicate 32 0) [7, 7, 7, 7, 9] 4 [65, 37, 53, 115, 37, 35, 120, 0] [Str (Some [66, 0]), Num 255] = Some (wlen, ns, str') \<and>
    length str' = 5 \<and> drop 4 str' = [9] \<and> terminated (take 4 str')"
proof -
  have "args_fit [65, 37, 53, 115, 37, 35, 120, 0] [Str (Some [66, 0]), Num 255]"
    by (simp add: args_fit.simps conv_args_def terminated_def)
  moreover have l: "length [7, 7, 7, 7, 9 :: u8] = 5" by simp
  ultimately show ?thesis
    using vsnprintf_bounded[of "[65, 37, 53, 115, 37, 35, 120, 0]" "[Str (Some [66, 0]), Num 255]" 4 "[7, 7, 7, 7, 9]" "replicate 32 0", unfolded l]
    by simp
qed

text \<open>
  C30: A number printed with \<^verbatim>\<open>%ld\<close> into a buffer with room for it is read back by \<^verbatim>\<open>atol\<close>, for every value of the
  type, the smallest included.
\<close>

theorem ld_round_trip:
  assumes "length nb = 32" "22 \<le> len" "len \<le> length str" "len < 2 ^ 31"
  shows "\<exists>wlen str'. vsnprintf nb str len (map of_char ''%ld'' @ [0]) [Num x] = Some (wlen, [], str') \<and> atol str' = Some (sint x)"
proof -
  have "map of_char ''%ld'' @ [0] = fmt_ld False" by (simp add: fmt_ld_def)
  thus ?thesis using vsnprintf_ld[OF assms, of False x] atol_ld_text[of x] by auto
qed

theorem ld_round_trip_witness:
  "\<exists>wlen str'. vsnprintf (replicate 32 0) (replicate 24 0) 24 (map of_char ''%ld'' @ [0]) [Num (- 9223372036854775808)] = Some (wlen, [], str') \<and>
    atol str' = Some (- 9223372036854775808)"
proof -
  have "sint (- 9223372036854775808 :: u64) = - 9223372036854775808" by simp
  thus ?thesis using ld_round_trip[of "replicate 32 0" 24 "replicate 24 0" "- 9223372036854775808"] by simp
qed

text \<open>
  With the \<^verbatim>\<open>-\<close> flag the sign is never written: a negative number printed with \<^verbatim>\<open>%-ld\<close> reads back as its negation.
\<close>

theorem left_format_drops_sign:
  assumes "length nb = 32" "22 \<le> len" "len \<le> length str" "len < 2 ^ 31" "sint x < 0"
  shows "\<exists>wlen str'. vsnprintf nb str len (map of_char ''%-ld'' @ [0]) [Num x] = Some (wlen, [], str') \<and> atol str' = Some (sint (- x))"
proof -
  have f: "map of_char ''%-ld'' @ [0] = fmt_ld True" by (simp add: fmt_ld_def)
  obtain z where z: "vsnprintf nb str len (fmt_ld True) [Num x] = Some (int (length (ld_text False x)), [], ld_text False x @ 0 # z)"
    using vsnprintf_ld[OF assms(1-4), of True x] by auto
  let ?d = "dec_str (unat (- x))"
  have "hd (?d @ 0 # z) \<in> {48..57}" using dec_str_digits[of "hd ?d" "unat (- x)"] dec_str_not_Nil by simp
  hence "hd (?d @ 0 # z) \<noteq> 45" by auto
  hence "atol (?d @ 0 # z) = Some (sint (- x))" using dec_str_read[of "unat (- x)" z] by (simp add: atol_def is_hex_dec)
  thus ?thesis using z assms(5) unfolding f by (simp add: ld_text_def)
qed

theorem left_format_drops_sign_witness:
  "\<exists>wlen str'. vsnprintf (replicate 32 0) (replicate 24 0) 24 (map of_char ''%-ld'' @ [0]) [Num (- 5)] = Some (wlen, [], str') \<and> atol str' = Some 5"
  using left_format_drops_sign[of "replicate 32 0" 24 "replicate 24 0" "- 5"] by simp

end
