(* ===== verification/LK_Path.thy ===== *)
theory LK_Path
  imports LK_Libc
begin

text \<open>
  The normalisation of paths of the file system layer (\<^verbatim>\<open>fs_normalize_path\<close> of \<^verbatim>\<open>lib/fs/fs.c\<close>), a state machine that rewrites
  the path in place, and the proof that it computes a normal form given by the fields of the path.
  \<open>None\<close> is an access outside of the path.
\<close>

section \<open>The code\<close>

datatype npstate = INITIAL | FIELD_START | IN_FIELD | SEP | SEEN_SEP | DOT | SEEN_DOT | DOTDOT | SEEN_DOTDOT

text \<open>The loop that walks backwards to the boundary of a field.\<close>

fun walk_back :: "u8 list \<Rightarrow> nat \<Rightarrow> nat" where
  "walk_back path 0 = 0"
| "walk_back path (Suc outpos) = (if path ! outpos = 47 then Suc outpos else walk_back path outpos)"

text \<open>A store to the path; \<open>None\<close> outside of it.\<close>

definition emit :: "u8 list \<Rightarrow> nat \<Rightarrow> u8 \<Rightarrow> u8 list option" where
  "emit path outpos c = (if outpos < length path then Some (path[outpos := c]) else None)"

text \<open>One pass of the loop: the next state, the path, both positions and whether it is done.\<close>

definition norm_step :: "npstate \<Rightarrow> u8 list \<Rightarrow> nat \<Rightarrow> nat \<Rightarrow> (npstate \<times> u8 list \<times> nat \<times> nat \<times> bool) option" where
  "norm_step state path pos outpos = do {
     c \<leftarrow> (if pos < length path then Some (path ! pos) else None);
     (case state of
        INITIAL \<Rightarrow> Some (if c = 47 then SEP else if c = 46 then DOT else FIELD_START, path, pos, outpos, False)
      | FIELD_START \<Rightarrow>
          if c = 46 then Some (DOT, path, pos, outpos, False)
          else if c = 0 then Some (FIELD_START, path, pos, outpos, True)
          else Some (IN_FIELD, path, pos, outpos, False)
      | IN_FIELD \<Rightarrow>
          if c = 47 then Some (SEP, path, pos, outpos, False)
          else if c = 0 then Some (IN_FIELD, path, pos, outpos, True)
          else do { path \<leftarrow> emit path outpos c; Some (IN_FIELD, path, pos + 1, outpos + 1, False) }
      | SEP \<Rightarrow> do { path \<leftarrow> emit path outpos 47; Some (SEEN_SEP, path, pos + 1, outpos + 1, False) }
      | SEEN_SEP \<Rightarrow>
          if c = 47 then Some (SEEN_SEP, path, pos + 1, outpos, False)
          else if c = 0 then Some (SEEN_SEP, path, pos, outpos, True)
          else Some (FIELD_START, path, pos, outpos, False)
      | DOT \<Rightarrow> Some (SEEN_DOT, path, pos + 1, outpos, False)
      | SEEN_DOT \<Rightarrow>
          if c = 46 then Some (DOTDOT, path, pos, outpos, False)
          else if c = 47 then Some (SEEN_SEP, path, pos + 1, outpos, False)
          else if c = 0 then Some (SEEN_DOT, path, pos, outpos, True)
          else do { path \<leftarrow> emit path outpos 46; Some (IN_FIELD, path, pos, outpos + 1, False) }
      | DOTDOT \<Rightarrow> Some (SEEN_DOTDOT, path, pos + 1, outpos, False)
      | SEEN_DOTDOT \<Rightarrow>
          if c = 47 \<or> c = 0
          then Some (SEEN_SEP, path, pos + 1, if 0 < outpos then walk_back path (outpos - 1) else outpos, c = 0)
          else do {
            path \<leftarrow> emit path outpos 46;
            path \<leftarrow> emit path (outpos + 1) 46;
            Some (IN_FIELD, path, pos, outpos + 2, False)
          })
   }"

text \<open>How often the state can still change before the position advances.\<close>

fun rank :: "npstate \<Rightarrow> nat" where
  "rank SEP = 0"
| "rank DOT = 0"
| "rank DOTDOT = 0"
| "rank IN_FIELD = 1"
| "rank FIELD_START = 2"
| "rank SEEN_DOT = 2"
| "rank SEEN_DOTDOT = 2"
| "rank SEEN_SEP = 3"
| "rank INITIAL = 3"

lemma emit_length: "emit p i c = Some p' \<Longrightarrow> length p' = length p"
  by (auto simp: emit_def split: if_splits)

lemma norm_step_progress:
  assumes "norm_step state path pos outpos = Some (state', path', pos', outpos', False)"
  shows "length path' = length path" "pos < length path" "pos < pos' \<or> pos' = pos \<and> rank state' < rank state"
proof -
  show "pos < length path" using assms by (auto simp: norm_step_def split: if_splits)
  show "length path' = length path" using assms
    by (cases state) (auto simp: norm_step_def bind_Some_iff split: if_splits dest!: emit_length)
  show "pos < pos' \<or> pos' = pos \<and> rank state' < rank state" using assms
    by (cases state) (auto simp: norm_step_def bind_Some_iff split: if_splits)
qed

function norm_loop :: "npstate \<Rightarrow> u8 list \<Rightarrow> nat \<Rightarrow> nat \<Rightarrow> (u8 list \<times> nat) option" where
  "norm_loop state path pos outpos =
     (case norm_step state path pos outpos of
        None \<Rightarrow> None
      | Some (state, path, pos, outpos, done) \<Rightarrow> if done then Some (path, outpos) else norm_loop state path pos outpos)"
  by pat_completeness auto
termination
proof (relation "measures [\<lambda>(state, path, pos, outpos). length path - pos, \<lambda>(state, path, pos, outpos). rank state]", simp, goal_cases)
  case (1 state path pos outpos x state' y path' z pos' w outpos' d)
  thus ?case using norm_step_progress[of state path pos outpos state' path' pos' outpos'] by auto
qed

declare norm_loop.simps [simp del]

lemma norm_loop_step:
  "norm_step state path pos outpos = Some (state', path', pos', outpos', False) \<Longrightarrow>
     norm_loop state path pos outpos = norm_loop state' path' pos' outpos'"
  "norm_step state path pos outpos = Some (state', path', pos', outpos', True) \<Longrightarrow>
     norm_loop state path pos outpos = Some (path', outpos')"
  by (subst norm_loop.simps; simp)+

definition fs_normalize_path :: "u8 list \<Rightarrow> u8 list option" where
  "fs_normalize_path path = do {
     (path, outpos) \<leftarrow> norm_loop INITIAL path 0 0;
     let outpos = (if 0 < outpos \<and> path ! (outpos - 1) = 47 then outpos - 1 else outpos);
     emit path outpos 0
   }"

section \<open>Correctness of the normalisation\<close>

text \<open>The fields of a path, and the fields that remain. The empty field in front of a leading slash counts as one.\<close>

fun path_fields :: "u8 list \<Rightarrow> u8 list list" where
  "path_fields [] = [[]]"
| "path_fields (c # p) = (if c = 47 then [] # path_fields p else (c # hd (path_fields p)) # tl (path_fields p))"

definition enter :: "u8 list list \<Rightarrow> u8 list \<Rightarrow> u8 list list" where
  "enter st f = (if f = [] \<or> f = [46] then st else if f = [46, 46] then butlast st else st @ [f])"

definition normal :: "u8 list \<Rightarrow> u8 list list" where
  "normal p = (if p \<noteq> [] \<and> hd p = 47 then foldl enter [[]] (path_fields (tl p)) else foldl enter [] (path_fields p))"

definition slashed :: "u8 list list \<Rightarrow> u8 list" where
  "slashed st = concat (map (\<lambda>f. f @ [47]) st)"

definition path_of :: "u8 list list \<Rightarrow> u8 list" where
  "path_of st = butlast (slashed st)"

text \<open>What has been written and what is still to be read.\<close>

definition at_point :: "nat \<Rightarrow> u8 list \<Rightarrow> nat \<Rightarrow> nat \<Rightarrow> u8 list \<Rightarrow> u8 list \<Rightarrow> bool" where
  "at_point n path pos outpos out rest \<longleftrightarrow>
     length path = n \<and> outpos \<le> pos \<and> pos \<le> n \<and> outpos = length out \<and> take outpos path = out \<and> drop pos path = rest"

lemma at_point_char: "at_point n path pos outpos out (c # rest) \<Longrightarrow> pos < length path \<and> path ! pos = c"
  by (metis at_point_def drop_eq_Nil hd_drop_conv_nth leI list.distinct(1) list.sel(1))

lemma at_point_next: "at_point n path pos outpos out (c # rest) \<Longrightarrow> at_point n path (pos + 1) outpos out rest"
  using at_point_char[of n path pos outpos out c rest] by (auto simp: at_point_def drop_Suc) (metis drop_Suc tl_drop list.sel(3))

lemma at_point_emit:
  assumes "at_point n path pos outpos out rest" "outpos < pos"
  shows "emit path outpos c = Some (path[outpos := c])" "at_point n (path[outpos := c]) pos (outpos + 1) (out @ [c]) rest"
  using assms by (auto simp: at_point_def emit_def take_Suc_conv_app_nth)

text \<open>
  What a state leads to when the field it is in ends with the character \<open>c\<close>: back to the state after a slash,
  or to the end of the loop.
\<close>

definition leads :: "nat \<Rightarrow> (u8 list \<times> nat) option \<Rightarrow> u8 \<Rightarrow> u8 list \<Rightarrow> u8 list \<Rightarrow> u8 list \<Rightarrow> bool" where
  "leads n x c rest out out0 \<longleftrightarrow>
     (if c = 0 then \<exists>path outpos. x = Some (path, outpos) \<and> length path = n \<and> outpos < n \<and> take outpos path = out0
      else \<exists>path pos outpos. x = norm_loop SEEN_SEP path pos outpos \<and> at_point n path pos outpos out rest)"

lemma at_point_end: "at_point n path pos outpos out (c # rest) \<Longrightarrow> length path = n \<and> outpos < n \<and> take outpos path = out"
  using at_point_char[of n path pos outpos out c rest] by (auto simp: at_point_def)

lemma leads_in_field:
  assumes "at_point n path pos outpos out (f @ c # rest)" "c = 0 \<or> c = 47" "0 \<notin> set f" "47 \<notin> set f"
  shows "leads n (norm_loop IN_FIELD path pos outpos) c rest (out @ f @ [47]) (out @ f)"
  using assms(1,3,4)
proof (induction f arbitrary: path pos outpos out)
  case Nil
  note a = Nil(1)[simplified]
  show ?case
  proof (cases "c = 0")
    case True
    thus ?thesis using at_point_char[OF a] at_point_end[OF a] by (subst norm_loop.simps) (simp add: norm_step_def leads_def)
  next
    case False
    hence c: "c = 47" using assms(2) by simp
    let ?p = "path[outpos := 47]"
    have "outpos < pos + 1" using a by (simp add: at_point_def)
    note e = at_point_emit[OF at_point_next[OF a] this, of 47]
    have "norm_loop IN_FIELD path pos outpos = norm_loop SEEN_SEP ?p (pos + 1) (outpos + 1)"
      using at_point_char[OF a] c e(1) norm_loop_step(1)[of IN_FIELD path pos outpos] norm_loop_step(1)[of SEP path pos outpos]
      by (simp add: norm_step_def)
    thus ?thesis using e(2) c by (auto simp: leads_def)
  qed
next
  case (Cons x f)
  note a = Cons.prems(1)[simplified]
  let ?p = "path[outpos := x]"
  have "outpos < pos + 1" using a by (simp add: at_point_def)
  note e = at_point_emit[OF at_point_next[OF a] this, of x]
  have "norm_loop IN_FIELD path pos outpos = norm_loop IN_FIELD ?p (pos + 1) (outpos + 1)"
    using at_point_char[OF a] Cons.prems e(1) by (subst norm_loop.simps) (simp add: norm_step_def)
  thus ?case using Cons.IH[OF e(2)] Cons.prems by simp
qed

lemma walk_back_ok:
  assumes "take k path = w @ f" "47 \<notin> set f" "w = [] \<or> last w = 47" "k \<le> length path"
  shows "walk_back path k = length w"
  using assms(1,2,4)
proof (induction f arbitrary: k rule: rev_induct)
  case Nil
  hence k: "k = length w" by (metis append_Nil2 length_take min.absorb2)
  show ?case
  proof (cases k)
    case (Suc j)
    hence "last w = path ! j" using Nil k by (metis append_Nil2 last_snoc less_eq_Suc_le take_Suc_conv_app_nth)
    thus ?thesis using Suc k assms(3) by auto
  qed (use k in simp)
next
  case (snoc x f)
  then obtain j where j: "k = Suc j" by (cases k) auto
  hence "take j path @ [path ! j] = w @ f @ [x]" using snoc.prems by (simp add: take_Suc_conv_app_nth)
  hence "take j path = w @ f" "path ! j = x" by (metis append_assoc butlast_snoc, metis append_assoc last_snoc)
  thus ?case using snoc.IH[of j] snoc.prems j by auto
qed

lemma slashed_snoc [simp]: "slashed (st @ [f]) = slashed st @ f @ [47]" "slashed [] = []"
  by (simp_all add: slashed_def)

lemma slashed_last: "slashed st = [] \<or> last (slashed st) = 47"
  by (cases st rule: rev_cases) simp_all

definition strip :: "u8 list \<Rightarrow> u8 list" where
  "strip out = (if out \<noteq> [] \<and> last out = 47 then butlast out else out)"

lemma strip_slashed: "strip (slashed st) = path_of st"
  using slashed_last[of st] by (auto simp: strip_def path_of_def)

lemma strip_field: "f \<noteq> [] \<Longrightarrow> 47 \<notin> set f \<Longrightarrow> strip (slashed st @ f) = path_of (st @ [f])"
  by (metis append.assoc append_is_Nil_conv butlast_snoc last_appendR last_in_set path_of_def slashed_snoc(1) strip_def)

text \<open>What is left after a field \<^verbatim>\<open>..\<close>\<close>

lemma back_ok:
  assumes "at_point n path pos outpos (slashed st) rest" "\<forall>g\<in>set st. 47 \<notin> set g"
  shows "at_point n path pos (if 0 < outpos then walk_back path (outpos - 1) else outpos) (slashed (butlast st)) rest"
proof (cases st rule: rev_cases)
  case Nil
  thus ?thesis using assms(1) by (simp add: at_point_def)
next
  case (snoc st' f)
  let ?w = "slashed st'"
  have a: "outpos = length ?w + length f + 1" "take outpos path = ?w @ f @ [47]" "outpos \<le> pos" "pos \<le> length path" "length path = n" "drop pos path = rest"
    using assms(1) snoc by (auto simp: at_point_def)
  have "take (outpos - 1) path = ?w @ f" using a by (metis append_assoc butlast_snoc butlast_take le_trans)
  hence "walk_back path (outpos - 1) = length ?w"
    using slashed_last[of st'] assms(2) snoc a by (intro walk_back_ok[where f = f]) auto
  moreover have "take (length ?w) path = ?w"
  proof -
    have "take (length ?w) (take outpos path) = ?w" unfolding a(2) by simp
    thus ?thesis using a(1) by simp
  qed
  ultimately show ?thesis using a snoc by (simp add: at_point_def)
qed

definition field_done :: "nat \<Rightarrow> (u8 list \<times> nat) option \<Rightarrow> u8 \<Rightarrow> u8 list \<Rightarrow> u8 list list \<Rightarrow> bool" where
  "field_done n x c rest st \<longleftrightarrow> (\<exists>out0. leads n x c rest (slashed st) out0 \<and> strip out0 = path_of st)"

lemma field_done_emitted:
  assumes "at_point n path pos outpos (slashed st @ e) (g @ c # rest)" "c = 0 \<or> c = 47" "0 \<notin> set g" "47 \<notin> set (e @ g)" "e @ g \<noteq> []"
  shows "field_done n (norm_loop IN_FIELD path pos outpos) c rest (st @ [e @ g])"
  using leads_in_field[OF assms(1,2,3)] assms(4,5) strip_field[of "e @ g" st] by (auto simp: field_done_def)

lemma leads_sep: "at_point n path pos outpos out rest \<Longrightarrow> leads n (norm_loop SEEN_SEP path pos outpos) 47 rest out out0"
  unfolding leads_def by auto

lemma field_done_sep: "at_point n path pos outpos (slashed st) rest \<Longrightarrow> field_done n (norm_loop SEEN_SEP path pos outpos) 47 rest st"
  using leads_sep strip_slashed unfolding field_done_def by blast

lemma field_done_end: "at_point n path pos outpos (slashed st) (c # rest) \<Longrightarrow> field_done n (Some (path, outpos)) 0 rest st"
  using at_point_end[of n path pos outpos "slashed st" c rest] strip_slashed unfolding field_done_def leads_def by auto

lemma dot_end:
  assumes a: "at_point n path pos outpos (slashed st) (c # rest)" and c: "c = 0 \<or> c = 47"
  shows "field_done n (norm_loop SEEN_DOT path pos outpos) c rest st"
  using c
proof
  assume "c = 0"
  moreover from this have "norm_loop SEEN_DOT path pos outpos = Some (path, outpos)"
    using at_point_char[OF a] by (intro norm_loop_step(2)[where state' = SEEN_DOT]) (simp add: norm_step_def)
  ultimately show ?thesis using field_done_end[OF a] by simp
next
  assume "c = 47"
  moreover from this have "norm_loop SEEN_DOT path pos outpos = norm_loop SEEN_SEP path (pos + 1) outpos"
    using at_point_char[OF a] by (intro norm_loop_step(1)) (simp add: norm_step_def)
  ultimately show ?thesis using field_done_sep[OF at_point_next[OF a]] by simp
qed

lemma dotdot_end:
  assumes a: "at_point n path pos outpos (slashed st) (c # rest)" and c: "c = 0 \<or> c = 47" and st: "\<forall>f\<in>set st. 47 \<notin> set f"
  shows "field_done n (norm_loop SEEN_DOTDOT path pos outpos) c rest (butlast st)"
proof -
  let ?o = "if 0 < outpos then walk_back path (outpos - 1) else outpos"
  note b = back_ok[OF a st] back_ok[OF at_point_next[OF a] st]
  show ?thesis using c
  proof
    assume "c = 0"
    moreover from this have "norm_loop SEEN_DOTDOT path pos outpos = Some (path, ?o)"
      using at_point_char[OF a] by (intro norm_loop_step(2)[where state' = SEEN_SEP]) (simp add: norm_step_def)
    ultimately show ?thesis using field_done_end[OF b(1)] by simp
  next
    assume "c = 47"
    moreover from this have "norm_loop SEEN_DOTDOT path pos outpos = norm_loop SEEN_SEP path (pos + 1) ?o"
      using at_point_char[OF a] by (intro norm_loop_step(1)) (simp add: norm_step_def)
    ultimately show ?thesis using field_done_sep[OF b(2)] by simp
  qed
qed

lemma field_dot:
  assumes a: "at_point n path pos outpos (slashed st) (46 # g @ c # rest)" and c: "c = 0 \<or> c = 47" and g: "0 \<notin> set g" "47 \<notin> set g"
    and st: "\<forall>f\<in>set st. 47 \<notin> set f"
  shows "field_done n (norm_loop DOT path pos outpos) c rest (enter st (46 # g))"
proof -
  note a1 = at_point_next[OF a]
  have d: "norm_loop DOT path pos outpos = norm_loop SEEN_DOT path (pos + 1) outpos"
    by (rule norm_loop_step(1)) (use at_point_char[OF a] in \<open>simp add: norm_step_def\<close>)
  have op: "outpos < pos + 1" "outpos < pos + 1 + 1" "outpos + 1 < pos + 1 + 1" using a by (simp_all add: at_point_def)
  have dd: "norm_loop SEEN_DOT path (pos + 1) outpos = norm_loop SEEN_DOTDOT path (pos + 1 + 1) outpos" if "g = 46 # h" for h
    using at_point_char[OF a1[unfolded that append_Cons]] norm_loop_step(1)[of SEEN_DOT path "pos + 1" outpos]
      norm_loop_step(1)[of DOTDOT path "pos + 1" outpos] by (simp add: norm_step_def)
  consider "g = []" | y h where "g = y # h" "y \<noteq> 46" | "g = [46]" | y h where "g = 46 # y # h"
    by (cases g; cases "tl g") auto
  thus ?thesis
  proof cases
    case 1
    thus ?thesis using dot_end[OF a1[unfolded 1 append_Nil] c] d by (simp add: enter_def)
  next
    case (2 y h)
    note e = at_point_emit[OF a1 op(1), of 46]
    have "norm_loop SEEN_DOT path (pos + 1) outpos = norm_loop IN_FIELD (path[outpos := 46]) (pos + 1) (outpos + 1)"
      using at_point_char[OF a1[unfolded 2 append_Cons]] 2 g e(1) by (intro norm_loop_step(1)) (auto simp: norm_step_def)
    thus ?thesis using field_done_emitted[OF e(2) c g(1)] d g 2 by (simp add: enter_def)
  next
    case 3
    thus ?thesis using dotdot_end[OF at_point_next[OF a1[unfolded 3 append_Cons append_Nil]] c st] d dd by (simp add: enter_def)
  next
    case (4 y h)
    note a2 = at_point_next[OF a1[unfolded 4 append_Cons]]
    note e = at_point_emit[OF a2 op(2), of 46]
    note e2 = at_point_emit[OF e(2) op(3), of 46]
    have "norm_loop SEEN_DOTDOT path (pos + 1 + 1) outpos = norm_loop IN_FIELD (path[outpos := 46, outpos + 1 := 46]) (pos + 1 + 1) (outpos + 2)"
      using at_point_char[OF a2] 4 g e(1) e2(1) by (intro norm_loop_step(1)) (auto simp: norm_step_def)
    thus ?thesis using field_done_emitted[of n _ _ _ st "[46, 46]" "y # h" c rest] e2(2) c d dd g 4 by (simp add: enter_def)
  qed
qed

lemma field_start:
  assumes a: "at_point n path pos outpos (slashed st) (f @ c # rest)" and c: "c = 0 \<or> c = 47" and f: "0 \<notin> set f" "47 \<notin> set f" "f \<noteq> []"
    and st: "\<forall>f\<in>set st. 47 \<notin> set f"
  shows "field_done n (norm_loop FIELD_START path pos outpos) c rest (enter st f)"
proof -
  obtain x g where x: "f = x # g" using f(3) by (cases f) auto
  note ch = at_point_char[OF a[unfolded x append_Cons]]
  show ?thesis
  proof (cases "x = 46")
    case True
    have "norm_loop FIELD_START path pos outpos = norm_loop DOT path pos outpos"
      by (rule norm_loop_step(1)) (use ch True in \<open>simp add: norm_step_def\<close>)
    thus ?thesis using field_dot[of n path pos outpos st g c rest] a c f st x True by simp
  next
    case False
    have "norm_loop FIELD_START path pos outpos = norm_loop IN_FIELD path pos outpos"
      by (rule norm_loop_step(1)) (use ch False x f in \<open>auto simp: norm_step_def\<close>)
    thus ?thesis using field_done_emitted[of n path pos outpos st "[]" f c rest] a c f x False by (simp add: enter_def)
  qed
qed

lemma field_sep:
  assumes a: "at_point n path pos outpos (slashed st) (f @ c # rest)" and c: "c = 0 \<or> c = 47" and f: "0 \<notin> set f" "47 \<notin> set f"
    and st: "\<forall>f\<in>set st. 47 \<notin> set f"
  shows "field_done n (norm_loop SEEN_SEP path pos outpos) c rest (enter st f)"
proof (cases f)
  case Nil
  note a' = a[unfolded Nil append_Nil]
  show ?thesis using c
  proof
    assume "c = 0"
    moreover from this have "norm_loop SEEN_SEP path pos outpos = Some (path, outpos)"
      using at_point_char[OF a'] by (intro norm_loop_step(2)[where state' = SEEN_SEP]) (simp add: norm_step_def)
    ultimately show ?thesis using field_done_end[OF a'] Nil by (simp add: enter_def)
  next
    assume "c = 47"
    moreover from this have "norm_loop SEEN_SEP path pos outpos = norm_loop SEEN_SEP path (pos + 1) outpos"
      using at_point_char[OF a'] by (intro norm_loop_step(1)) (simp add: norm_step_def)
    ultimately show ?thesis using field_done_sep[OF at_point_next[OF a']] Nil by (simp add: enter_def)
  qed
next
  case (Cons x g)
  have "norm_loop SEEN_SEP path pos outpos = norm_loop FIELD_START path pos outpos"
    by (rule norm_loop_step(1)) (use at_point_char[OF a[unfolded Cons append_Cons]] Cons f in \<open>auto simp: norm_step_def\<close>)
  thus ?thesis using field_start[OF a c f _ st] Cons by simp
qed

lemma fields_plain: "47 \<notin> set f \<Longrightarrow> path_fields f = [f]"
  by (induction f) auto

lemma fields_split: "47 \<notin> set f \<Longrightarrow> path_fields (f @ 47 # r) = f # path_fields r"
  by (induction f) auto

lemma first_field: "47 \<notin> set p \<or> (\<exists>f r. p = f @ 47 # r \<and> 47 \<notin> set f)"
  using split_list_first[of 47 p] by blast

lemma enter_fields: "\<forall>g\<in>set st. P g \<Longrightarrow> P f \<Longrightarrow> \<forall>g\<in>set (enter st f). P g"
  by (auto simp: enter_def dest: in_set_butlastD)

lemma foldl_enter_fields: "\<forall>g\<in>set st. P g \<Longrightarrow> \<forall>f\<in>set fs. P f \<Longrightarrow> \<forall>g\<in>set (foldl enter st fs). P g"
proof (induction fs arbitrary: st)
  case (Cons f fs)
  have "\<forall>g\<in>set (enter st f). P g" by (rule enter_fields) (use Cons.prems in auto)
  from Cons.IH[OF this] Cons.prems(2) show ?case by simp
qed simp

definition ends_as :: "nat \<Rightarrow> (u8 list \<times> nat) option \<Rightarrow> u8 list list \<Rightarrow> bool" where
  "ends_as n x st \<longleftrightarrow> (\<exists>path outpos. x = Some (path, outpos) \<and> length path = n \<and> outpos < n \<and> strip (take outpos path) = path_of st)"

lemma field_done_last: "field_done n x 0 rest st \<Longrightarrow> ends_as n x st"
  unfolding field_done_def leads_def ends_as_def if_P[OF refl] by (elim exE conjE) blast

lemma norm_from_sep:
  assumes "at_point n path pos outpos (slashed st) (p @ 0 # z)" "0 \<notin> set p" "\<forall>f\<in>set st. 47 \<notin> set f"
  shows "ends_as n (norm_loop SEEN_SEP path pos outpos) (foldl enter st (path_fields p))"
  using assms
proof (induction p arbitrary: path pos outpos st rule: length_induct)
  case (1 p)
  from first_field[of p] show ?case
  proof (elim disjE exE conjE)
    assume "47 \<notin> set p"
    thus ?thesis using field_done_last[OF field_sep[OF 1(2) _ 1(3) _ 1(4)]] fields_plain by simp
  next
    fix f r assume p: "p = f @ 47 # r" and f: "47 \<notin> set f"
    have "field_done n (norm_loop SEEN_SEP path pos outpos) 47 (r @ 0 # z) (enter st f)"
      using field_sep[of n path pos outpos st f 47 "r @ 0 # z"] 1(2-4) p f by simp
    then obtain path' pos' outpos' where l: "norm_loop SEEN_SEP path pos outpos = norm_loop SEEN_SEP path' pos' outpos'"
      "at_point n path' pos' outpos' (slashed (enter st f)) (r @ 0 # z)" by (auto simp: field_done_def leads_def)
    have "length r < length p" "0 \<notin> set r" using p 1(3) by auto
    thus ?thesis using 1(1)[rule_format, OF _ l(2)] l(1) enter_fields[of st "\<lambda>f. 47 \<notin> set f" f] 1(4) f p fields_split[OF f] by simp
  qed
qed

lemma initial_field:
  assumes a: "at_point n path 0 0 [] (f @ c # r)" and c: "c = 0 \<or> c = 47" and f: "0 \<notin> set f" "47 \<notin> set f" "f = [] \<longrightarrow> c = 0"
  shows "field_done n (norm_loop INITIAL path 0 0) c r (enter [] f)"
proof (cases f)
  case Nil
  note ch = at_point_char[OF a[unfolded Nil append_Nil]]
  hence "norm_loop INITIAL path 0 0 = norm_loop FIELD_START path 0 0" "norm_loop FIELD_START path 0 0 = Some (path, 0)"
    using f Nil norm_loop_step(1)[of INITIAL path 0 0] norm_loop_step(2)[of FIELD_START path 0 0] by (simp_all add: norm_step_def)
  thus ?thesis using field_done_end[of n path 0 0 "[]" 0 r] a f Nil by (simp add: enter_def)
next
  case (Cons x g)
  note ch = at_point_char[OF a[unfolded Cons append_Cons]]
  show ?thesis
  proof (cases "x = 46")
    case True
    hence "norm_loop INITIAL path 0 0 = norm_loop DOT path 0 0"
      using ch norm_loop_step(1)[of INITIAL path 0 0] by (simp add: norm_step_def)
    thus ?thesis using field_dot[of n path 0 0 "[]" g c r] a c f Cons True by simp
  next
    case False
    hence "norm_loop INITIAL path 0 0 = norm_loop FIELD_START path 0 0"
      using ch f Cons norm_loop_step(1)[of INITIAL path 0 0] by (auto simp: norm_step_def)
    thus ?thesis using field_start[of n path 0 0 "[]" f c r] a c f Cons by simp
  qed
qed

lemma norm_from_initial:
  assumes a: "at_point n path 0 0 [] (p @ 0 # z)" and p: "0 \<notin> set p"
  shows "ends_as n (norm_loop INITIAL path 0 0) (normal p)"
proof (cases "p \<noteq> [] \<and> hd p = 47")
  case True
  then obtain q where q: "p = 47 # q" by (cases p) auto
  note a1 = at_point_next[OF a[unfolded q append_Cons]]
  note e = at_point_emit[OF a1, of 47, simplified]
  have "norm_loop INITIAL path 0 0 = norm_loop SEEN_SEP (path[0 := 47]) 1 1"
    using at_point_char[OF a[unfolded q append_Cons]] e(1) norm_loop_step(1)[of INITIAL path 0 0] norm_loop_step(1)[of SEP path 0 0]
    by (simp add: norm_step_def)
  thus ?thesis using norm_from_sep[of n _ _ _ "[[]]" q z] e(2) q p by (simp add: normal_def slashed_def)
next
  case False
  hence nm: "normal p = foldl enter [] (path_fields p)" by (auto simp: normal_def)
  from first_field[of p] show ?thesis
  proof (elim disjE exE conjE)
    assume "47 \<notin> set p"
    thus ?thesis using field_done_last[OF initial_field[OF a]] p nm fields_plain by simp
  next
    fix f r assume q: "p = f @ 47 # r" and f: "47 \<notin> set f"
    have "f \<noteq> []" using False q by auto
    hence "field_done n (norm_loop INITIAL path 0 0) 47 (r @ 0 # z) (enter [] f)"
      using initial_field[of n path f 47 "r @ 0 # z"] a p q f by simp
    then obtain path' pos' outpos' where l: "norm_loop INITIAL path 0 0 = norm_loop SEEN_SEP path' pos' outpos'"
      "at_point n path' pos' outpos' (slashed (enter [] f)) (r @ 0 # z)" by (auto simp: field_done_def leads_def)
    have "\<forall>g\<in>set (enter [] f). 47 \<notin> set g" using enter_fields[of "[]" "\<lambda>f. 47 \<notin> set f" f] f by simp
    thus ?thesis using norm_from_sep[OF l(2)] l(1) p q nm fields_split[OF f, of r] by simp
  qed
qed

text \<open>The fields that remain are in normal form: no empty field but in front, no \<^verbatim>\<open>.\<close> and no \<^verbatim>\<open>..\<close>\<close>

definition canonical :: "u8 list list \<Rightarrow> bool" where
  "canonical st \<longleftrightarrow> (\<forall>f\<in>set st. 0 \<notin> set f \<and> 47 \<notin> set f \<and> f \<noteq> [46] \<and> f \<noteq> [46, 46]) \<and> [] \<notin> set (tl st)"

lemma canonical_enter:
  assumes "canonical st" "0 \<notin> set f" "47 \<notin> set f"
  shows "canonical (enter st f)"
proof -
  have "canonical (butlast st)" using assms(1) by (auto simp: canonical_def butlast_tl[symmetric] dest: in_set_butlastD)
  moreover have "canonical (st @ [f])" if "f \<noteq> []" "f \<noteq> [46]" "f \<noteq> [46, 46]"
    using assms that by (cases st) (auto simp: canonical_def)
  ultimately show ?thesis using assms(1) by (simp add: enter_def)
qed

lemma fields_chars: "f \<in> set (path_fields p) \<Longrightarrow> set f \<subseteq> set p - {47}"
proof (induction p arbitrary: f)
  case (Cons c p)
  have ne: "path_fields p \<noteq> []" by (cases p) auto
  hence "set (hd (path_fields p)) \<subseteq> set p - {47}" by (intro Cons.IH) simp
  moreover have "f \<in> set (tl (path_fields p)) \<Longrightarrow> set f \<subseteq> set p - {47}" using Cons.IH ne by (meson list.set_sel(2))
  ultimately show ?case using Cons.prems Cons.IH[of f] by (auto split: if_splits)
qed simp

lemma canonical_foldl: "canonical st \<Longrightarrow> \<forall>f\<in>set fs. 0 \<notin> set f \<and> 47 \<notin> set f \<Longrightarrow> canonical (foldl enter st fs)"
proof (induction fs arbitrary: st)
  case (Cons f fs)
  from Cons.IH[OF canonical_enter[OF Cons.prems(1)]] Cons.prems(2) show ?case by simp
qed simp

lemma canonical_normal:
  assumes "0 \<notin> set p"
  shows "canonical (normal p)"
proof -
  have "\<forall>f\<in>set (path_fields q). 0 \<notin> set f \<and> 47 \<notin> set f" if "0 \<notin> set q" for q using fields_chars[of _ q] that by blast
  moreover have "0 \<notin> set (tl p)" using assms by (cases p) auto
  moreover have "canonical [[]]" "canonical []" by (simp_all add: canonical_def)
  ultimately show ?thesis using assms canonical_foldl by (simp add: normal_def)
qed

lemma slashed_Cons: "slashed (f # st) = f @ 47 # slashed st"
  by (simp add: slashed_def)

lemma path_of_Cons: "path_of (f # g # st) = f @ 47 # path_of (g # st)"
  by (simp add: path_of_def slashed_Cons butlast_append)

lemma path_of_simps [simp]: "path_of [] = []" "path_of [f] = f"
  by (simp_all add: path_of_def slashed_Cons)

lemma fields_path_of: "st \<noteq> [] \<Longrightarrow> \<forall>f\<in>set st. 47 \<notin> set f \<Longrightarrow> path_fields (path_of st) = st"
proof (induction st rule: induct_list012)
  case (2 f)
  thus ?case by (simp add: fields_plain)
next
  case (3 f g st)
  thus ?case by (simp add: path_of_Cons fields_split)
qed simp

lemma foldl_enter_plain: "\<forall>f\<in>set fs. f \<noteq> [] \<and> f \<noteq> [46] \<and> f \<noteq> [46, 46] \<Longrightarrow> foldl enter st fs = st @ fs"
  by (induction fs arbitrary: st) (auto simp: enter_def)

text \<open>Normalising again changes nothing.\<close>

lemma normal_idem:
  assumes "canonical st"
  shows "path_of (normal (path_of st)) = path_of st"
proof -
  have c: "\<forall>f\<in>set st. 47 \<notin> set f \<and> f \<noteq> [46] \<and> f \<noteq> [46, 46]" "[] \<notin> set (tl st)" using assms by (auto simp: canonical_def)
  consider "st = [] \<or> st = [[]]" | f fs where "st = f # fs" "f \<noteq> []" | g fs where "st = [] # g # fs"
    by (cases st; cases "tl st") auto
  thus ?thesis
  proof cases
    case 1
    thus ?thesis by (auto simp: normal_def enter_def)
  next
    case (2 f fs)
    have "path_fields (path_of st) = st" using fields_path_of[of st] 2 c by simp
    moreover have "47 \<notin> set f" using 2 c by simp
    hence "hd f \<noteq> 47" using hd_in_set[OF 2(2)] by metis
    hence "hd (path_of st) \<noteq> 47" using 2 by (cases fs) (simp_all add: path_of_Cons)
    moreover have "foldl enter [] st = st" using foldl_enter_plain[of st "[]"] 2 c by auto
    ultimately show ?thesis by (simp add: normal_def)
  next
    case (3 g fs)
    have "path_fields (path_of (g # fs)) = g # fs" using fields_path_of[of "g # fs"] 3 c by simp
    moreover have "foldl enter [[]] (g # fs) = [] # g # fs" using foldl_enter_plain[of "g # fs" "[[]]"] 3 c by auto
    ultimately show ?thesis using 3 by (simp add: normal_def path_of_Cons)
  qed
qed

lemma zero_notin_path: "canonical st \<Longrightarrow> 0 \<notin> set (path_of st)"
proof -
  assume c: "canonical st"
  have "0 \<notin> set (slashed st)" using c unfolding canonical_def slashed_def by auto
  thus ?thesis unfolding path_of_def by (meson in_set_butlastD)
qed

lemma cstr_store: "i < length p \<Longrightarrow> 0 \<notin> set (take i p) \<Longrightarrow> cstr (p[i := 0]) = take i p"
  by (simp add: cstr_def upd_conv_take_nth_drop takeWhile_append)

lemma fs_normalize_ok:
  assumes "terminated p"
  shows "\<exists>q. fs_normalize_path p = Some q \<and> length q = length p \<and> terminated q \<and> cstr q = path_of (normal (cstr p))"
proof -
  obtain z where z: "p = cstr p @ 0 # z" using terminated_split[OF assms] by blast
  have nz: "0 \<notin> set (cstr p)" using cstr_nonzero by blast
  have a: "at_point (length p) p 0 0 [] (cstr p @ 0 # z)" using z by (simp add: at_point_def)
  obtain path outpos where r: "norm_loop INITIAL p 0 0 = Some (path, outpos)" "length path = length p" "outpos < length p"
    "strip (take outpos path) = path_of (normal (cstr p))" using norm_from_initial[OF a nz] by (auto simp: ends_as_def)
  define i where "i = (if 0 < outpos \<and> path ! (outpos - 1) = 47 then outpos - 1 else outpos)"
  have i: "i < length path" using r by (auto simp: i_def)
  have l: "last (take outpos path) = path ! (outpos - 1)" if "0 < outpos" using that r by (subst last_conv_nth) auto
  have "path \<noteq> []" using i by auto
  hence "strip (take outpos path) = take i path"
    using r(2,3) l by (cases "outpos = 0") (simp_all add: strip_def i_def butlast_take)
  hence t: "take i path = path_of (normal (cstr p))" using r(4) by simp
  have "fs_normalize_path p = Some (path[i := 0])" using r(1) i by (simp add: fs_normalize_path_def emit_def i_def Let_def)
  moreover have "terminated (path[i := 0])" using i by (simp add: terminated_def set_update_memI)
  ultimately show ?thesis using cstr_store[OF i] t zero_notin_path[OF canonical_normal[OF nz]] r(2) by simp
qed

text \<open>
  C26: \<^verbatim>\<open>fs_normalize_path\<close> terminates on every terminated string, stays inside of it, and leaves the fields that remain when
  empty fields and \<^verbatim>\<open>.\<close> are dropped and every \<^verbatim>\<open>..\<close> removes the field before it. The result has no such field
  left (the empty one in front of a leading slash apart), and normalising it again does not change it.
\<close>

theorem fs_normalize_path_correct:
  assumes "terminated p"
  shows "\<exists>q. fs_normalize_path p = Some q \<and> length q = length p \<and> terminated q \<and> cstr q = path_of (normal (cstr p)) \<and>
    canonical (normal (cstr p)) \<and> (\<exists>r. fs_normalize_path q = Some r \<and> cstr r = cstr q)"
proof -
  have c: "canonical (normal (cstr p))" using canonical_normal cstr_nonzero by blast
  obtain q where q: "fs_normalize_path p = Some q" "length q = length p" "terminated q" "cstr q = path_of (normal (cstr p))"
    using fs_normalize_ok[OF assms] by blast
  obtain r where "fs_normalize_path q = Some r" "cstr r = path_of (normal (cstr q))" using fs_normalize_ok[OF q(3)] by blast
  thus ?thesis using q c normal_idem[OF c] by simp
qed

theorem fs_normalize_path_correct_witness:
  "\<exists>q. fs_normalize_path (map of_char ''/a//./b/../c/'' @ [0]) = Some q \<and> cstr q = map of_char ''/a/c''"
proof -
  have "terminated (map of_char ''/a//./b/../c/'' @ [0])" by simp
  moreover have "path_of (normal (cstr (map of_char ''/a//./b/../c/'' @ [0]))) = map of_char ''/a/c''"
    by (simp add: normal_def enter_def path_of_def slashed_def)
  ultimately show ?thesis using fs_normalize_path_correct by metis
qed

end
