(* ===== verification/LK_Fs.thy ===== *)
theory LK_Fs
  imports LK_Bio LK_Path "HOL-Library.Multiset"
begin

text \<open>
  The file system layer (\<^verbatim>\<open>lib/fs/fs.c\<close>): the table of mounts and the open files. The file systems themselves are the
  table of operations that the code calls through pointers. \<open>None\<close> is a panic or an access to memory that has been freed.
\<close>

section \<open>Mounts and files\<close>

text \<open>
  The operations of a file system, the members of \<^verbatim>\<open>struct fs_type\<close>. They act on the registry of block devices and on a
  state of their own; \<open>None\<close> is a missing member. The bytes of a read are part of its result.
\<close>

type_synonym 's world = "bio \<times> 's"
type_synonym ('r, 's) fs_op = "'s world \<Rightarrow> ('r \<times> 's world) option"

record 's fs_type =
  ft_name :: "u8 list"
  ft_mount :: "nat \<Rightarrow> (int \<times> nat, 's) fs_op"
  ft_unmount :: "nat \<Rightarrow> (int, 's) fs_op"
  ft_open :: "nat \<Rightarrow> u8 list \<Rightarrow> (int \<times> nat, 's) fs_op"
  ft_create :: "(nat \<Rightarrow> u8 list \<Rightarrow> (int \<times> nat, 's) fs_op) option"
  ft_mkdir :: "(nat \<Rightarrow> u8 list \<Rightarrow> (int, 's) fs_op) option"
  ft_stat :: "nat \<Rightarrow> (int \<times> bool \<times> u64, 's) fs_op"
  ft_read :: "nat \<Rightarrow> u64 \<Rightarrow> u64 \<Rightarrow> (int \<times> u8 list, 's) fs_op"
  ft_write :: "(nat \<Rightarrow> u8 list \<Rightarrow> u64 \<Rightarrow> u64 \<Rightarrow> (int, 's) fs_op) option"
  ft_close :: "nat \<Rightarrow> (int, 's) fs_op"

text \<open>A mount names its type by the index in the table.\<close>

record fs_mount_t =
  fm_path :: "u8 list"
  fm_dev :: nat
  fm_cookie :: nat
  fm_refs :: int
  fm_type :: nat

record fs_file =
  ff_cookie :: nat
  ff_mount :: nat

record 's fs =
  mounts :: "nat list"
  fs_mounts :: "nat \<Rightarrow> fs_mount_t option"
  fs_files :: "nat \<Rightarrow> fs_file option"
  fs_next :: nat
  fs_world :: "'s world"

definition fs_init :: "'s world \<Rightarrow> 's fs" where
  "fs_init w = \<lparr>mounts = [], fs_mounts = (\<lambda>_. None), fs_files = (\<lambda>_. None), fs_next = 0, fs_world = w\<rparr>"

text \<open>
  The copy of a path on the stack. What the 512 bytes held before does not matter: the copy is terminated and nothing
  behind its terminator is read.
\<close>

definition temppath :: "u8 list \<Rightarrow> u8 list option" where
  "temppath path = do { (_, tmp) \<leftarrow> strlcpy (replicate 512 0) path 512; fs_normalize_path tmp }"

fun find_walk :: "u8 list \<Rightarrow> nat \<Rightarrow> nat list \<Rightarrow> 's fs \<Rightarrow> (nat \<times> u8 list) option option" where
  "find_walk path pathlen [] s = Some None"
| "find_walk path pathlen (m # ms) s = do {
     mount \<leftarrow> fs_mounts s m;
     mountpathlen \<leftarrow> strlen (fm_path mount);
     if pathlen < mountpathlen then find_walk path pathlen ms s
     else do {
       r \<leftarrow> memcmp path (fm_path mount) mountpathlen;
       if r = 0 then Some (Some (m, drop mountpathlen path)) else find_walk path pathlen ms s
     }
   }"

text \<open>The mount and the trimmed path.\<close>

definition find_mount :: "u8 list \<Rightarrow> 's fs \<Rightarrow> (nat \<times> u8 list) option option" where
  "find_mount path s = do { pathlen \<leftarrow> strlen path; find_walk path pathlen (mounts s) s }"

text \<open>\<^verbatim>\<open>malloc\<close> is taken to succeed, as the code does.\<close>

definition add_mount :: "fs_mount_t \<Rightarrow> 's fs \<Rightarrow> 's fs" where
  "add_mount mt s = s\<lparr>mounts := fs_next s # mounts s, fs_mounts := (fs_mounts s)(fs_next s \<mapsto> mt), fs_next := Suc (fs_next s)\<rparr>"

definition mount_at :: "'s fs_type list \<Rightarrow> u8 list \<Rightarrow> string \<Rightarrow> nat \<Rightarrow> 's fs \<Rightarrow> (int \<times> 's fs) option" where
  "mount_at types path device type s = do {
     tmp \<leftarrow> temppath path;
     if tmp ! 0 \<noteq> 47 then Some (ERR_BAD_PATH, s)
     else do {
       found \<leftarrow> find_mount tmp s;
       (case found of
          Some _ \<Rightarrow> Some (ERR_ALREADY_MOUNTED, s)
        | None \<Rightarrow> do {
            (dev, b) \<leftarrow> bio_open device (fst (fs_world s));
            (case dev of
               None \<Rightarrow> Some (ERR_NOT_FOUND, s\<lparr>fs_world := (b, snd (fs_world s))\<rparr>)
             | Some dev \<Rightarrow> do {
                 ((err, cookie), w) \<leftarrow> ft_mount (types ! type) dev (b, snd (fs_world s));
                 if err < 0
                 then do { b \<leftarrow> bio_close dev (fst w); Some (err, s\<lparr>fs_world := (b, snd w)\<rparr>) }
                 else Some (0, add_mount \<lparr>fm_path = cstr tmp @ [0], fm_dev = dev, fm_cookie = cookie, fm_refs = 1, fm_type = type\<rparr>
                   (s\<lparr>fs_world := w\<rparr>))
               })
          })
     }
   }"

definition fs_mount :: "'s fs_type list \<Rightarrow> u8 list \<Rightarrow> string \<Rightarrow> 's fs \<Rightarrow> (int \<times> 's fs) option" where
  "fs_mount types path device s = mount_at types path device 0 s"

fun type_index :: "nat \<Rightarrow> u8 list \<Rightarrow> 's fs_type list \<Rightarrow> nat option option" where
  "type_index i name [] = Some None"
| "type_index i name (t # ts) = do {
     r \<leftarrow> strcmp name (ft_name t);
     if r = 0 then Some (Some i) else type_index (Suc i) name ts
   }"

definition fs_mount_type :: "'s fs_type list \<Rightarrow> u8 list \<Rightarrow> string \<Rightarrow> u8 list \<Rightarrow> 's fs \<Rightarrow> (int \<times> 's fs) option" where
  "fs_mount_type types path device name s = do {
     i \<leftarrow> type_index 0 name types;
     (case i of Some i \<Rightarrow> mount_at types path device i s | None \<Rightarrow> Some (ERR_NOT_FOUND, s))
   }"

definition put_mount :: "'s fs_type list \<Rightarrow> nat \<Rightarrow> 's fs \<Rightarrow> 's fs option" where
  "put_mount types m s = do {
     mt \<leftarrow> fs_mounts s m;
     let mt = mt\<lparr>fm_refs := fm_refs mt - 1\<rparr>;
     if fm_refs mt = 0
     then do {
       (_, w) \<leftarrow> ft_unmount (types ! fm_type mt) (fm_cookie mt) (fs_world s);
       b \<leftarrow> bio_close (fm_dev mt) (fst w);
       Some (s\<lparr>mounts := remove1 m (mounts s), fs_mounts := (fs_mounts s)(m := None), fs_world := (b, snd w)\<rparr>)
     }
     else Some (s\<lparr>fs_mounts := (fs_mounts s)(m \<mapsto> mt)\<rparr>)
   }"

definition fs_unmount :: "'s fs_type list \<Rightarrow> u8 list \<Rightarrow> 's fs \<Rightarrow> (int \<times> 's fs) option" where
  "fs_unmount types path s = do {
     tmp \<leftarrow> temppath path;
     found \<leftarrow> find_mount tmp s;
     (case found of
        None \<Rightarrow> Some (ERR_NOT_FOUND, s)
      | Some (m, _) \<Rightarrow> do { s \<leftarrow> put_mount types m s; Some (0, s) })
   }"

text \<open>The new \<^verbatim>\<open>struct fs_file\<close> of a successful call.\<close>

definition add_file :: "nat \<Rightarrow> nat \<Rightarrow> 's fs \<Rightarrow> (int \<times> nat option \<times> 's fs) option" where
  "add_file m cookie s = do {
     mt \<leftarrow> fs_mounts s m;
     Some (0, Some (fs_next s), s\<lparr>fs_files := (fs_files s)(fs_next s \<mapsto> \<lparr>ff_cookie = cookie, ff_mount = m\<rparr>),
       fs_mounts := (fs_mounts s)(m \<mapsto> mt\<lparr>fm_refs := fm_refs mt + 1\<rparr>), fs_next := Suc (fs_next s)\<rparr>)
   }"

definition fs_open_file :: "'s fs_type list \<Rightarrow> u8 list \<Rightarrow> 's fs \<Rightarrow> (int \<times> nat option \<times> 's fs) option" where
  "fs_open_file types path s = do {
     tmp \<leftarrow> temppath path;
     found \<leftarrow> find_mount tmp s;
     (case found of
        None \<Rightarrow> Some (ERR_NOT_FOUND, None, s)
      | Some (m, newpath) \<Rightarrow> do {
          mt \<leftarrow> fs_mounts s m;
          ((err, cookie), w) \<leftarrow> ft_open (types ! fm_type mt) (fm_cookie mt) newpath (fs_world s);
          if err < 0 then Some (err, None, s\<lparr>fs_world := w\<rparr>) else add_file m cookie (s\<lparr>fs_world := w\<rparr>)
        })
   }"

definition fs_create_file :: "'s fs_type list \<Rightarrow> u8 list \<Rightarrow> 's fs \<Rightarrow> (int \<times> nat option \<times> 's fs) option" where
  "fs_create_file types path s = do {
     tmp \<leftarrow> temppath path;
     found \<leftarrow> find_mount tmp s;
     (case found of
        None \<Rightarrow> Some (ERR_NOT_FOUND, None, s)
      | Some (m, newpath) \<Rightarrow> do {
          mt \<leftarrow> fs_mounts s m;
          (case ft_create (types ! fm_type mt) of
             None \<Rightarrow> Some (ERR_NOT_SUPPORTED, None, s)
           | Some create \<Rightarrow> do {
               ((err, cookie), w) \<leftarrow> create (fm_cookie mt) newpath (fs_world s);
               if err < 0 then Some (err, None, s\<lparr>fs_world := w\<rparr>) else add_file m cookie (s\<lparr>fs_world := w\<rparr>)
             })
        })
   }"

definition fs_make_dir :: "'s fs_type list \<Rightarrow> u8 list \<Rightarrow> 's fs \<Rightarrow> (int \<times> 's fs) option" where
  "fs_make_dir types path s = do {
     tmp \<leftarrow> temppath path;
     found \<leftarrow> find_mount tmp s;
     (case found of
        None \<Rightarrow> Some (ERR_NOT_FOUND, s)
      | Some (m, newpath) \<Rightarrow> do {
          mt \<leftarrow> fs_mounts s m;
          (case ft_mkdir (types ! fm_type mt) of
             None \<Rightarrow> Some (ERR_NOT_SUPPORTED, s)
           | Some mkdir \<Rightarrow> do { (err, w) \<leftarrow> mkdir (fm_cookie mt) newpath (fs_world s); Some (err, s\<lparr>fs_world := w\<rparr>) })
        })
   }"

text \<open>The file and the mount behind a cookie.\<close>

definition file_mount :: "nat \<Rightarrow> 's fs \<Rightarrow> (fs_file \<times> fs_mount_t) option" where
  "file_mount fcookie s = do { f \<leftarrow> fs_files s fcookie; mt \<leftarrow> fs_mounts s (ff_mount f); Some (f, mt) }"

definition fs_read_file :: "'s fs_type list \<Rightarrow> nat \<Rightarrow> u64 \<Rightarrow> u64 \<Rightarrow> 's fs \<Rightarrow> ((int \<times> u8 list) \<times> 's fs) option" where
  "fs_read_file types fcookie offset len s = do {
     (f, mt) \<leftarrow> file_mount fcookie s;
     (r, w) \<leftarrow> ft_read (types ! fm_type mt) (ff_cookie f) offset len (fs_world s);
     Some (r, s\<lparr>fs_world := w\<rparr>)
   }"

definition fs_write_file :: "'s fs_type list \<Rightarrow> nat \<Rightarrow> u8 list \<Rightarrow> u64 \<Rightarrow> u64 \<Rightarrow> 's fs \<Rightarrow> (int \<times> 's fs) option" where
  "fs_write_file types fcookie buf offset len s = do {
     (f, mt) \<leftarrow> file_mount fcookie s;
     (case ft_write (types ! fm_type mt) of
        None \<Rightarrow> Some (ERR_NOT_SUPPORTED, s)
      | Some wr \<Rightarrow> do { (err, w) \<leftarrow> wr (ff_cookie f) buf offset len (fs_world s); Some (err, s\<lparr>fs_world := w\<rparr>) })
   }"

definition fs_close_file :: "'s fs_type list \<Rightarrow> nat \<Rightarrow> 's fs \<Rightarrow> (int \<times> 's fs) option" where
  "fs_close_file types fcookie s = do {
     (f, mt) \<leftarrow> file_mount fcookie s;
     (err, w) \<leftarrow> ft_close (types ! fm_type mt) (ff_cookie f) (fs_world s);
     if err < 0 then Some (err, s\<lparr>fs_world := w\<rparr>)
     else do {
       s \<leftarrow> put_mount types (ff_mount f) (s\<lparr>fs_world := w\<rparr>);
       Some (0, s\<lparr>fs_files := (fs_files s)(fcookie := None)\<rparr>)
     }
   }"

definition fs_stat_file :: "'s fs_type list \<Rightarrow> nat \<Rightarrow> 's fs \<Rightarrow> ((int \<times> bool \<times> u64) \<times> 's fs) option" where
  "fs_stat_file types fcookie s = do {
     (f, mt) \<leftarrow> file_mount fcookie s;
     (r, w) \<leftarrow> ft_stat (types ! fm_type mt) (ff_cookie f) (fs_world s);
     Some (r, s\<lparr>fs_world := w\<rparr>)
   }"

definition fs_load_file :: "'s fs_type list \<Rightarrow> u8 list \<Rightarrow> u64 \<Rightarrow> 's fs \<Rightarrow> ((int \<times> u8 list) \<times> 's fs) option" where
  "fs_load_file types path maxlen s = do {
     (err, f, s) \<leftarrow> fs_open_file types path s;
     (case f of
        None \<Rightarrow> Some ((err, []), s)
      | Some f \<Rightarrow> do {
          ((_, _, sz), s) \<leftarrow> fs_stat_file types f s;
          (r, s) \<leftarrow> fs_read_file types f 0 (if maxlen < sz then maxlen else sz) s;
          (_, s) \<leftarrow> fs_close_file types f s;
          Some (r, s)
        })
   }"

section \<open>Reference counts\<close>

text \<open>
  What the layer relies on. \<open>I\<close> is an invariant of the state of the file systems, given the instances that are mounted
  (type, cookie and device) and the files that are open (type, cookie and cookie of the instance). Every operation
  returns when it is called on an instance or a file that is there, keeps the references to block devices, and
  adds or removes what its result says.
\<close>

type_synonym ids = "(nat \<times> nat \<times> nat) multiset"

definition answers :: "(nat \<Rightarrow> nat) \<Rightarrow> ('r, 's) fs_op \<Rightarrow> 's world \<Rightarrow> ('r \<Rightarrow> 's \<Rightarrow> bool) \<Rightarrow> bool" where
  "answers H op w Q \<longleftrightarrow> (\<exists>r b x. op w = Some (r, (b, x)) \<and> bio_inv H b \<and> Q r x)"

definition opens_file :: "(ids \<Rightarrow> ids \<Rightarrow> 's \<Rightarrow> bool) \<Rightarrow> nat \<Rightarrow> (nat \<Rightarrow> nat) \<Rightarrow> ids \<Rightarrow> ids \<Rightarrow> 's world \<Rightarrow>
    (nat \<Rightarrow> u8 list \<Rightarrow> (int \<times> nat, 's) fs_op) \<Rightarrow> bool" where
  "opens_file I i H MI FI w op \<longleftrightarrow> (\<forall>c d p. (i, c, d) \<in># MI \<longrightarrow> terminated p \<longrightarrow>
     answers H (op c p) w (\<lambda>(err, f). I MI (if err < 0 then FI else add_mset (i, f, c) FI)))"

definition driver_ok :: "(ids \<Rightarrow> ids \<Rightarrow> 's \<Rightarrow> bool) \<Rightarrow> nat \<Rightarrow> 's fs_type \<Rightarrow> (nat \<Rightarrow> nat) \<Rightarrow> ids \<Rightarrow> ids \<Rightarrow> 's world \<Rightarrow> bool" where
  "driver_ok I i t H MI FI w \<longleftrightarrow>
     (\<forall>dev. 0 < H dev \<longrightarrow> answers H (ft_mount t dev) w (\<lambda>(err, c) x.
        if err < 0 then I MI FI x else (\<forall>d. (i, c, d) \<notin># MI) \<and> I (add_mset (i, c, dev) MI) FI x)) \<and>
     (\<forall>c d. (i, c, d) \<in># MI \<longrightarrow> (\<forall>f. (i, f, c) \<notin># FI) \<longrightarrow> answers H (ft_unmount t c) w (\<lambda>_. I (MI - {#(i, c, d)#}) FI)) \<and>
     opens_file I i H MI FI w (ft_open t) \<and>
     (\<forall>create. ft_create t = Some create \<longrightarrow> opens_file I i H MI FI w create) \<and>
     (\<forall>mkdir c d p. ft_mkdir t = Some mkdir \<longrightarrow> (i, c, d) \<in># MI \<longrightarrow> terminated p \<longrightarrow> answers H (mkdir c p) w (\<lambda>_. I MI FI)) \<and>
     (\<forall>f c. (i, f, c) \<in># FI \<longrightarrow>
        answers H (ft_stat t f) w (\<lambda>_. I MI FI) \<and>
        (\<forall>off len. answers H (ft_read t f off len) w (\<lambda>_. I MI FI)) \<and>
        (\<forall>wr buf off len. ft_write t = Some wr \<longrightarrow> answers H (wr f buf off len) w (\<lambda>_. I MI FI)) \<and>
        answers H (ft_close t f) w (\<lambda>err. I MI (if err < 0 then FI else FI - {#(i, f, c)#})))"

lemma driver_okD:
  assumes "driver_ok I i t H MI FI w"
  shows "0 < H dev \<Longrightarrow> answers H (ft_mount t dev) w (\<lambda>(err, c) x.
      if err < 0 then I MI FI x else (\<forall>d. (i, c, d) \<notin># MI) \<and> I (add_mset (i, c, dev) MI) FI x)"
    "(i, c, d) \<in># MI \<Longrightarrow> (\<And>f. (i, f, c) \<notin># FI) \<Longrightarrow> answers H (ft_unmount t c) w (\<lambda>_. I (MI - {#(i, c, d)#}) FI)"
    "opens_file I i H MI FI w (ft_open t)" "ft_create t = Some create \<Longrightarrow> opens_file I i H MI FI w create"
    "ft_mkdir t = Some mkdir \<Longrightarrow> (i, c, d) \<in># MI \<Longrightarrow> terminated p \<Longrightarrow> answers H (mkdir c p) w (\<lambda>_. I MI FI)"
    "(i, f, c) \<in># FI \<Longrightarrow> answers H (ft_stat t f) w (\<lambda>_. I MI FI)"
    "(i, f, c) \<in># FI \<Longrightarrow> answers H (ft_read t f off len) w (\<lambda>_. I MI FI)"
    "(i, f, c) \<in># FI \<Longrightarrow> ft_write t = Some wr \<Longrightarrow> answers H (wr f buf off len) w (\<lambda>_. I MI FI)"
    "(i, f, c) \<in># FI \<Longrightarrow> answers H (ft_close t f) w (\<lambda>err. I MI (if err < 0 then FI else FI - {#(i, f, c)#}))"
proof -
  note a = assms[unfolded driver_ok_def]
  note b = a[THEN conjunct2] note c = b[THEN conjunct2] note d = c[THEN conjunct2] note e = d[THEN conjunct2] note g = e[THEN conjunct2]
  show "0 < H dev \<Longrightarrow> answers H (ft_mount t dev) w (\<lambda>(err, c) x.
      if err < 0 then I MI FI x else (\<forall>d. (i, c, d) \<notin># MI) \<and> I (add_mset (i, c, dev) MI) FI x)" by (rule a[THEN conjunct1, rule_format])
  show "(i, c, d) \<in># MI \<Longrightarrow> (\<And>f. (i, f, c) \<notin># FI) \<Longrightarrow> answers H (ft_unmount t c) w (\<lambda>_. I (MI - {#(i, c, d)#}) FI)"
    by (rule b[THEN conjunct1, rule_format])
  show "opens_file I i H MI FI w (ft_open t)" by (rule c[THEN conjunct1])
  show "ft_create t = Some create \<Longrightarrow> opens_file I i H MI FI w create" by (rule d[THEN conjunct1, rule_format])
  show "ft_mkdir t = Some mkdir \<Longrightarrow> (i, c, d) \<in># MI \<Longrightarrow> terminated p \<Longrightarrow> answers H (mkdir c p) w (\<lambda>_. I MI FI)"
    by (rule e[THEN conjunct1, rule_format])
  note f = g[rule_format]
  show "(i, f, c) \<in># FI \<Longrightarrow> answers H (ft_stat t f) w (\<lambda>_. I MI FI)" by (drule f) (rule conjunct1)
  show "(i, f, c) \<in># FI \<Longrightarrow> answers H (ft_read t f off len) w (\<lambda>_. I MI FI)" by (drule f) blast
  show "(i, f, c) \<in># FI \<Longrightarrow> ft_write t = Some wr \<Longrightarrow> answers H (wr f buf off len) w (\<lambda>_. I MI FI)" by (drule f) blast
  show "(i, f, c) \<in># FI \<Longrightarrow> answers H (ft_close t f) w (\<lambda>err. I MI (if err < 0 then FI else FI - {#(i, f, c)#}))" by (drule f) blast
qed

definition drivers_ok :: "'s fs_type list \<Rightarrow> (ids \<Rightarrow> ids \<Rightarrow> 's \<Rightarrow> bool) \<Rightarrow> bool" where
  "drivers_ok types I \<longleftrightarrow> types \<noteq> [] \<and> (\<forall>t\<in>set types. terminated (ft_name t)) \<and>
     (\<forall>i H MI FI b x. i < length types \<longrightarrow> bio_inv H b \<longrightarrow> (\<forall>(j, c, d)\<in>set_mset MI. 0 < H d) \<longrightarrow> I MI FI x \<longrightarrow>
        driver_ok I i (types ! i) H MI FI (b, x))"

definition mount_id :: "fs_mount_t \<Rightarrow> nat \<times> nat \<times> nat" where
  "mount_id mt = (fm_type mt, fm_cookie mt, fm_dev mt)"

type_synonym mount_map = "nat \<Rightarrow> fs_mount_t option"
type_synonym file_map = "nat \<Rightarrow> fs_file option"

definition mounted :: "mount_map \<Rightarrow> ids" where
  "mounted M = image_mset (\<lambda>m. mount_id (the (M m))) (mset_set (dom M))"

definition file_id :: "mount_map \<Rightarrow> fs_file \<Rightarrow> nat \<times> nat \<times> nat" where
  "file_id M f = (let mt = the (M (ff_mount f)) in (fm_type mt, ff_cookie f, fm_cookie mt))"

definition opened :: "mount_map \<Rightarrow> file_map \<Rightarrow> ids" where
  "opened M F = image_mset (\<lambda>f. file_id M (the (F f))) (mset_set (dom F))"

definition files_of :: "file_map \<Rightarrow> nat \<Rightarrow> nat set" where
  "files_of F m = {f. \<exists>ff. F f = Some ff \<and> ff_mount ff = m}"

definition users :: "mount_map \<Rightarrow> nat \<Rightarrow> nat set" where
  "users M d = {m. \<exists>mt. M m = Some mt \<and> fm_dev mt = d}"

text \<open>\<open>A m\<close> is how many references to the mount \<open>m\<close> are held besides those of the open files.\<close>

definition mount_ok :: "'s fs_type list \<Rightarrow> (nat \<Rightarrow> nat) \<Rightarrow> file_map \<Rightarrow> nat \<Rightarrow> fs_mount_t \<Rightarrow> bool" where
  "mount_ok types A F m mt \<longleftrightarrow> fm_type mt < length types \<and> terminated (fm_path mt) \<and>
     0 < fm_refs mt \<and> fm_refs mt = int (A m + card (files_of F m))"

definition tables_ok :: "'s fs_type list \<Rightarrow> (nat \<Rightarrow> nat) \<Rightarrow> nat list \<Rightarrow> mount_map \<Rightarrow> file_map \<Rightarrow> nat \<Rightarrow> bool" where
  "tables_ok types A ms M F n \<longleftrightarrow>
     distinct ms \<and> set ms = dom M \<and> finite (dom F) \<and>
     (\<forall>i\<ge>n. M i = None \<and> F i = None) \<and> (\<forall>m. M m = None \<longrightarrow> A m = 0) \<and>
     (\<forall>m mt. M m = Some mt \<longrightarrow> mount_ok types A F m mt) \<and>
     (\<forall>f ff. F f = Some ff \<longrightarrow> M (ff_mount ff) \<noteq> None) \<and>
     (\<forall>m m' mt mt'. M m = Some mt \<longrightarrow> M m' = Some mt' \<longrightarrow> fm_type mt = fm_type mt' \<longrightarrow> fm_cookie mt = fm_cookie mt' \<longrightarrow> m = m')"

text \<open>\<open>H\<close> are the handles to block devices that others hold.\<close>

definition world_ok :: "(ids \<Rightarrow> ids \<Rightarrow> 's \<Rightarrow> bool) \<Rightarrow> (nat \<Rightarrow> nat) \<Rightarrow> mount_map \<Rightarrow> file_map \<Rightarrow> 's world \<Rightarrow> bool" where
  "world_ok I H M F w \<longleftrightarrow> bio_inv (\<lambda>d. H d + card (users M d)) (fst w) \<and> I (mounted M) (opened M F) (snd w)"

definition fs_inv :: "'s fs_type list \<Rightarrow> (ids \<Rightarrow> ids \<Rightarrow> 's \<Rightarrow> bool) \<Rightarrow> (nat \<Rightarrow> nat) \<Rightarrow> (nat \<Rightarrow> nat) \<Rightarrow> 's fs \<Rightarrow> bool" where
  "fs_inv types I H A s \<longleftrightarrow> tables_ok types A (mounts s) (fs_mounts s) (fs_files s) (fs_next s) \<and>
     world_ok I H (fs_mounts s) (fs_files s) (fs_world s)"

subsection \<open>Looking up\<close>

lemma temppath_ok:
  assumes "terminated path"
  shows "\<exists>tmp. temppath path = Some tmp \<and> terminated tmp \<and> cstr tmp = path_of (normal (take 511 (cstr path)))"
proof -
  obtain n d where d: "strlcpy (replicate 512 0) path 512 = Some (n, d)" "terminated d" "cstr d = take (512 - 1) (cstr path)"
    using strlcpy_ok[OF assms, of 512 "replicate 512 0"] by (metis (no_types, lifting) diff_less length_replicate min.strict_coboundedI1 zero_less_numeral zero_less_one)
  have "temppath path = fs_normalize_path d" using d(1) by (simp add: temppath_def)
  thus ?thesis using fs_normalize_ok[OF d(2)] d(3) by auto
qed

lemma tables_mount:
  assumes "tables_ok types A ms M F n" "M m = Some mt"
  shows "fm_type mt < length types" "terminated (fm_path mt)" "0 < fm_refs mt" "fm_refs mt = int (A m + card (files_of F m))" "m \<in> set ms"
proof -
  have "mount_ok types A F m mt" "m \<in> set ms" using assms unfolding tables_ok_def by blast+
  thus "fm_type mt < length types" "terminated (fm_path mt)" "0 < fm_refs mt" "fm_refs mt = int (A m + card (files_of F m))" "m \<in> set ms"
    unfolding mount_ok_def by blast+
qed

lemma fs_inv_tables: "fs_inv types I H A s \<Longrightarrow> tables_ok types A (mounts s) (fs_mounts s) (fs_files s) (fs_next s)"
  unfolding fs_inv_def by blast

definition found_ok :: "nat list \<Rightarrow> 's fs \<Rightarrow> (nat \<times> u8 list) option \<Rightarrow> bool" where
  "found_ok ms s r \<longleftrightarrow> (\<forall>m np. r = Some (m, np) \<longrightarrow> m \<in> set ms \<and> fs_mounts s m \<noteq> None \<and> terminated np)"

lemma find_walk_ok:
  assumes inv: "fs_inv types I H A s" and t: "terminated path"
  shows "set ms \<subseteq> set (mounts s) \<Longrightarrow> \<exists>r. find_walk path (length (cstr path)) ms s = Some r \<and> found_ok ms s r"
proof (induction ms)
  case (Cons m ms)
  note tab = fs_inv_tables[OF inv]
  have "m \<in> dom (fs_mounts s)" using Cons.prems tab unfolding tables_ok_def by auto
  then obtain mt where mt: "fs_mounts s m = Some mt" by blast
  let ?p = "fm_path mt"
  have l: "strlen ?p = Some (length (cstr ?p))" by (rule strlen_ok[OF tables_mount(2)[OF tab mt]])
  obtain r where r: "find_walk path (length (cstr path)) ms s = Some r" "found_ok ms s r" using Cons by auto
  have r': "found_ok (m # ms) s r" using r(2) by (simp add: found_ok_def)
  show ?case
  proof (cases "length (cstr path) < length (cstr ?p)")
    case True
    thus ?thesis using mt l r(1) r' by auto
  next
    case False
    have "length (cstr q) \<le> length q" for q :: "u8 list" by (simp add: cstr_def length_takeWhile_le)
    hence "length (cstr ?p) \<le> length path" "length (cstr ?p) \<le> length ?p" using False by (meson leI le_trans)+
    then obtain x where x: "memcmp path ?p (length (cstr ?p)) = Some x" using memcmp_ok by blast
    have "terminated (drop (length (cstr ?p)) path)" using drop_cstr[OF t] False by simp
    thus ?thesis using False mt l x r(1) r' by (auto simp: found_ok_def)
  qed
qed (simp add: found_ok_def)

lemma find_mount_ok:
  assumes "fs_inv types I H A s" "terminated path"
  shows "\<exists>r. find_mount path s = Some r \<and> found_ok (mounts s) s r"
  using find_walk_ok[OF assms subset_refl] strlen_ok[OF assms(2)] by (simp add: find_mount_def)

lemma type_index_ok:
  assumes "terminated name"
  shows "\<forall>t\<in>set ts. terminated (ft_name t) \<Longrightarrow> \<exists>r. type_index i name ts = Some r \<and> (\<forall>j. r = Some j \<longrightarrow> j < i + length ts)"
proof (induction ts arbitrary: i)
  case (Cons t ts)
  obtain x where "strcmp name (ft_name t) = Some x" using strcmp_ok[OF assms, of "ft_name t"] Cons.prems by auto
  thus ?case using Cons.IH[of "Suc i"] Cons.prems by auto
qed simp

subsection \<open>The invariant\<close>

lemma inv_world:
  assumes "fs_inv types I H A s" "world_ok I H (fs_mounts s) (fs_files s) w"
  shows "fs_inv types I H A (s\<lparr>fs_world := w\<rparr>)"
  using assms unfolding fs_inv_def by simp

lemma finite_mounts: "tables_ok types A ms M F n \<Longrightarrow> finite (dom M)"
  unfolding tables_ok_def by (metis List.finite_set)

lemma finite_files: "tables_ok types A ms M F n \<Longrightarrow> finite (dom F)"
  unfolding tables_ok_def by blast

lemma mounted_member: "tables_ok types A ms M F n \<Longrightarrow> M m = Some mt \<Longrightarrow> mount_id mt \<in># mounted M"
  using finite_mounts by (force simp: mounted_def)

lemma opened_member:
  assumes "tables_ok types A ms M F n" "F f = Some ff" "M (ff_mount ff) = Some mt"
  shows "(fm_type mt, ff_cookie ff, fm_cookie mt) \<in># opened M F"
proof -
  have "f \<in># mset_set (dom F)" using assms(2) finite_files[OF assms(1)] by auto
  thus ?thesis using assms(2,3) unfolding opened_def file_id_def by force
qed

lemma users_pos:
  assumes "tables_ok types A ms M F n" "M m = Some mt"
  shows "0 < card (users M (fm_dev mt))"
proof -
  have "m \<in> users M (fm_dev mt)" "users M (fm_dev mt) \<subseteq> dom M" using assms(2) by (auto simp: users_def)
  thus ?thesis using finite_subset[OF _ finite_mounts[OF assms(1)]] by (auto simp: card_gt_0_iff)
qed

lemma driver_ready:
  assumes d: "drivers_ok types I" and inv: "tables_ok types A ms M F n" and i: "i < length types"
    and K: "\<And>d. card (users M d) \<le> K d" and b: "bio_inv K b" and x: "I (mounted M) (opened M F) x"
  shows "driver_ok I i (types ! i) K (mounted M) (opened M F) (b, x)"
proof -
  have "0 < K d" if "(j, c, d) \<in># mounted M" for j c d
  proof -
    from that obtain m where "m \<in># mset_set (dom M)" "(j, c, d) = mount_id (the (M m))"
      unfolding mounted_def by auto
    then obtain mt where "M m = Some mt" "d = fm_dev mt" using finite_mounts[OF inv] by (auto simp: mount_id_def)
    thus ?thesis using users_pos[OF inv] K[of d] by (metis less_le_trans)
  qed
  thus ?thesis using d i b x unfolding drivers_ok_def by blast
qed

lemma driver_here:
  assumes "drivers_ok types I" "fs_inv types I H A s" "i < length types"
  shows "driver_ok I i (types ! i) (\<lambda>d. H d + card (users (fs_mounts s) d)) (mounted (fs_mounts s)) (opened (fs_mounts s) (fs_files s)) (fs_world s)"
  using driver_ready[OF assms(1) fs_inv_tables[OF assms(2)] assms(3), of "\<lambda>d. H d + card (users (fs_mounts s) d)" "fst (fs_world s)" "snd (fs_world s)"] assms(2)
  by (simp add: fs_inv_def world_ok_def)

text \<open>How the abstractions follow changes of the maps.\<close>

lemma ids_new:
  assumes "finite (dom m)" "m n = None"
  shows "image_mset (\<lambda>i. f (the ((m(n \<mapsto> v)) i))) (mset_set (dom (m(n \<mapsto> v)))) = add_mset (f v) (image_mset (\<lambda>i. f (the (m i))) (mset_set (dom m)))"
proof -
  have n: "n \<notin> dom m" using assms(2) by blast
  have "image_mset (\<lambda>i. f (the ((m(n \<mapsto> v)) i))) (mset_set (dom m)) = image_mset (\<lambda>i. f (the (m i))) (mset_set (dom m))"
    using n assms(1) by (intro image_mset_cong) auto
  thus ?thesis using n assms(1) by simp
qed

lemma ids_del:
  assumes "finite (dom m)" "m n = Some v"
  shows "image_mset (\<lambda>i. f (the ((m(n := None)) i))) (mset_set (dom (m(n := None)))) = image_mset (\<lambda>i. f (the (m i))) (mset_set (dom m)) - {#f v#}"
proof -
  have "(m(n := None))(n \<mapsto> v) = m" using assms(2) by auto
  hence "image_mset (\<lambda>i. f (the (m i))) (mset_set (dom m)) =
    add_mset (f v) (image_mset (\<lambda>i. f (the ((m(n := None)) i))) (mset_set (dom (m(n := None)))))"
    using ids_new[of "m(n := None)" n f v] assms(1) by simp
  thus ?thesis by simp
qed

lemma mounted_new: "finite (dom M) \<Longrightarrow> M n = None \<Longrightarrow> mounted (M(n \<mapsto> mt)) = add_mset (mount_id mt) (mounted M)"
  unfolding mounted_def by (rule ids_new)

lemma mounted_del: "finite (dom M) \<Longrightarrow> M n = Some mt \<Longrightarrow> mounted (M(n := None)) = mounted M - {#mount_id mt#}"
  unfolding mounted_def by (rule ids_del)

lemma opened_new: "finite (dom F) \<Longrightarrow> F n = None \<Longrightarrow> opened M (F(n \<mapsto> ff)) = add_mset (file_id M ff) (opened M F)"
  unfolding opened_def by (rule ids_new)

lemma opened_del: "finite (dom F) \<Longrightarrow> F n = Some ff \<Longrightarrow> opened M (F(n := None)) = opened M F - {#file_id M ff#}"
  unfolding opened_def by (rule ids_del)

lemma opened_cong:
  assumes "finite (dom F)" "\<And>f ff. F f = Some ff \<Longrightarrow> file_id M' ff = file_id M ff"
  shows "opened M' F = opened M F"
  unfolding opened_def using assms by (intro image_mset_cong) auto

lemma refs_upd:
  assumes "M m = Some mt"
  shows "mounted (M(m \<mapsto> mt\<lparr>fm_refs := r\<rparr>)) = mounted M" "users (M(m \<mapsto> mt\<lparr>fm_refs := r\<rparr>)) = users M"
    "opened (M(m \<mapsto> mt\<lparr>fm_refs := r\<rparr>)) F = opened M F"
proof -
  have d: "dom (M(m \<mapsto> mt\<lparr>fm_refs := r\<rparr>)) = dom M" using assms by auto
  have "(\<lambda>i. mount_id (the ((M(m \<mapsto> mt\<lparr>fm_refs := r\<rparr>)) i))) = (\<lambda>i. mount_id (the (M i)))" using assms by (auto simp: mount_id_def)
  thus "mounted (M(m \<mapsto> mt\<lparr>fm_refs := r\<rparr>)) = mounted M" unfolding mounted_def d by simp
  show "users (M(m \<mapsto> mt\<lparr>fm_refs := r\<rparr>)) = users M" using assms by (auto simp: users_def fun_eq_iff)
  have "file_id (M(m \<mapsto> mt\<lparr>fm_refs := r\<rparr>)) = file_id M" using assms by (auto simp: file_id_def Let_def fun_eq_iff)
  thus "opened (M(m \<mapsto> mt\<lparr>fm_refs := r\<rparr>)) F = opened M F" unfolding opened_def by simp
qed

lemma refs_key:
  assumes "M m = Some mt" "(M(m \<mapsto> mt\<lparr>fm_refs := r\<rparr>)) i = Some mt1"
  shows "\<exists>mt0. M i = Some mt0 \<and> fm_type mt0 = fm_type mt1 \<and> fm_cookie mt0 = fm_cookie mt1"
  using assms by (cases "i = m") auto

lemma users_new: "M n = None \<Longrightarrow> users (M(n \<mapsto> mt)) d = (if d = fm_dev mt then insert n (users M d) else users M d)"
  by (auto simp: users_def)

lemma users_del: "M n = Some mt \<Longrightarrow> users (M(n := None)) d = users M d - (if d = fm_dev mt then {n} else {})"
  by (auto simp: users_def)

lemma users_count_new:
  assumes "finite (dom M)" "M n = None"
  shows "(\<lambda>d. H d + card (users (M(n \<mapsto> mt)) d)) = (\<lambda>d. H d + card (users M d))(fm_dev mt := Suc (H (fm_dev mt) + card (users M (fm_dev mt))))"
proof
  fix d
  have "n \<notin> users M d" "finite (users M d)" using assms finite_subset[OF _ assms(1), of "users M d"] by (auto simp: users_def)
  thus "H d + card (users (M(n \<mapsto> mt)) d) = ((\<lambda>d. H d + card (users M d))(fm_dev mt := Suc (H (fm_dev mt) + card (users M (fm_dev mt))))) d"
    using assms(2) by (auto simp: users_new)
qed

lemma users_count_del:
  assumes "finite (dom M)" "M n = Some mt"
  shows "(\<lambda>d. H d + card (users (M(n := None)) d)) = (\<lambda>d. H d + card (users M d))(fm_dev mt := H (fm_dev mt) + card (users M (fm_dev mt)) - 1)"
proof -
  have e: "(M(n := None))(n \<mapsto> mt) = M" using assms(2) by auto
  have "(\<lambda>d. H d + card (users M d)) = (\<lambda>d. H d + card (users (M(n := None)) d))(fm_dev mt := Suc (H (fm_dev mt) + card (users (M(n := None)) (fm_dev mt))))"
    using users_count_new[of "M(n := None)" n H mt, unfolded e] assms(1) by simp
  from fun_cong[OF this] have "H d + card (users M d) = (if d = fm_dev mt then Suc (H d + card (users (M(n := None)) d)) else H d + card (users (M(n := None)) d))" for d
    by (simp add: fun_upd_def)
  thus ?thesis by (simp add: fun_eq_iff)
qed

subsection \<open>The operations keep the invariant\<close>

lemma tables_okI:
  assumes "distinct ms" "set ms = dom M" "finite (dom F)" "\<And>i. n \<le> i \<Longrightarrow> M i = None \<and> F i = None" "\<And>m. M m = None \<Longrightarrow> A m = 0"
    "\<And>m mt. M m = Some mt \<Longrightarrow> mount_ok types A F m mt" "\<And>f ff. F f = Some ff \<Longrightarrow> M (ff_mount ff) \<noteq> None"
    "\<And>m m' mt mt'. M m = Some mt \<Longrightarrow> M m' = Some mt' \<Longrightarrow> fm_type mt = fm_type mt' \<Longrightarrow> fm_cookie mt = fm_cookie mt' \<Longrightarrow> m = m'"
  shows "tables_ok types A ms M F n"
  unfolding tables_ok_def using assms by blast

lemma tables_okD:
  assumes "tables_ok types A ms M F n"
  shows "distinct ms" "set ms = dom M" "n \<le> i \<Longrightarrow> M i = None" "n \<le> i \<Longrightarrow> F i = None" "M m = None \<Longrightarrow> A m = 0"
    "M m = Some mt \<Longrightarrow> mount_ok types A F m mt" "F f = Some ff \<Longrightarrow> M (ff_mount ff) \<noteq> None"
    "M m = Some mt \<Longrightarrow> M m' = Some mt' \<Longrightarrow> fm_type mt = fm_type mt' \<Longrightarrow> fm_cookie mt = fm_cookie mt' \<Longrightarrow> m = m'"
  using assms unfolding tables_ok_def by blast+

lemma add_mount_tables:
  assumes tab: "tables_ok types A ms M F n" and mt: "fm_refs mt = 1" "fm_type mt < length types" "terminated (fm_path mt)"
    and fresh: "\<forall>d. (fm_type mt, fm_cookie mt, d) \<notin># mounted M"
  shows "tables_ok types (A(n := 1)) (n # ms) (M(n \<mapsto> mt)) F (Suc n)"
proof (rule tables_okI)
  note d = tables_okD[OF tab]
  have n: "M n = None" using d(3) by simp
  have nf: "ff_mount ff \<noteq> n" if "F f = Some ff" for f ff using d(7)[OF that] n by metis
  have fr: False if "M m = Some mt'" "fm_type mt = fm_type mt'" "fm_cookie mt = fm_cookie mt'" for m mt'
    using mounted_member[OF tab that(1)] fresh that(2,3) by (simp add: mount_id_def)
  show "distinct (n # ms)" "set (n # ms) = dom (M(n \<mapsto> mt))" using d(1,2) n by auto
  show "finite (dom F)" by (rule finite_files[OF tab])
  show "(M(n \<mapsto> mt)) i = None \<and> F i = None" if "Suc n \<le> i" for i using that d(3,4) by auto
  show "(A(n := 1)) m = 0" if "(M(n \<mapsto> mt)) m = None" for m using that d(5) by (auto split: if_splits)
  have "files_of F n = {}" using nf by (auto simp: files_of_def)
  thus "mount_ok types (A(n := 1)) F m mt'" if "(M(n \<mapsto> mt)) m = Some mt'" for m mt'
    using that mt d(6)[of m mt'] by (auto simp: mount_ok_def split: if_splits)
  show "(M(n \<mapsto> mt)) (ff_mount ff) \<noteq> None" if "F f = Some ff" for f ff using d(7)[OF that] by simp
  show "m = m'" if h: "(M(n \<mapsto> mt)) m = Some mt1" "(M(n \<mapsto> mt)) m' = Some mt2" "fm_type mt1 = fm_type mt2" "fm_cookie mt1 = fm_cookie mt2" for m m' mt1 mt2
  proof (rule ccontr)
    assume ne: "m \<noteq> m'"
    show False
    proof (cases "m = n \<or> m' = n")
      case True
      then obtain j mt' where "M j = Some mt'" "fm_type mt = fm_type mt'" "fm_cookie mt = fm_cookie mt'"
        using h ne by (metis fun_upd_apply option.inject)
      thus False by (rule fr)
    next
      case False
      thus False using h ne d(8)[of m mt1 m' mt2] by simp
    qed
  qed
qed

lemma add_mount_inv:
  assumes inv: "fs_inv types I H A s" and mt: "fm_refs mt = 1" "fm_type mt < length types" "terminated (fm_path mt)"
    and fresh: "\<forall>d. (fm_type mt, fm_cookie mt, d) \<notin># mounted (fs_mounts s)"
    and b: "bio_inv ((\<lambda>d. H d + card (users (fs_mounts s) d))(fm_dev mt := Suc (H (fm_dev mt) + card (users (fs_mounts s) (fm_dev mt))))) b"
    and x: "I (add_mset (mount_id mt) (mounted (fs_mounts s))) (opened (fs_mounts s) (fs_files s)) x"
  shows "fs_inv types I H (A(fs_next s := 1)) (add_mount mt (s\<lparr>fs_world := (b, x)\<rparr>))"
proof -
  let ?M = "fs_mounts s" let ?F = "fs_files s" let ?n = "fs_next s"
  note tab = fs_inv_tables[OF inv]
  have n: "?M ?n = None" using tables_okD(3)[OF tab] by simp
  have fm: "finite (dom ?M)" by (rule finite_mounts[OF tab])
  have "ff_mount ff \<noteq> ?n" if "?F f = Some ff" for f ff using tables_okD(7)[OF tab that] n by metis
  hence "opened (?M(?n \<mapsto> mt)) ?F = opened ?M ?F" by (intro opened_cong[OF finite_files[OF tab]]) (auto simp: file_id_def)
  hence "world_ok I H (?M(?n \<mapsto> mt)) ?F (b, x)" using b x mounted_new[OF fm n] users_count_new[OF fm n] by (simp add: world_ok_def)
  thus ?thesis using add_mount_tables[OF tab mt fresh] by (simp add: fs_inv_def add_mount_def)
qed

lemma files_of_new: "F n = None \<Longrightarrow> files_of (F(n \<mapsto> ff)) m = (if ff_mount ff = m then insert n (files_of F m) else files_of F m)"
  by (auto simp: files_of_def)

lemma finite_files_of: "finite (dom F) \<Longrightarrow> finite (files_of F m)"
  by (rule finite_subset[of _ "dom F"]) (auto simp: files_of_def)

lemma add_file_tables:
  assumes tab: "tables_ok types A ms M F n" and mt: "M m = Some mt"
  shows "tables_ok types A ms (M(m \<mapsto> mt\<lparr>fm_refs := fm_refs mt + 1\<rparr>)) (F(n \<mapsto> \<lparr>ff_cookie = c, ff_mount = m\<rparr>)) (Suc n)"
proof (rule tables_okI)
  note d = tables_okD[OF tab]
  let ?M = "M(m \<mapsto> mt\<lparr>fm_refs := fm_refs mt + 1\<rparr>)" let ?F = "F(n \<mapsto> \<lparr>ff_cookie = c, ff_mount = m\<rparr>)"
  have n: "F n = None" "M n = None" using d(3,4) by simp_all
  have mn: "m < n" using d(3)[of m] mt by (metis leI option.distinct(1))
  have nf: "n \<notin> files_of F j" for j using n by (simp add: files_of_def)
  have c: "card (files_of ?F j) = (if j = m then Suc (card (files_of F j)) else card (files_of F j))" for j
    using nf finite_files_of[OF finite_files[OF tab]] n(1) by (simp add: files_of_new)
  show "distinct ms" "set ms = dom ?M" using d(1,2) mt by auto
  show "finite (dom ?F)" using finite_files[OF tab] by simp
  show "?M i = None \<and> ?F i = None" if "Suc n \<le> i" for i using that d(3,4) mn by auto
  show "A j = 0" if "?M j = None" for j using that d(5) by (auto split: if_splits)
  show "mount_ok types A ?F j mt'" if "?M j = Some mt'" for j mt'
  proof (cases "j = m")
    case True
    thus ?thesis using that d(6)[OF mt] c[of j] by (auto simp: mount_ok_def)
  next
    case False
    thus ?thesis using that d(6)[of j mt'] c[of j] by (simp add: mount_ok_def)
  qed
  show "?M (ff_mount ff) \<noteq> None" if "?F f = Some ff" for f ff using that d(7)[of f ff] by (auto split: if_splits)
  show "i = j" if "?M i = Some mt1" "?M j = Some mt2" "fm_type mt1 = fm_type mt2" "fm_cookie mt1 = fm_cookie mt2" for i j mt1 mt2
    using refs_key[OF mt that(1)] refs_key[OF mt that(2)] d(8)[of i _ j] that(3,4) by metis
qed

lemma add_file_inv:
  assumes inv: "fs_inv types I H A s" and mt: "fs_mounts s m = Some mt"
    and b: "bio_inv (\<lambda>d. H d + card (users (fs_mounts s) d)) b"
    and x: "I (mounted (fs_mounts s)) (add_mset (fm_type mt, c, fm_cookie mt) (opened (fs_mounts s) (fs_files s))) x"
  shows "\<exists>f s'. add_file m c (s\<lparr>fs_world := (b, x)\<rparr>) = Some (0, Some f, s') \<and> fs_inv types I H A s' \<and> fs_files s' f \<noteq> None"
proof -
  note tab = fs_inv_tables[OF inv]
  have n: "fs_files s (fs_next s) = None" using tables_okD(4)[OF tab] by simp
  have "world_ok I H ((fs_mounts s)(m \<mapsto> mt\<lparr>fm_refs := fm_refs mt + 1\<rparr>)) ((fs_files s)(fs_next s \<mapsto> \<lparr>ff_cookie = c, ff_mount = m\<rparr>)) (b, x)"
    using b x opened_new[OF finite_files[OF tab] n, of "fs_mounts s"] mt by (simp add: world_ok_def refs_upd[where M = "fs_mounts s", OF mt] file_id_def)
  thus ?thesis using add_file_tables[OF tab mt] mt by (simp add: add_file_def fs_inv_def)
qed

text \<open>Taking a reference away from a mount.\<close>

lemma drop_ref_tables:
  assumes tab: "tables_ok types A ms M F n" and mt: "M m = Some mt" and a: "0 < A m" "fm_refs mt \<noteq> 1"
  shows "tables_ok types (A(m := A m - 1)) ms (M(m \<mapsto> mt\<lparr>fm_refs := fm_refs mt - 1\<rparr>)) F n"
proof (rule tables_okI)
  note d = tables_okD[OF tab]
  let ?M = "M(m \<mapsto> mt\<lparr>fm_refs := fm_refs mt - 1\<rparr>)"
  show "distinct ms" "set ms = dom ?M" using d(1,2) mt by auto
  show "finite (dom F)" by (rule finite_files[OF tab])
  show "?M i = None \<and> F i = None" if "n \<le> i" for i using that d(3,4)[of i] mt by auto
  show "(A(m := A m - 1)) j = 0" if "?M j = None" for j using that d(5) by (auto split: if_splits)
  show "mount_ok types (A(m := A m - 1)) F j mt'" if "?M j = Some mt'" for j mt'
  proof (cases "j = m")
    case True
    have "mount_ok types A F m mt" by (rule d(6)[OF mt])
    thus ?thesis using that a True by (auto simp: mount_ok_def)
  qed (use that d(6)[of j mt'] in \<open>simp add: mount_ok_def\<close>)
  show "?M (ff_mount ff) \<noteq> None" if "F f = Some ff" for f ff using d(7)[OF that] by simp
  show "i = j" if "?M i = Some mt1" "?M j = Some mt2" "fm_type mt1 = fm_type mt2" "fm_cookie mt1 = fm_cookie mt2" for i j mt1 mt2
    using refs_key[OF mt that(1)] refs_key[OF mt that(2)] d(8)[of i _ j] that(3,4) by metis
qed

lemma free_tables:
  assumes tab: "tables_ok types A ms M F n" and mt: "M m = Some mt" and a: "0 < A m" "fm_refs mt = 1"
  shows "tables_ok types (A(m := A m - 1)) (remove1 m ms) (M(m := None)) F n" "F f = Some ff \<Longrightarrow> ff_mount ff \<noteq> m"
proof -
  note d = tables_okD[OF tab]
  have "mount_ok types A F m mt" by (rule d(6)[OF mt])
  hence z: "A m = 1" "card (files_of F m) = 0" using a by (auto simp: mount_ok_def)
  hence "files_of F m = {}" using finite_files_of[OF finite_files[OF tab]] by simp
  hence nf: "ff_mount ff \<noteq> m" if "F f = Some ff" for f ff using that by (auto simp: files_of_def)
  thus "F f = Some ff \<Longrightarrow> ff_mount ff \<noteq> m" .
  show "tables_ok types (A(m := A m - 1)) (remove1 m ms) (M(m := None)) F n"
  proof (rule tables_okI)
    show "distinct (remove1 m ms)" "set (remove1 m ms) = dom (M(m := None))" using d(1,2) by auto
    show "finite (dom F)" by (rule finite_files[OF tab])
    show "(M(m := None)) i = None \<and> F i = None" if "n \<le> i" for i using that d(3,4) by simp
    show "(A(m := A m - 1)) j = 0" if "(M(m := None)) j = None" for j using that d(5) z by (auto split: if_splits)
    show "mount_ok types (A(m := A m - 1)) F j mt'" if "(M(m := None)) j = Some mt'" for j mt'
      using that d(6)[of j mt'] by (auto simp: mount_ok_def split: if_splits)
    show "(M(m := None)) (ff_mount ff) \<noteq> None" if "F f = Some ff" for f ff using d(7)[OF that] nf[OF that] by simp
    show "i = j" if "(M(m := None)) i = Some mt1" "(M(m := None)) j = Some mt2" "fm_type mt1 = fm_type mt2" "fm_cookie mt1 = fm_cookie mt2" for i j mt1 mt2
      using that d(8)[of i mt1 j mt2] by (auto split: if_splits)
  qed
qed

lemma no_open_files:
  assumes tab: "tables_ok types A ms M F n" and mt: "M m = Some mt" and nf: "\<And>f ff. F f = Some ff \<Longrightarrow> ff_mount ff \<noteq> m"
  shows "(fm_type mt, g, fm_cookie mt) \<notin># opened M F"
proof
  assume "(fm_type mt, g, fm_cookie mt) \<in># opened M F"
  then obtain f where f: "f \<in># mset_set (dom F)" "(fm_type mt, g, fm_cookie mt) = file_id M (the (F f))" unfolding opened_def by auto
  then obtain ff where ff: "F f = Some ff" using finite_files[OF tab] by auto
  obtain mt' where mt': "M (ff_mount ff) = Some mt'" using tables_okD(7)[OF tab ff] by blast
  hence "fm_type mt = fm_type mt'" "fm_cookie mt = fm_cookie mt'" using f(2) ff by (simp_all add: file_id_def)
  thus False using tables_okD(8)[OF tab mt mt'] nf[OF ff] by simp
qed

lemma put_mount_inv:
  assumes d: "drivers_ok types I" and inv: "fs_inv types I H A s" and a: "0 < A m"
  shows "\<exists>s'. put_mount types m s = Some s' \<and> fs_inv types I H (A(m := A m - 1)) s' \<and> fs_files s' = fs_files s"
proof -
  let ?M = "fs_mounts s" let ?F = "fs_files s" let ?K = "\<lambda>d. H d + card (users ?M d)"
  note tab = fs_inv_tables[OF inv]
  obtain mt where mt: "?M m = Some mt" using tables_okD(5)[OF tab, of m] a by (cases "?M m") auto
  show ?thesis
  proof (cases "fm_refs mt = 1")
    case False
    have "world_ok I H (?M(m \<mapsto> mt\<lparr>fm_refs := fm_refs mt - 1\<rparr>)) ?F (fs_world s)"
      using inv by (simp add: fs_inv_def world_ok_def refs_upd[where M = ?M, OF mt])
    thus ?thesis using drop_ref_tables[OF tab mt a False] mt False by (simp add: put_mount_def fs_inv_def)
  next
    case True
    note ft = free_tables[OF tab mt a True]
    note fm = finite_mounts[OF tab]
    have mi: "(fm_type mt, fm_cookie mt, fm_dev mt) \<in># mounted ?M" using mounted_member[OF tab mt] by (simp add: mount_id_def)
    have "answers ?K (ft_unmount (types ! fm_type mt) (fm_cookie mt)) (fs_world s) (\<lambda>_. I (mounted ?M - {#mount_id mt#}) (opened ?M ?F))"
      using driver_okD(2)[OF driver_here[OF d inv tables_mount(1)[OF tab mt]] mi no_open_files[OF tab mt ft(2)]] by (simp add: mount_id_def)
    then obtain r b x where u: "ft_unmount (types ! fm_type mt) (fm_cookie mt) (fs_world s) = Some (r, (b, x))" "bio_inv ?K b"
      "I (mounted ?M - {#mount_id mt#}) (opened ?M ?F) x" unfolding answers_def by blast
    have "0 < ?K (fm_dev mt)" using users_pos[OF tab mt] by simp
    from dec_ref_inv[OF u(2) this] obtain b' where b': "bio_close (fm_dev mt) b = Some b'" "bio_inv (?K(fm_dev mt := ?K (fm_dev mt) - 1)) b'"
      unfolding bio_close_def by blast
    have "opened (?M(m := None)) ?F = opened ?M ?F"
      using ft(2) by (intro opened_cong[OF finite_files[OF tab]]) (simp add: file_id_def)
    hence "world_ok I H (?M(m := None)) ?F (b', x)"
      using b'(2) u(3) mounted_del[OF fm mt] users_count_del[OF fm mt] by (simp add: world_ok_def)
    thus ?thesis using ft(1) mt True u(1) b'(1) by (simp add: put_mount_def fs_inv_def)
  qed
qed

lemma remove_file_tables:
  assumes tab: "tables_ok types A ms M F n" and f: "F f = Some ff" "ff_mount ff = m"
  shows "tables_ok types (A(m := Suc (A m))) ms M (F(f := None)) n"
proof (rule tables_okI)
  note d = tables_okD[OF tab]
  have fo: "files_of F m = insert f (files_of (F(f := None)) m)" "f \<notin> files_of (F(f := None)) m"
    "j \<noteq> m \<Longrightarrow> files_of (F(f := None)) j = files_of F j" for j using f by (auto simp: files_of_def)
  have c: "card (files_of F m) = Suc (card (files_of (F(f := None)) m))"
    using fo(1,2) finite_files_of[OF finite_files[OF tab], of m] by simp
  show "distinct ms" "set ms = dom M" by (rule d(1), rule d(2))
  show "finite (dom (F(f := None)))" using finite_files[OF tab] by simp
  show "M i = None \<and> (F(f := None)) i = None" if "n \<le> i" for i using that d(3,4) by simp
  show "(A(m := Suc (A m))) j = 0" if "M j = None" for j using that d(5)[OF that] d(7)[OF f(1)] f(2) by auto
  show "mount_ok types (A(m := Suc (A m))) (F(f := None)) j mt" if "M j = Some mt" for j mt
    using d(6)[OF that] c fo(3)[of j] by (cases "j = m") (simp_all add: mount_ok_def)
  show "M (ff_mount g) \<noteq> None" if "(F(f := None)) h = Some g" for g h using that d(7)[of h g] by (simp split: if_splits)
  show "i = j" if "M i = Some mt1" "M j = Some mt2" "fm_type mt1 = fm_type mt2" "fm_cookie mt1 = fm_cookie mt2" for i j mt1 mt2
    using d(8)[OF that] .
qed

lemma put_mount_files: "put_mount types m s = Some s' \<Longrightarrow> put_mount types m (s\<lparr>fs_files := X\<rparr>) = Some (s'\<lparr>fs_files := X\<rparr>)"
proof -
  assume p: "put_mount types m s = Some s'"
  then obtain mt where mt: "fs_mounts s m = Some mt" by (cases "fs_mounts s m") (simp_all add: put_mount_def)
  show ?thesis
  proof (cases "fm_refs mt = 1")
    case True
    obtain r w where u: "ft_unmount (types ! fm_type mt) (fm_cookie mt) (fs_world s) = Some (r, w)"
      using p mt True by (cases "ft_unmount (types ! fm_type mt) (fm_cookie mt) (fs_world s)") (auto simp: put_mount_def)
    obtain b where b: "bio_close (fm_dev mt) (fst w) = Some b"
      using p mt True u by (cases "bio_close (fm_dev mt) (fst w)") (auto simp: put_mount_def)
    show ?thesis using p mt True u b by (auto simp: put_mount_def)
  next
    case False
    show ?thesis using p mt False by (auto simp: put_mount_def)
  qed
qed

lemma file_mount_ok:
  assumes "fs_inv types I H A s" "fs_files s f = Some ff"
  obtains mt where "file_mount f s = Some (ff, mt)" "fs_mounts s (ff_mount ff) = Some mt" "fm_type mt < length types"
    "(fm_type mt, ff_cookie ff, fm_cookie mt) \<in># opened (fs_mounts s) (fs_files s)"
proof -
  note tab = fs_inv_tables[OF assms(1)]
  obtain mt where mt: "fs_mounts s (ff_mount ff) = Some mt" using tables_okD(7)[OF tab assms(2)] by blast
  show thesis by (rule that[OF _ mt tables_mount(1)[OF tab mt] opened_member[OF tab assms(2) mt]]) (use assms(2) mt in \<open>simp add: file_mount_def\<close>)
qed

lemma answers_world:
  assumes "fs_inv types I H A s" "answers (\<lambda>d. H d + card (users (fs_mounts s) d)) op (fs_world s) (\<lambda>_. I (mounted (fs_mounts s)) (opened (fs_mounts s) (fs_files s)))"
  shows "\<exists>r w. op (fs_world s) = Some (r, w) \<and> fs_inv types I H A (s\<lparr>fs_world := w\<rparr>)"
  using assms inv_world[OF assms(1)] unfolding answers_def world_ok_def by fastforce

lemma fs_close_file_inv:
  assumes d: "drivers_ok types I" and inv: "fs_inv types I H A s" and f: "fs_files s f = Some ff"
  shows "\<exists>err s'. fs_close_file types f s = Some (err, s') \<and> fs_inv types I H A s'"
proof -
  let ?M = "fs_mounts s" let ?F = "fs_files s" let ?K = "\<lambda>d. H d + card (users ?M d)" let ?m = "ff_mount ff"
  note tab = fs_inv_tables[OF inv]
  obtain mt where mt: "file_mount f s = Some (ff, mt)" "?M ?m = Some mt" "fm_type mt < length types"
    "(fm_type mt, ff_cookie ff, fm_cookie mt) \<in># opened ?M ?F" by (rule file_mount_ok[OF inv f])
  from driver_okD(9)[OF driver_here[OF d inv mt(3)] mt(4)]
  obtain err b x where c: "ft_close (types ! fm_type mt) (ff_cookie ff) (fs_world s) = Some (err, (b, x))" "bio_inv ?K b"
    "I (mounted ?M) (if err < 0 then opened ?M ?F else opened ?M ?F - {#(fm_type mt, ff_cookie ff, fm_cookie mt)#}) x"
    unfolding answers_def by blast
  show ?thesis
  proof (cases "err < 0")
    case True
    have "world_ok I H ?M ?F (b, x)" using c(2,3) True by (simp add: world_ok_def)
    from inv_world[OF inv this] show ?thesis using mt(1) c(1) True by (simp add: fs_close_file_def)
  next
    case False
    let ?s = "s\<lparr>fs_world := (b, x)\<rparr>" let ?F' = "?F(f := None)"
    have "opened ?M ?F' = opened ?M ?F - {#(fm_type mt, ff_cookie ff, fm_cookie mt)#}"
      using opened_del[OF finite_files[OF tab] f, of ?M] mt(2) by (simp add: file_id_def)
    hence "world_ok I H ?M ?F' (b, x)" using c(2,3) False by (simp add: world_ok_def)
    hence inv': "fs_inv types I H (A(?m := Suc (A ?m))) (?s\<lparr>fs_files := ?F'\<rparr>)"
      using remove_file_tables[OF tab f refl] by (simp add: fs_inv_def)
    obtain s' where s': "put_mount types ?m (?s\<lparr>fs_files := ?F'\<rparr>) = Some s'" "fs_inv types I H A s'" "fs_files s' = ?F'"
      using put_mount_inv[OF d inv', of ?m] by auto
    have "put_mount types ?m ?s = Some (s'\<lparr>fs_files := ?F\<rparr>)" using put_mount_files[OF s'(1), of ?F] by simp
    hence "fs_close_file types f s = Some (0, s'\<lparr>fs_files := ?F'\<rparr>)" using mt(1) c(1) False by (simp add: fs_close_file_def)
    moreover have "s'\<lparr>fs_files := ?F'\<rparr> = s'" using s'(3) by simp
    ultimately show ?thesis using s'(2) by simp
  qed
qed

lemma opens_file_inv:
  assumes inv: "fs_inv types I H A s" and mt: "fs_mounts s m = Some mt" and p: "terminated np"
    and o: "opens_file I (fm_type mt) (\<lambda>d. H d + card (users (fs_mounts s) d)) (mounted (fs_mounts s)) (opened (fs_mounts s) (fs_files s)) (fs_world s) op"
  shows "\<exists>err f s'. do { ((err, cookie), w) \<leftarrow> op (fm_cookie mt) np (fs_world s);
      if err < 0 then Some (err, None, s\<lparr>fs_world := w\<rparr>) else add_file m cookie (s\<lparr>fs_world := w\<rparr>) } = Some (err, f, s') \<and>
    fs_inv types I H A s' \<and> (\<forall>h. f = Some h \<longrightarrow> fs_files s' h \<noteq> None)"
proof -
  let ?M = "fs_mounts s" let ?F = "fs_files s" let ?K = "\<lambda>d. H d + card (users ?M d)"
  have "(fm_type mt, fm_cookie mt, fm_dev mt) \<in># mounted ?M"
    using mounted_member[OF fs_inv_tables[OF inv] mt] by (simp add: mount_id_def)
  hence "answers ?K (op (fm_cookie mt) np) (fs_world s) (\<lambda>(err, f). I (mounted ?M) (if err < 0 then opened ?M ?F else add_mset (fm_type mt, f, fm_cookie mt) (opened ?M ?F)))"
    using o p unfolding opens_file_def by blast
  then obtain err c b x where r: "op (fm_cookie mt) np (fs_world s) = Some ((err, c), (b, x))" "bio_inv ?K b"
    "I (mounted ?M) (if err < 0 then opened ?M ?F else add_mset (fm_type mt, c, fm_cookie mt) (opened ?M ?F)) x"
    unfolding answers_def by auto
  show ?thesis
  proof (cases "err < 0")
    case True
    have "world_ok I H ?M ?F (b, x)" using r(2,3) True by (simp add: world_ok_def)
    from inv_world[OF inv this] show ?thesis using r(1) True by simp
  next
    case False
    thus ?thesis using add_file_inv[OF inv mt r(2), of c x] r(1,3) by auto
  qed
qed

lemma found_mount:
  assumes "fs_inv types I H A s" "terminated path"
  obtains tmp where "temppath path = Some tmp" "find_mount tmp s = Some None"
  | tmp m np mt where "temppath path = Some tmp" "find_mount tmp s = Some (Some (m, np))" "fs_mounts s m = Some mt" "terminated np" "fm_type mt < length types"
proof -
  obtain tmp where t: "temppath path = Some tmp" "terminated tmp" using temppath_ok[OF assms(2)] by blast
  obtain r where r: "find_mount tmp s = Some r" "found_ok (mounts s) s r" using find_mount_ok[OF assms(1) t(2)] by blast
  show thesis
  proof (cases r)
    case None
    thus thesis using that(1) t(1) r(1) by simp
  next
    case (Some x)
    obtain m np where x: "x = (m, np)" by (cases x)
    obtain mt where mt: "fs_mounts s m = Some mt" "terminated np" using r(2) Some x by (auto simp: found_ok_def)
    show thesis using that(2)[OF t(1) _ mt tables_mount(1)[OF fs_inv_tables[OF assms(1)] mt(1)]] r(1) Some x by simp
  qed
qed

lemma fs_open_file_inv:
  assumes d: "drivers_ok types I" and inv: "fs_inv types I H A s" and p: "terminated path"
  shows "\<exists>err f s'. fs_open_file types path s = Some (err, f, s') \<and> fs_inv types I H A s' \<and> (\<forall>h. f = Some h \<longrightarrow> fs_files s' h \<noteq> None)"
proof (rule found_mount[OF inv p])
  fix tmp assume "temppath path = Some tmp" "find_mount tmp s = Some None"
  thus ?thesis using inv by (simp add: fs_open_file_def)
next
  fix tmp m np mt assume a: "temppath path = Some tmp" "find_mount tmp s = Some (Some (m, np))" "fs_mounts s m = Some mt" "terminated np" "fm_type mt < length types"
  from opens_file_inv[OF inv a(3,4) driver_okD(3)[OF driver_here[OF d inv a(5)]]] a show ?thesis by (simp add: fs_open_file_def)
qed

lemma fs_create_file_inv:
  assumes d: "drivers_ok types I" and inv: "fs_inv types I H A s" and p: "terminated path"
  shows "\<exists>err f s'. fs_create_file types path s = Some (err, f, s') \<and> fs_inv types I H A s'"
proof (rule found_mount[OF inv p])
  fix tmp assume "temppath path = Some tmp" "find_mount tmp s = Some None"
  thus ?thesis using inv by (simp add: fs_create_file_def)
next
  fix tmp m np mt assume a: "temppath path = Some tmp" "find_mount tmp s = Some (Some (m, np))" "fs_mounts s m = Some mt" "terminated np" "fm_type mt < length types"
  show ?thesis
  proof (cases "ft_create (types ! fm_type mt)")
    case None
    thus ?thesis using a inv by (simp add: fs_create_file_def)
  next
    case (Some create)
    from opens_file_inv[OF inv a(3,4) driver_okD(4)[OF driver_here[OF d inv a(5)] Some]] a Some show ?thesis by (auto simp: fs_create_file_def)
  qed
qed

lemma fs_make_dir_inv:
  assumes d: "drivers_ok types I" and inv: "fs_inv types I H A s" and p: "terminated path"
  shows "\<exists>err s'. fs_make_dir types path s = Some (err, s') \<and> fs_inv types I H A s'"
proof (rule found_mount[OF inv p])
  fix tmp assume "temppath path = Some tmp" "find_mount tmp s = Some None"
  thus ?thesis using inv by (simp add: fs_make_dir_def)
next
  fix tmp m np mt assume a: "temppath path = Some tmp" "find_mount tmp s = Some (Some (m, np))" "fs_mounts s m = Some mt" "terminated np" "fm_type mt < length types"
  show ?thesis
  proof (cases "ft_mkdir (types ! fm_type mt)")
    case None
    thus ?thesis using a inv by (simp add: fs_make_dir_def)
  next
    case (Some mkdir)
    have "(fm_type mt, fm_cookie mt, fm_dev mt) \<in># mounted (fs_mounts s)"
      using mounted_member[OF fs_inv_tables[OF inv] a(3)] by (simp add: mount_id_def)
    from answers_world[OF inv driver_okD(5)[OF driver_here[OF d inv a(5)] Some this a(4)]] a Some show ?thesis by (auto simp: fs_make_dir_def)
  qed
qed

lemma fs_file_ops_inv:
  assumes d: "drivers_ok types I" and inv: "fs_inv types I H A s" and f: "fs_files s f = Some ff"
  shows "\<exists>r w. fs_read_file types f off len s = Some (r, s\<lparr>fs_world := w\<rparr>) \<and> fs_inv types I H A (s\<lparr>fs_world := w\<rparr>)"
    "\<exists>r w. fs_stat_file types f s = Some (r, s\<lparr>fs_world := w\<rparr>) \<and> fs_inv types I H A (s\<lparr>fs_world := w\<rparr>)"
    "\<exists>r s'. fs_write_file types f buf off len s = Some (r, s') \<and> fs_inv types I H A s'"
proof -
  obtain mt where mt: "file_mount f s = Some (ff, mt)" "fs_mounts s (ff_mount ff) = Some mt" "fm_type mt < length types"
    "(fm_type mt, ff_cookie ff, fm_cookie mt) \<in># opened (fs_mounts s) (fs_files s)" by (rule file_mount_ok[OF inv f])
  note dr = driver_here[OF d inv mt(3)]
  show "\<exists>r w. fs_read_file types f off len s = Some (r, s\<lparr>fs_world := w\<rparr>) \<and> fs_inv types I H A (s\<lparr>fs_world := w\<rparr>)"
  proof -
    obtain r w where "ft_read (types ! fm_type mt) (ff_cookie ff) off len (fs_world s) = Some (r, w)" "fs_inv types I H A (s\<lparr>fs_world := w\<rparr>)"
      using answers_world[OF inv driver_okD(7)[OF dr mt(4), of off len]] by blast
    thus ?thesis using mt(1) by (intro exI[of _ r] exI[of _ w]) (simp add: fs_read_file_def)
  qed
  show "\<exists>r w. fs_stat_file types f s = Some (r, s\<lparr>fs_world := w\<rparr>) \<and> fs_inv types I H A (s\<lparr>fs_world := w\<rparr>)"
  proof -
    obtain r w where "ft_stat (types ! fm_type mt) (ff_cookie ff) (fs_world s) = Some (r, w)" "fs_inv types I H A (s\<lparr>fs_world := w\<rparr>)"
      using answers_world[OF inv driver_okD(6)[OF dr mt(4)]] by blast
    thus ?thesis using mt(1) by (intro exI[of _ r] exI[of _ w]) (simp add: fs_stat_file_def)
  qed
  show "\<exists>r s'. fs_write_file types f buf off len s = Some (r, s') \<and> fs_inv types I H A s'"
  proof (cases "ft_write (types ! fm_type mt)")
    case None
    thus ?thesis using mt(1) inv by (simp add: fs_write_file_def)
  next
    case (Some wr)
    from answers_world[OF inv driver_okD(8)[OF dr mt(4) Some, of buf off len]] mt(1) Some show ?thesis by (auto simp: fs_write_file_def)
  qed
qed

lemma fs_load_file_inv:
  assumes d: "drivers_ok types I" and inv: "fs_inv types I H A s" and p: "terminated path"
  shows "\<exists>r s'. fs_load_file types path maxlen s = Some (r, s') \<and> fs_inv types I H A s'"
proof -
  obtain err f s1 where o: "fs_open_file types path s = Some (err, f, s1)" "fs_inv types I H A s1" "\<forall>h. f = Some h \<longrightarrow> fs_files s1 h \<noteq> None"
    using fs_open_file_inv[OF assms] by blast
  show ?thesis
  proof (cases f)
    case None
    thus ?thesis using o by (simp add: fs_load_file_def)
  next
    case (Some h)
    then obtain ff where ff: "fs_files s1 h = Some ff" using o(3) by blast
    obtain e di sz w where st: "fs_stat_file types h s1 = Some ((e, di, sz), s1\<lparr>fs_world := w\<rparr>)" "fs_inv types I H A (s1\<lparr>fs_world := w\<rparr>)"
      using fs_file_ops_inv(2)[OF d o(2) ff] by auto
    let ?s = "s1\<lparr>fs_world := w\<rparr>" let ?l = "if maxlen < sz then maxlen else sz"
    have ff2: "fs_files ?s h = Some ff" using ff by simp
    obtain r w2 where rd: "fs_read_file types h 0 ?l ?s = Some (r, ?s\<lparr>fs_world := w2\<rparr>)" "fs_inv types I H A (?s\<lparr>fs_world := w2\<rparr>)"
      using fs_file_ops_inv(1)[OF d st(2) ff2] by blast
    have ff3: "fs_files (?s\<lparr>fs_world := w2\<rparr>) h = Some ff" using ff by simp
    obtain e3 s3 where "fs_close_file types h (?s\<lparr>fs_world := w2\<rparr>) = Some (e3, s3)" "fs_inv types I H A s3"
      using fs_close_file_inv[OF d rd(2) ff3] by blast
    thus ?thesis using o(1) Some st(1) rd(1) by (simp add: fs_load_file_def)
  qed
qed

lemma error_neg: "ERR_BAD_PATH < 0" "ERR_ALREADY_MOUNTED < 0" "ERR_NOT_FOUND < 0"
  by (simp_all add: status_defs)

lemma mount_device_inv:
  assumes d: "drivers_ok types I" and inv: "fs_inv types I H A s" and i: "i < length types" and t: "temppath path = Some tmp"
    and f: "tmp ! 0 = 47" "find_mount tmp s = Some None"
    and o: "bio_open device (fst (fs_world s)) = Some (Some dev, b)" "bio_inv ((\<lambda>d. H d + card (users (fs_mounts s) d))(dev := Suc (H dev + card (users (fs_mounts s) dev)))) b"
  shows "\<exists>err s'. mount_at types path device i s = Some (err, s') \<and> fs_inv types I H (if err < 0 then A else A(fs_next s := 1)) s'"
proof -
  let ?M = "fs_mounts s" let ?F = "fs_files s" let ?k = "\<lambda>d. H d + card (users ?M d)" let ?K = "?k(dev := Suc (?k dev))"
  note tab = fs_inv_tables[OF inv]
  have "card (users ?M e) \<le> ?K e" for e by simp
  from driver_ready[OF d tab i this o(2)] inv
  have dr: "driver_ok I i (types ! i) ?K (mounted ?M) (opened ?M ?F) (b, snd (fs_world s))" by (simp add: fs_inv_def world_ok_def)
  obtain err c b2 x where m: "ft_mount (types ! i) dev (b, snd (fs_world s)) = Some ((err, c), (b2, x))" "bio_inv ?K b2"
    "if err < 0 then I (mounted ?M) (opened ?M ?F) x else (\<forall>d. (i, c, d) \<notin># mounted ?M) \<and> I (add_mset (i, c, dev) (mounted ?M)) (opened ?M ?F) x"
    using driver_okD(1)[OF dr, of dev] unfolding answers_def by auto
  show ?thesis
  proof (cases "err < 0")
    case True
    obtain b3 where b3: "bio_close dev b2 = Some b3" "bio_inv (?K(dev := ?K dev - 1)) b3"
      using dec_ref_inv[OF m(2), of dev] unfolding bio_close_def by auto
    have "?K(dev := ?K dev - 1) = ?k" by auto
    hence "world_ok I H ?M ?F (b3, x)" using b3(2) m(3) True by (simp add: world_ok_def)
    from inv_world[OF inv this] show ?thesis using t f o(1) m(1) b3(1) True by (simp add: mount_at_def)
  next
    case False
    let ?mt = "\<lparr>fm_path = cstr tmp @ [0], fm_dev = dev, fm_cookie = c, fm_refs = 1, fm_type = i\<rparr>"
    have "fs_inv types I H (A(fs_next s := 1)) (add_mount ?mt (s\<lparr>fs_world := (b2, x)\<rparr>))"
      by (rule add_mount_inv[OF inv]) (use m False i in \<open>simp_all add: mount_id_def terminated_def\<close>)
    thus ?thesis using t f o(1) m(1) False by (simp add: mount_at_def)
  qed
qed

lemma mount_at_inv:
  assumes d: "drivers_ok types I" and inv: "fs_inv types I H A s" and i: "i < length types" and p: "terminated path"
  shows "\<exists>err s'. mount_at types path device i s = Some (err, s') \<and> fs_inv types I H (if err < 0 then A else A(fs_next s := 1)) s'"
proof -
  let ?b = "fst (fs_world s)"
  obtain tmp where t: "temppath path = Some tmp" "terminated tmp" using temppath_ok[OF p] by blast
  obtain r where r: "find_mount tmp s = Some r" using find_mount_ok[OF inv t(2)] by blast
  consider "tmp ! 0 \<noteq> 47" | x where "tmp ! 0 = 47" "r = Some x" | "tmp ! 0 = 47" "r = None" by (cases r) auto
  thus ?thesis
  proof cases
    case 1
    thus ?thesis using t(1) inv error_neg by (simp add: mount_at_def)
  next
    case (2 x)
    thus ?thesis using t(1) r inv error_neg by (simp add: mount_at_def)
  next
    case 3
    have bi: "bio_inv (\<lambda>d. H d + card (users (fs_mounts s) d)) ?b" using inv by (simp add: fs_inv_def world_ok_def)
    from bio_open_inv[OF bi, of device] show ?thesis
    proof (elim disjE exE conjE)
      fix dev bd assume "bio_open device ?b = Some (Some dev, set_ref dev (bd_ref bd + 1) ?b)"
        "bio_inv ((\<lambda>d. H d + card (users (fs_mounts s) d))(dev := Suc (H dev + card (users (fs_mounts s) dev)))) (set_ref dev (bd_ref bd + 1) ?b)"
      thus ?thesis using mount_device_inv[OF d inv i t(1)] 3 r by simp
    next
      assume "bio_open device ?b = Some (None, ?b)"
      moreover have "s\<lparr>fs_world := (?b, snd (fs_world s))\<rparr> = s" by simp
      ultimately show ?thesis using 3 r t(1) inv error_neg by (simp add: mount_at_def)
    qed
  qed
qed

text \<open>The mount that a call of \<^verbatim>\<open>fs_unmount\<close> is about.\<close>

definition unmount_target :: "u8 list \<Rightarrow> 's fs \<Rightarrow> nat option" where
  "unmount_target path s = (case temppath path \<bind> (\<lambda>tmp. find_mount tmp s) of Some (Some (m, _)) \<Rightarrow> Some m | _ \<Rightarrow> None)"

definition release :: "nat option \<Rightarrow> (nat \<Rightarrow> nat) \<Rightarrow> nat \<Rightarrow> nat" where
  "release t A = (case t of None \<Rightarrow> A | Some m \<Rightarrow> A(m := A m - 1))"

lemma fs_unmount_inv:
  assumes d: "drivers_ok types I" and inv: "fs_inv types I H A s" and p: "terminated path"
    and a: "\<And>m. unmount_target path s = Some m \<Longrightarrow> 0 < A m"
  shows "\<exists>err s'. fs_unmount types path s = Some (err, s') \<and> fs_inv types I H (release (unmount_target path s) A) s'"
proof (rule found_mount[OF inv p])
  fix tmp assume "temppath path = Some tmp" "find_mount tmp s = Some None"
  thus ?thesis using inv by (simp add: fs_unmount_def unmount_target_def release_def)
next
  fix tmp m np mt assume f: "temppath path = Some tmp" "find_mount tmp s = Some (Some (m, np))"
  hence t: "unmount_target path s = Some m" by (simp add: unmount_target_def)
  from put_mount_inv[OF d inv a[OF t]] f t show ?thesis by (auto simp: fs_unmount_def release_def)
qed

subsection \<open>Histories\<close>

datatype fs_call =
    Fs_mount "u8 list" string
  | Fs_mount_type "u8 list" string "u8 list"
  | Fs_unmount "u8 list"
  | Fs_open "u8 list"
  | Fs_create "u8 list"
  | Fs_make_dir "u8 list"
  | Fs_read nat u64 u64
  | Fs_write nat "u8 list" u64 u64
  | Fs_stat nat
  | Fs_close nat
  | Fs_load "u8 list" u64

fun fs_perform :: "'s fs_type list \<Rightarrow> fs_call \<Rightarrow> (nat \<Rightarrow> nat) \<times> 's fs \<Rightarrow> ((nat \<Rightarrow> nat) \<times> 's fs) option" where
  "fs_perform types (Fs_mount path device) (A, s) = do {
     (err, s') \<leftarrow> fs_mount types path device s; Some (if err < 0 then A else A(fs_next s := 1), s') }"
| "fs_perform types (Fs_mount_type path device name) (A, s) = do {
     (err, s') \<leftarrow> fs_mount_type types path device name s; Some (if err < 0 then A else A(fs_next s := 1), s') }"
| "fs_perform types (Fs_unmount path) (A, s) = do { (_, s') \<leftarrow> fs_unmount types path s; Some (release (unmount_target path s) A, s') }"
| "fs_perform types (Fs_open path) (A, s) = do { (_, _, s) \<leftarrow> fs_open_file types path s; Some (A, s) }"
| "fs_perform types (Fs_create path) (A, s) = do { (_, _, s) \<leftarrow> fs_create_file types path s; Some (A, s) }"
| "fs_perform types (Fs_make_dir path) (A, s) = do { (_, s) \<leftarrow> fs_make_dir types path s; Some (A, s) }"
| "fs_perform types (Fs_read f off len) (A, s) = do { (_, s) \<leftarrow> fs_read_file types f off len s; Some (A, s) }"
| "fs_perform types (Fs_write f buf off len) (A, s) = do { (_, s) \<leftarrow> fs_write_file types f buf off len s; Some (A, s) }"
| "fs_perform types (Fs_stat f) (A, s) = do { (_, s) \<leftarrow> fs_stat_file types f s; Some (A, s) }"
| "fs_perform types (Fs_close f) (A, s) = do { (_, s) \<leftarrow> fs_close_file types f s; Some (A, s) }"
| "fs_perform types (Fs_load path maxlen) (A, s) = do { (_, s) \<leftarrow> fs_load_file types path maxlen s; Some (A, s) }"

text \<open>Paths are strings, a file is open when it is used, and a mount is unmounted at most once.\<close>

fun fs_allowed :: "fs_call \<Rightarrow> (nat \<Rightarrow> nat) \<times> 's fs \<Rightarrow> bool" where
  "fs_allowed (Fs_mount path device) (A, s) = terminated path"
| "fs_allowed (Fs_mount_type path device name) (A, s) = (terminated path \<and> terminated name)"
| "fs_allowed (Fs_unmount path) (A, s) = (terminated path \<and> (\<forall>m. unmount_target path s = Some m \<longrightarrow> 0 < A m))"
| "fs_allowed (Fs_open path) (A, s) = terminated path"
| "fs_allowed (Fs_create path) (A, s) = terminated path"
| "fs_allowed (Fs_make_dir path) (A, s) = terminated path"
| "fs_allowed (Fs_read f off len) (A, s) = (fs_files s f \<noteq> None)"
| "fs_allowed (Fs_write f buf off len) (A, s) = (fs_files s f \<noteq> None)"
| "fs_allowed (Fs_stat f) (A, s) = (fs_files s f \<noteq> None)"
| "fs_allowed (Fs_close f) (A, s) = (fs_files s f \<noteq> None)"
| "fs_allowed (Fs_load path maxlen) (A, s) = terminated path"

inductive fs_reach :: "'s fs_type list \<Rightarrow> 's world \<Rightarrow> (nat \<Rightarrow> nat) \<Rightarrow> 's fs \<Rightarrow> bool" for types w where
  start: "fs_reach types w (\<lambda>_. 0) (fs_init w)"
| call: "fs_reach types w A s \<Longrightarrow> fs_allowed c (A, s) \<Longrightarrow> fs_perform types c (A, s) = Some (A', s') \<Longrightarrow> fs_reach types w A' s'"

lemma fs_mount_calls_inv:
  assumes d: "drivers_ok types I" and inv: "fs_inv types I H A s" and p: "terminated path"
  shows "\<exists>A' s'. fs_perform types (Fs_mount path device) (A, s) = Some (A', s') \<and> fs_inv types I H A' s'"
    "terminated name \<Longrightarrow> \<exists>A' s'. fs_perform types (Fs_mount_type path device name) (A, s) = Some (A', s') \<and> fs_inv types I H A' s'"
proof -
  have t: "0 < length types" "\<forall>t\<in>set types. terminated (ft_name t)" using d unfolding drivers_ok_def by auto
  note m = mount_at_inv[OF d inv _ p, of _ device]
  obtain err s' where "mount_at types path device 0 s = Some (err, s')" "fs_inv types I H (if err < 0 then A else A(fs_next s := 1)) s'"
    using m[OF t(1)] by blast
  thus "\<exists>A' s'. fs_perform types (Fs_mount path device) (A, s) = Some (A', s') \<and> fs_inv types I H A' s'" by (simp add: fs_mount_def)
  assume "terminated name"
  from type_index_ok[OF this t(2), of 0] obtain r where r: "type_index 0 name types = Some r" "\<And>j. r = Some j \<Longrightarrow> j < length types" by auto
  show "\<exists>A' s'. fs_perform types (Fs_mount_type path device name) (A, s) = Some (A', s') \<and> fs_inv types I H A' s'"
  proof (cases r)
    case None
    thus ?thesis using r(1) inv error_neg by (simp add: fs_mount_type_def)
  next
    case (Some j)
    obtain err s' where "mount_at types path device j s = Some (err, s')" "fs_inv types I H (if err < 0 then A else A(fs_next s := 1)) s'"
      using m[OF r(2)[OF Some]] by blast
    thus ?thesis using r(1) Some by (simp add: fs_mount_type_def)
  qed
qed

lemma fs_perform_inv:
  assumes d: "drivers_ok types I" and inv: "fs_inv types I H A s" and al: "fs_allowed c (A, s)"
  shows "\<exists>A' s'. fs_perform types c (A, s) = Some (A', s') \<and> fs_inv types I H A' s'"
proof (cases c)
  case (Fs_mount path device)
  thus ?thesis using fs_mount_calls_inv(1)[OF d inv] al by simp
next
  case (Fs_mount_type path device name)
  thus ?thesis using fs_mount_calls_inv(2)[OF d inv] al by simp
next
  case (Fs_unmount path)
  obtain err s' where "fs_unmount types path s = Some (err, s')" "fs_inv types I H (release (unmount_target path s) A) s'"
    using fs_unmount_inv[OF d inv, of path] al Fs_unmount by auto
  thus ?thesis using Fs_unmount by simp
next
  case (Fs_open path)
  thus ?thesis using fs_open_file_inv[OF d inv, of path] al by auto
next
  case (Fs_create path)
  thus ?thesis using fs_create_file_inv[OF d inv, of path] al by auto
next
  case (Fs_make_dir path)
  thus ?thesis using fs_make_dir_inv[OF d inv, of path] al by auto
next
  case (Fs_read f off len)
  thus ?thesis using fs_file_ops_inv(1)[OF d inv, of f _ off len] al by fastforce
next
  case (Fs_write f buf off len)
  thus ?thesis using fs_file_ops_inv(3)[OF d inv, of f _ buf off len] al by fastforce
next
  case (Fs_stat f)
  thus ?thesis using fs_file_ops_inv(2)[OF d inv, of f] al by fastforce
next
  case (Fs_close f)
  thus ?thesis using fs_close_file_inv[OF d inv, of f] al by fastforce
next
  case (Fs_load path maxlen)
  thus ?thesis using fs_load_file_inv[OF d inv, of path maxlen] al by auto
qed

lemma fs_init_inv: "bio_inv H (fst w) \<Longrightarrow> I {#} {#} (snd w) \<Longrightarrow> fs_inv types I H (\<lambda>_. 0) (fs_init w)"
  by (simp add: fs_inv_def fs_init_def tables_ok_def world_ok_def mounted_def opened_def users_def)

lemma fs_reach_inv:
  assumes "fs_reach types w A s" "drivers_ok types I" "bio_inv H (fst w)" "I {#} {#} (snd w)"
  shows "fs_inv types I H A s"
  using assms(1)
proof induction
  case start
  show ?case using fs_init_inv[where I = I, OF assms(3,4)] .
next
  case (call A s c A' s')
  from fs_perform_inv[OF assms(2) call.IH call.hyps(2)] call.hyps(3) show ?case by auto
qed

section \<open>Theorems\<close>

text \<open>A file system without files, for the examples.\<close>

definition nullfs :: "nat fs_type" where
  "nullfs = \<lparr>ft_name = [110, 0], ft_mount = (\<lambda>dev (b, x). Some ((0, x), (b, Suc x))), ft_unmount = (\<lambda>c w. Some (0, w)),
     ft_open = (\<lambda>c p w. Some ((0, 0), w)), ft_create = None, ft_mkdir = None, ft_stat = (\<lambda>f w. Some ((0, False, 0), w)),
     ft_read = (\<lambda>f off len w. Some ((0, []), w)), ft_write = None, ft_close = (\<lambda>f w. Some (0, w))\<rparr>"

definition null_inv :: "ids \<Rightarrow> ids \<Rightarrow> nat \<Rightarrow> bool" where
  "null_inv MI FI x \<longleftrightarrow> (\<forall>i c d. (i, c, d) \<in># MI \<longrightarrow> c < x)"

lemma nullfs_ok: "drivers_ok [nullfs] null_inv"
proof -
  have fewer: "null_inv (MI - X) FI' x" "null_inv MI FI' x" if "null_inv MI FI x" for MI FI FI' X :: ids and x
    using that unfolding null_inv_def by (blast dest: in_diffD, blast)
  have "driver_ok null_inv 0 nullfs H MI FI (b, x)" if h: "bio_inv H b" "null_inv MI FI x" for H MI FI b x
    unfolding driver_ok_def
  proof (intro conjI allI impI)
    fix dev
    have "(i, x, d) \<notin># MI" for i d using h(2) by (auto simp: null_inv_def)
    moreover have "null_inv (add_mset (0, x, dev) MI) FI (Suc x)" using h(2) by (auto simp: null_inv_def less_Suc_eq)
    ultimately show "answers H (ft_mount nullfs dev) (b, x) (\<lambda>(err, c) x.
        if err < 0 then null_inv MI FI x else (\<forall>d. (0, c, d) \<notin># MI) \<and> null_inv (add_mset (0, c, dev) MI) FI x)"
      using h(1) by (simp add: answers_def nullfs_def)
  qed (use h fewer[OF h(2)] in \<open>auto simp: answers_def opens_file_def nullfs_def\<close>)
  thus ?thesis by (simp add: drivers_ok_def) (simp add: nullfs_def)
qed



lemma find_walk_cong:
  assumes "\<And>j. map_option fm_path (fs_mounts s' j) = map_option fm_path (fs_mounts s j)"
  shows "find_walk path n ms s' = find_walk path n ms s"
proof (induction ms)
  case (Cons m ms)
  show ?case using assms[of m] Cons by (cases "fs_mounts s m"; cases "fs_mounts s' m") (auto cong: Option.bind_cong if_cong)
qed simp

text \<open>
  C40: A defect: \<^verbatim>\<open>fs_unmount\<close> may be called again while a file keeps the mount alive, since the mount stays in the table. The second
  call drops the reference of the file: the mount is freed, and closing or reading the file uses freed memory.
\<close>

theorem fs_unmount_twice:
  assumes inv: "fs_inv types I H A s" and p: "temppath path = Some tmp" "find_mount tmp s = Some (Some (m, np))" and mt: "fs_mounts s m = Some mt"
    and a: "A m = 1" "files_of (fs_files s) m = {f}" and u: "\<forall>w. ft_unmount (types ! fm_type mt) (fm_cookie mt) w = Some (0, w)"
  shows "\<exists>s1 s2. fs_unmount types path s = Some (0, s1) \<and> fs_unmount types path s1 = Some (0, s2) \<and>
    fs_files s2 f \<noteq> None \<and> fs_read_file types f off len s2 = None \<and> fs_close_file types f s2 = None"
proof -
  note tab = fs_inv_tables[OF inv]
  let ?mt = "mt\<lparr>fm_refs := 1\<rparr>" let ?s = "s\<lparr>fs_mounts := (fs_mounts s)(m \<mapsto> ?mt)\<rparr>"
  have "fm_refs mt = 2" using tables_mount(4)[OF tab mt] a by simp
  hence s1: "fs_unmount types path s = Some (0, ?s)" using p mt by (simp add: fs_unmount_def put_mount_def)
  have "find_mount tmp ?s = Some (Some (m, np))"
    using p(2) find_walk_cong[of ?s s tmp _ "mounts s"] mt by (simp add: find_mount_def)
  moreover have "0 < H (fm_dev mt) + card (users (fs_mounts s) (fm_dev mt))" using users_pos[OF tab mt] by simp
  then obtain b where "bio_close (fm_dev mt) (fst (fs_world s)) = Some b"
    using dec_ref_inv[of "\<lambda>d. H d + card (users (fs_mounts s) d)" "fst (fs_world s)" "fm_dev mt"] inv
    by (auto simp: bio_close_def fs_inv_def world_ok_def)
  ultimately obtain s2 where s2: "fs_unmount types path ?s = Some (0, s2)" "fs_mounts s2 m = None" "fs_files s2 = fs_files s"
    using p(1) u by (simp add: fs_unmount_def put_mount_def)
  obtain ff where "fs_files s f = Some ff" "ff_mount ff = m" using a(2) by (auto simp: files_of_def)
  hence "file_mount f s2 = None" "fs_files s2 f \<noteq> None" using s2 by (simp_all add: file_mount_def)
  thus ?thesis using s1 s2(1) by (intro exI[of _ ?s] exI[of _ s2]) (simp add: fs_read_file_def fs_close_file_def)
qed

text \<open>One mount with one open file.\<close>

definition busy_fs :: "nat fs" where
  "busy_fs = \<lparr>mounts = [0], fs_mounts = (\<lambda>_. None)(0 \<mapsto> \<lparr>fm_path = [47, 109, 0], fm_dev = 0, fm_cookie = 0, fm_refs = 2, fm_type = 0\<rparr>),
     fs_files = (\<lambda>_. None)(1 \<mapsto> \<lparr>ff_cookie = 0, ff_mount = 0\<rparr>), fs_next = 2, fs_world = (set_ref 0 2 disk_bio, 1)\<rparr>"

lemma busy_files: "files_of (fs_files busy_fs) m = (if m = 0 then {1} else {})"
  by (auto simp: busy_fs_def files_of_def)

lemma busy_inv: "fs_inv [nullfs] null_inv (\<lambda>_. 0) ((\<lambda>_. 0)(0 := 1)) busy_fs"
proof -
  have "tables_ok [nullfs] ((\<lambda>_. 0)(0 := 1)) (mounts busy_fs) (fs_mounts busy_fs) (fs_files busy_fs) (fs_next busy_fs)"
    by (rule tables_okI) (simp_all add: mount_ok_def busy_files, auto simp: busy_fs_def terminated_def split: if_splits)
  moreover have "bio_devs disk_bio 0 = Some disk" "bd_ref disk = 1" by (simp_all add: disk_bio_def disk_def)
  hence "bio_inv ((\<lambda>_. 0)(0 := 1)) (set_ref 0 2 disk_bio)" using inc_ref_inv(2)[OF bio_reach_inv[OF disk_bio_reach], of 0 disk] by simp
  moreover have "(\<lambda>d. 0 + card (users (fs_mounts busy_fs) d)) = (\<lambda>_. 0)(0 := 1)"
  proof
    fix d
    have "users (fs_mounts busy_fs) d = (if d = 0 then {0} else {})" by (auto simp: users_def busy_fs_def)
    thus "0 + card (users (fs_mounts busy_fs) d) = ((\<lambda>_. 0)(0 := 1)) d" by simp
  qed
  moreover have "null_inv (mounted (fs_mounts busy_fs)) X 1" for X by (simp add: mounted_def busy_fs_def null_inv_def mount_id_def)
  moreover have "fs_world busy_fs = (set_ref 0 2 disk_bio, 1)" by (simp add: busy_fs_def)
  ultimately show ?thesis unfolding fs_inv_def world_ok_def by simp
qed

theorem fs_unmount_twice_witness:
  "\<exists>s1 s2. fs_unmount [nullfs] [47, 109, 0] busy_fs = Some (0, s1) \<and> fs_unmount [nullfs] [47, 109, 0] s1 = Some (0, s2) \<and>
    fs_files s2 1 \<noteq> None \<and> fs_read_file [nullfs] 1 0 8 s2 = None \<and> fs_close_file [nullfs] 1 s2 = None"
proof -
  have "path_of (normal (take 511 (cstr [47, 109, 0]))) = [47, 109]" by (simp add: normal_def enter_def path_of_def slashed_def)
  then obtain tmp where t: "temppath [47, 109, 0] = Some tmp" "terminated tmp" "cstr tmp = [47, 109]"
    using temppath_ok[of "[47, 109, 0]"] by (auto simp: terminated_def)
  then obtain z where z: "tmp = [47, 109] @ 0 # z" using terminated_split[OF t(2)] by metis
  have "find_mount tmp busy_fs = Some (Some (0, 0 # z))" by (simp add: z find_mount_def busy_fs_def)
  moreover have "fs_mounts busy_fs 0 = Some \<lparr>fm_path = [47, 109, 0], fm_dev = 0, fm_cookie = 0, fm_refs = 2, fm_type = 0\<rparr>" by (simp add: busy_fs_def)
  moreover have "files_of (fs_files busy_fs) 0 = {1}" by (simp add: busy_files)
  ultimately show ?thesis using fs_unmount_twice[OF busy_inv t(1)] by (simp add: nullfs_def)
qed

end
