(* ===== verification/LK_Ext2.thy ===== *)
theory LK_Ext2
  imports LK_Bcache LK_Libc "HOL-Library.Signed_Division"
begin

text \<open>
  The ext2 file system (\<^verbatim>\<open>lib/fs/ext2\<close>), read-only on top of the block cache: mounting, inodes, the tree of block
  pointers, reading, directories, symbolic links and the lookup of paths. The operations thread the
  block cache and the state of the block devices; what is mounted does not change after \<^verbatim>\<open>ext2_mount\<close>.

  \<open>junk n\<close> is what \<open>n\<close> bytes of new memory hold. \<open>None\<close> is an access out of bounds, a division by zero, a shift by more than the
  width, or an assertion failure of the block cache. The processor is little endian, so the byte swaps are the
  identity; a structure on disk is decoded from its bytes, with the fields that the code reads.
\<close>

section \<open>Structures on disk\<close>

unbundle bit_operations_syntax

definition le16 :: "u8 list \<Rightarrow> nat \<Rightarrow> u16" where
  "le16 b k = ucast (b ! k) OR push_bit 8 (ucast (b ! (k + 1)))"

definition le32 :: "u8 list \<Rightarrow> nat \<Rightarrow> u32" where
  "le32 b k = ucast (b ! k) OR push_bit 8 (ucast (b ! (k + 1))) OR push_bit 16 (ucast (b ! (k + 2))) OR push_bit 24 (ucast (b ! (k + 3)))"

text \<open>Reads through a pointer into a buffer.\<close>

definition rd8 :: "u8 list \<Rightarrow> nat \<Rightarrow> u8 option" where
  "rd8 b k = (if k < length b then Some (b ! k) else None)"

definition rd16 :: "u8 list \<Rightarrow> nat \<Rightarrow> u16 option" where
  "rd16 b k = (if k + 2 \<le> length b then Some (le16 b k) else None)"

definition rd32 :: "u8 list \<Rightarrow> nat \<Rightarrow> u32 option" where
  "rd32 b k = (if k + 4 \<le> length b then Some (le32 b k) else None)"

record ext2_super_block =
  s_blocks_count :: u32
  s_log_block_size :: u32
  s_blocks_per_group :: u32
  s_inodes_per_group :: u32
  s_magic :: u16
  s_rev_level :: u32
  s_inode_size :: u16
  s_feature_ro_compat :: u32

record ext2_group_desc =
  bg_block_bitmap :: u32
  bg_inode_bitmap :: u32
  bg_inode_table :: u32

text \<open>The block pointers are kept as the bytes they are, since they may be the text of a link.\<close>

record ext2_inode =
  i_mode :: u16
  i_size :: u32
  i_block :: "u8 list"
  i_dir_acl :: u32

definition endian_swap_superblock :: "u8 list \<Rightarrow> ext2_super_block" where
  "endian_swap_superblock b =
     \<lparr>s_blocks_count = le32 b 4, s_log_block_size = le32 b 24, s_blocks_per_group = le32 b 32, s_inodes_per_group = le32 b 40,
      s_magic = le16 b 56, s_rev_level = le32 b 76, s_inode_size = le16 b 88, s_feature_ro_compat = le32 b 100\<rparr>"

definition endian_swap_inode :: "u8 list \<Rightarrow> ext2_inode" where
  "endian_swap_inode b = \<lparr>i_mode = le16 b 0, i_size = le32 b 4, i_block = take 60 (drop 40 b), i_dir_acl = le32 b 108\<rparr>"

definition endian_swap_group_desc :: "u8 list \<Rightarrow> ext2_group_desc" where
  "endian_swap_group_desc b = \<lparr>bg_block_bitmap = le32 b 0, bg_inode_bitmap = le32 b 4, bg_inode_table = le32 b 8\<rparr>"

definition EXT2_BLOCK_SIZE :: "ext2_super_block \<Rightarrow> u32" where
  "EXT2_BLOCK_SIZE sb = push_bit (unat (s_log_block_size sb)) 1024"

definition EXT2_ADDR_PER_BLOCK :: "ext2_super_block \<Rightarrow> u32" where
  "EXT2_ADDR_PER_BLOCK sb = EXT2_BLOCK_SIZE sb div 4"

definition EXT2_INODE_SIZE :: "ext2_super_block \<Rightarrow> u32" where
  "EXT2_INODE_SIZE sb = (if s_rev_level sb = 0 then 128 else ucast (s_inode_size sb))"

definition S_ISDIR :: "u16 \<Rightarrow> bool" where
  "S_ISDIR mode \<longleftrightarrow> mode AND 0xF000 = 0x4000"

definition S_ISREG :: "u16 \<Rightarrow> bool" where
  "S_ISREG mode \<longleftrightarrow> mode AND 0xF000 = 0x8000"

definition S_ISLNK :: "u16 \<Rightarrow> bool" where
  "S_ISLNK mode \<longleftrightarrow> mode AND 0xF000 = 0xA000"

record ext2 =
  e_sb :: ext2_super_block
  e_group_count :: int
  e_gd :: "ext2_group_desc list"
  e_root_inode :: ext2_inode

abbreviation ext2_bs :: "ext2 \<Rightarrow> u32" where
  "ext2_bs e \<equiv> EXT2_BLOCK_SIZE (e_sb e)"

section \<open>Blocks and inodes\<close>

definition ext2_read_block :: "u8 list \<Rightarrow> u32 \<Rightarrow> bcache \<times> bio \<Rightarrow> (int \<times> u8 list \<times> bcache \<times> bio) option" where
  "ext2_read_block buf bnum cs = bcache_read_block buf bnum cs"

definition ext2_get_block :: "u32 \<Rightarrow> bcache \<times> bio \<Rightarrow> (int \<times> nat option \<times> bcache \<times> bio) option" where
  "ext2_get_block bnum cs = bcache_get_block bnum cs"

definition ext2_put_block :: "u32 \<Rightarrow> bcache \<times> bio \<Rightarrow> (int \<times> bcache \<times> bio) option" where
  "ext2_put_block bnum cs = bcache_put_block bnum cs"

definition get_inode_addr :: "ext2 \<Rightarrow> u32 \<Rightarrow> (u32 \<times> u32) option" where
  "get_inode_addr e inum = do {
     let inum = inum - 1;
     ASSERT (s_inodes_per_group (e_sb e) \<noteq> 0);
     let group = inum div s_inodes_per_group (e_sb e);
     ASSERT (unat group < length (e_gd e));
     let block = bg_inode_table (e_gd e ! unat group);
     let offset = (inum mod s_inodes_per_group (e_sb e)) * EXT2_INODE_SIZE (e_sb e);
     ASSERT (ext2_bs e \<noteq> 0);
     Some (block + offset div ext2_bs e, offset mod ext2_bs e)
   }"

text \<open>The inode is \<open>None\<close> where the code leaves it alone.\<close>

definition ext2_load_inode :: "ext2 \<Rightarrow> u32 \<Rightarrow> bcache \<times> bio \<Rightarrow> (int \<times> ext2_inode option \<times> bcache \<times> bio) option" where
  "ext2_load_inode e inum cs = do {
     (bnum, block_offset) \<leftarrow> get_inode_addr e inum;
     (err, cache_ptr, c, s) \<leftarrow> bcache_get_block bnum cs;
     if err < 0 then Some (err, None, c, s)
     else do {
       i \<leftarrow> cache_ptr;
       inode \<leftarrow> memcpy_from (bb_ptr (bc_blocks c ! i)) (unat block_offset) 128;
       (_, c, s) \<leftarrow> bcache_put_block bnum (c, s);
       Some (0, Some (endian_swap_inode inode), c, s)
     }
   }"

text \<open>The cookie is the volume and its cache.\<close>

definition ext2_mount :: "(nat \<Rightarrow> u8 list) \<Rightarrow> (nat \<Rightarrow> u32 \<times> u8 list) \<Rightarrow> nat \<Rightarrow> bio \<Rightarrow> (int \<times> (ext2 \<times> bcache) option \<times> bio) option" where
  "ext2_mount junk cjunk dev s = do {
     (err, b) \<leftarrow> bio_read dev (junk 1024) 0 1024 1024 s;
     let err = to_int err;
     if err < 0 then Some (err, None, s)
     else do {
       let sb = endian_swap_superblock b;
       if s_magic sb \<noteq> 0xEF53 then Some (-1, None, s)
       else do {
         ASSERT (s_blocks_per_group sb \<noteq> 0);
         let count = sint ((s_blocks_count sb + s_blocks_per_group sb - 1) div s_blocks_per_group sb);
         if 1 < s_rev_level sb then Some (-2, None, s)
         else if s_feature_ro_compat sb AND NOT 3 \<noteq> 0 then Some (-3, None, s)
         else do {
           ASSERT (0 \<le> count \<and> s_log_block_size sb < 32);
           let len = 32 * nat count;
           (err, g) \<leftarrow> bio_read dev (junk len) 0 (if EXT2_BLOCK_SIZE sb = 4096 then 4096 else 2048) (of_nat len) s;
           if to_int err < 0 then Some (-4, None, s)
           else do {
             let gd = map (\<lambda>i. endian_swap_group_desc (take 32 (drop (32 * i) g))) [0..<nat count];
             let c = bcache_create cjunk dev (ucast (EXT2_BLOCK_SIZE sb)) 4;
             let e = \<lparr>e_sb = sb, e_group_count = count, e_gd = gd, e_root_inode = endian_swap_inode (junk 128)\<rparr>;
             (err, inode, c, s) \<leftarrow> ext2_load_inode e 2 (c, s);
             if err < 0 then Some (err, None, s)
             else do {
               root \<leftarrow> inode;
               Some (0, Some (e\<lparr>e_root_inode := root\<rparr>, c), s)
             }
           }
         }
       }
     }
   }"

definition ext2_unmount :: "bcache \<Rightarrow> int option" where
  "ext2_unmount c = do { bcache_destroy c; Some 0 }"

section \<open>The block pointers\<close>

text \<open>The result, the level and the positions; the last two keep their values when the block is too big.\<close>

definition ext2_calculate_block_pointer_pos :: "ext2 \<Rightarrow> u32 \<Rightarrow> int \<times> nat \<times> u32 list" where
  "ext2_calculate_block_pointer_pos e block_to_find =
     (if block_to_find < 12 then (0, 0, [block_to_find])
      else let p = EXT2_ADDR_PER_BLOCK (e_sb e); block_to_find = block_to_find - 12 in
      if block_to_find < p then (0, 1, [12, block_to_find])
      else let block_to_find = block_to_find - p; pp = p * p in
      if block_to_find < pp then (0, 2, [13, block_to_find div p, block_to_find mod p])
      else let block_to_find = block_to_find - pp in
      if block_to_find < pp * p then (0, 3, [14, block_to_find div pp, (block_to_find mod pp) div p, (block_to_find mod pp) mod p])
      else (-1, 0, []))"

text \<open>
  The loop digs down into the indirect blocks. The result is the error, the entry of the cache with the last table, and the
  number of its block.
\<close>

function indirect_loop :: "ext2_inode \<Rightarrow> u32 list \<Rightarrow> nat \<Rightarrow> nat \<Rightarrow> u32 \<Rightarrow> nat option \<Rightarrow> u32 \<Rightarrow> bcache \<times> bio \<Rightarrow>
    (int \<times> nat option \<times> u32 \<times> bcache \<times> bio) option" where
  "indirect_loop inode pos level current_level current_block block block_loaded (c, s) =
     (if current_level < level
      then do {
        current_block \<leftarrow> (if current_level = 0 then rd32 (i_block inode) (4 * unat (pos ! 0)) else Some current_block);
        if current_block = 0 then Some (-1, None, 0, c, s)
        else do {
          (err, block, c, s) \<leftarrow> ext2_get_block current_block (c, s);
          if err < 0 then Some (err, None, 0, c, s)
          else if Suc current_level < level
          then do {
            i \<leftarrow> block;
            next_block \<leftarrow> rd32 (bb_ptr (bc_blocks c ! i)) (4 * unat (pos ! Suc current_level));
            (_, c, s) \<leftarrow> ext2_put_block current_block (c, s);
            indirect_loop inode pos level (Suc current_level) next_block block current_block (c, s)
          }
          else indirect_loop inode pos level (Suc current_level) current_block block current_block (c, s)
        }
      }
      else Some (0, block, block_loaded, c, s))"
  by pat_completeness auto
termination by (relation "measure (\<lambda>(inode, pos, level, current_level, x). level - current_level)") auto

declare indirect_loop.simps [simp del]

definition ext2_get_indirect_block_pointer_cache_block :: "ext2_inode \<Rightarrow> nat \<Rightarrow> u32 list \<Rightarrow> bcache \<times> bio \<Rightarrow>
    (int \<times> nat option \<times> u32 \<times> bcache \<times> bio) option" where
  "ext2_get_indirect_block_pointer_cache_block inode level pos cs =
     (if 3 < level \<or> level = 0 then Some (-1, None, 0, cs)
      else indirect_loop inode pos level 0 0 None 0 cs)"

definition file_block_to_fs_block :: "ext2 \<Rightarrow> ext2_inode \<Rightarrow> u32 \<Rightarrow> bcache \<times> bio \<Rightarrow> (u32 \<times> bcache \<times> bio) option" where
  "file_block_to_fs_block e inode fileblock cs = do {
     let (_, level, pos) = ext2_calculate_block_pointer_pos e fileblock;
     if level = 0 then do { block \<leftarrow> rd32 (i_block inode) (4 * unat fileblock); Some (block, cs) }
     else do {
       (err, ind_table, phys_block, c, s) \<leftarrow> ext2_get_indirect_block_pointer_cache_block inode level pos cs;
       if err < 0 then Some (0, c, s)
       else do {
         i \<leftarrow> ind_table;
         block \<leftarrow> rd32 (bb_ptr (bc_blocks c ! i)) (4 * unat (pos ! level));
         (_, c, s) \<leftarrow> ext2_put_block phys_block (c, s);
         Some (block, c, s)
       }
     }
   }"

section \<open>Reading\<close>

definition ext2_file_len :: "ext2 \<Rightarrow> ext2_inode \<Rightarrow> u64" where
  "ext2_file_len e inode =
     (let len = ucast (i_size inode)
      in if s_feature_ro_compat (e_sb e) AND 2 \<noteq> 0 \<and> S_ISREG (i_mode inode)
         then len OR push_bit 32 (ucast (i_dir_acl inode)) else len)"

text \<open>A whole block of a file into a buffer, the three times the code does so. An error of the read is ignored.\<close>

definition read_file_block :: "ext2 \<Rightarrow> ext2_inode \<Rightarrow> u32 \<Rightarrow> u8 list \<Rightarrow> nat \<Rightarrow> bcache \<times> bio \<Rightarrow> (u8 list \<times> bcache \<times> bio) option" where
  "read_file_block e inode file_block buf at cs = do {
     (phys_block, cs) \<leftarrow> file_block_to_fs_block e inode file_block cs;
     if phys_block = 0 then do { buf \<leftarrow> memcpy_to buf at (replicate (unat (ext2_bs e)) 0); Some (buf, cs) }
     else do { (_, b, cs) \<leftarrow> ext2_read_block (drop at buf) phys_block cs; Some (take at buf @ b, cs) }
   }"

text \<open>The buffer, the place in it, the block of the file, the length left and the count so far.\<close>

type_synonym reading = "u8 list \<times> nat \<times> u32 \<times> u64 \<times> u32"

definition read_inode_first :: "ext2 \<Rightarrow> ext2_inode \<Rightarrow> u8 list \<Rightarrow> u64 \<Rightarrow> reading \<Rightarrow> bcache \<times> bio \<Rightarrow> (reading \<times> bcache \<times> bio) option" where
  "read_inode_first e inode temp offset = (\<lambda>(buf, at, file_block, len, bytes_read) cs.
     if sint offset smod uint (ext2_bs e) \<noteq> 0
     then do {
       (temp, cs) \<leftarrow> read_file_block e inode file_block temp 0 cs;
       let block_offset = of_int (sint offset smod uint (ext2_bs e));
       let tocopy = min len (ucast (ext2_bs e) - block_offset);
       d \<leftarrow> memcpy_from temp (unat block_offset) (unat tocopy);
       buf \<leftarrow> memcpy_to buf at d;
       Some ((buf, at + unat tocopy, file_block + 1, len - tocopy, bytes_read + ucast tocopy), cs)
     }
     else Some ((buf, at, file_block, len, bytes_read), cs))"

partial_function (option) read_inode_middle :: "ext2 \<Rightarrow> ext2_inode \<Rightarrow> reading \<Rightarrow> bcache \<times> bio \<Rightarrow> (reading \<times> bcache \<times> bio) option" where
  "read_inode_middle e inode r cs = (case r of (buf, at, file_block, len, bytes_read) \<Rightarrow>
     if ucast (ext2_bs e) \<le> len
     then do {
       (buf, cs) \<leftarrow> read_file_block e inode file_block buf at cs;
       read_inode_middle e inode
         (buf, at + unat (ext2_bs e), file_block + 1, len - ucast (ext2_bs e), bytes_read + ext2_bs e) cs
     }
     else Some (r, cs))"

definition read_inode_last :: "ext2 \<Rightarrow> ext2_inode \<Rightarrow> u8 list \<Rightarrow> reading \<Rightarrow> bcache \<times> bio \<Rightarrow> (u8 list \<times> u32 \<times> bcache \<times> bio) option" where
  "read_inode_last e inode temp = (\<lambda>(buf, at, file_block, len, bytes_read) cs.
     if 0 < len
     then do {
       (temp, cs) \<leftarrow> read_file_block e inode file_block temp 0 cs;
       d \<leftarrow> memcpy_from temp 0 (unat len);
       buf \<leftarrow> memcpy_to buf at d;
       Some (buf, bytes_read + ucast len, cs)
     }
     else Some (buf, bytes_read, cs))"

definition ext2_read_inode :: "(nat \<Rightarrow> u8 list) \<Rightarrow> ext2 \<Rightarrow> ext2_inode \<Rightarrow> u8 list \<Rightarrow> u64 \<Rightarrow> u64 \<Rightarrow> bcache \<times> bio \<Rightarrow>
    (int \<times> u8 list \<times> bcache \<times> bio) option" where
  "ext2_read_inode junk e inode buf offset len cs =
     (let file_size = ext2_file_len e inode in
      if sint file_size < sint offset then Some (0, buf, cs)
      else let len = (if file_size \<le> offset + len then file_size - offset else len) in
      if len = 0 then Some (0, buf, cs)
      else do {
        ASSERT (ext2_bs e \<noteq> 0);
        let temp = junk (unat (ext2_bs e));
        (r, cs) \<leftarrow> read_inode_first e inode temp offset (buf, 0, of_int (sint offset sdiv uint (ext2_bs e)), len, 0) cs;
        (r, cs) \<leftarrow> read_inode_middle e inode r cs;
        (buf, bytes_read, cs) \<leftarrow> read_inode_last e inode temp r cs;
        Some (sint bytes_read, buf, cs)
      })"

definition ext2_read_link :: "(nat \<Rightarrow> u8 list) \<Rightarrow> ext2 \<Rightarrow> ext2_inode \<Rightarrow> u8 list \<Rightarrow> u64 \<Rightarrow> bcache \<times> bio \<Rightarrow>
    (int \<times> u8 list \<times> bcache \<times> bio) option" where
  "ext2_read_link junk e inode str len cs =
     (let linklen = ext2_file_len e inode in
      if sint linklen < 0 \<or> len < linklen + 1 then Some (ERR_NO_MEMORY, str, cs)
      else if 60 < sint linklen
      then do {
        (err, str, cs) \<leftarrow> ext2_read_inode junk e inode str 0 linklen cs;
        if err < 0 then Some (err, str, cs)
        else do { str \<leftarrow> memcpy_to str (unat linklen) [0]; Some (to_int (sint linklen), str, cs) }
      }
      else do {
        d \<leftarrow> memcpy_from (i_block inode) 0 (unat linklen);
        str \<leftarrow> memcpy_to str 0 d;
        str \<leftarrow> memcpy_to str (unat linklen) [0];
        Some (to_int (sint linklen), str, cs)
      })"

section \<open>What a volume holds\<close>

text \<open>A quiet cache: no pointer into it is held, and its clients see the blocks \<open>V\<close>.\<close>

definition vol :: "nat \<times> nat \<times> nat \<Rightarrow> (nat \<Rightarrow> u8 list) \<Rightarrow> nat \<Rightarrow> bcache \<times> bio \<Rightarrow> bool" where
  "vol w V bs cs \<longleftrightarrow> (case cs of (c, s) \<Rightarrow> bc_inv w ([], c, s) \<and> view w c s = V \<and> bsize c = bs \<and> 0 < bc_count c)"

lemma shape_eq: "shape c' = shape c \<Longrightarrow> bsize c' = bsize c" "shape c' = shape c \<Longrightarrow> bc_count c' = bc_count c"
  by (simp_all add: shape_def bsize_def)

lemma length_view:
  assumes "vol w V bs (c, s)" "on_device w bs b"
  shows "length (V b) = bs"
proof -
  have ci: "cache_inv w c s" and v: "view w c s = V" and bs: "bsize c = bs" using assms(1) by (simp_all add: vol_def bc_inv_def)
  have e: "entries_inv w (set (bc_lru_list c)) c s" using ci by (simp add: cache_inv_def)
  show ?thesis
  proof (cases "b \<in> num c ` set (bc_lru_list c)")
    case True
    then obtain i where i: "i \<in> set (bc_lru_list c)" "b = num c i" by blast
    have "i < length (bc_blocks c)" using e i(1) by (auto simp: entries_inv_def)
    thus ?thesis using view_in[OF e i(1)] e i(2) v bs by (auto simp: entries_inv_def)
  next
    case False
    obtain r base n where w: "w = (r, base, n)" by (cases w)
    have win: "window s (bc_dev c) r base n" using e w by (simp add: entries_inv_def is_window_def)
    have "b * bs + bs \<le> n" using assms(2) w by (simp add: on_device_def)
    hence "length (dev_block w bs s b) = bs" using length_window_data[OF win] by (simp add: dev_block_def w)
    thus ?thesis using view_out[OF False, of w s] v bs by simp
  qed
qed

lemma vol_length: "vol w V bs cs \<Longrightarrow> on_device w bs b \<Longrightarrow> length (V b) = bs"
  using length_view[of w V bs "fst cs" "snd cs" b] by simp

lemma vol_fillable: "vol w V bs (c, s) \<Longrightarrow> on_device w bs (unat b) \<Longrightarrow> fillable w c b"
  using allowed_fillable[of w "[]" c s b] by (simp add: vol_def)

text \<open>A pointer into the cache, and what is left when it has been given back.\<close>

definition held :: "nat \<times> nat \<times> nat \<Rightarrow> (nat \<Rightarrow> u8 list) \<Rightarrow> nat \<Rightarrow> u32 \<Rightarrow> nat \<Rightarrow> bcache \<times> bio \<Rightarrow> bool" where
  "held w V bs b i cs \<longleftrightarrow> bb_ptr (bc_blocks (fst cs) ! i) = V (unat b) \<and>
     (\<exists>cs'. ext2_put_block b cs = Some (0, cs') \<and> vol w V bs cs')"

lemma get_block_ok:
  assumes v: "vol w V bs cs" and b: "on_device w bs (unat b)" "0 < bs"
  shows "\<exists>i cs'. ext2_get_block b cs = Some (0, Some i, cs') \<and> held w V bs b i cs'"
proof -
  obtain c s where cs: "cs = (c, s)" by (cases cs)
  have inv: "bc_inv w ([], c, s)" and vw: "view w c s = V" and bs: "bsize c = bs" and n: "0 < bc_count c" using v cs by (simp_all add: vol_def)
  have "steps_to w (Get_block b) ([], c, s)" by (rule get_step[OF inv vol_fillable[OF v[unfolded cs] b(1)]])
  then obtain H c' s' where p: "bc_perform (Get_block b) ([], c, s) = Some ((0, V (unat b)), H, c', s')"
    and i1: "bc_inv w (H, c', s')" "view w c' s' = V" "shape c' = shape c"
    using vw unfolding steps_to_def by auto
  have "V (unat b) \<noteq> []" using length_view[OF v[unfolded cs] b(1)] b(2) by auto
  then obtain i where g: "bcache_get_block b (c, s) = Some (0, Some i, c', s')" "H = [(b, i)]" "bb_ptr (bc_blocks c' ! i) = V (unat b)"
    using p by (auto simp: bind_eq_Some_conv split: option.splits)
  have "steps_to w (Put_block b i) (H, c', s')" using put_step[OF i1(1)] g(2) by simp
  then obtain H' c2 s2 where q: "bc_perform (Put_block b i) (H, c', s') = Some ((0, []), H', c2, s2)"
    and i2: "bc_inv w (H', c2, s2)" "view w c2 s2 = V" "shape c2 = shape c'"
    using i1(2) unfolding steps_to_def by auto
  have "bcache_put_block b (c', s') = Some (0, c2, s2)" "H' = []" using q g(2) by (auto simp: bind_eq_Some_conv)
  hence "held w V bs b i (c', s')" using g(3) i2 bs n shape_eq[OF i1(3)] shape_eq[OF i2(3)] by (simp add: held_def ext2_put_block_def vol_def)
  thus ?thesis using g(1) cs by (auto simp: ext2_get_block_def)
qed

lemma read_block_ok:
  assumes v: "vol w V bs cs" and b: "on_device w bs (unat b)" and l: "bs \<le> length buf"
  shows "\<exists>cs'. ext2_read_block buf b cs = Some (0, overwrite buf 0 (V (unat b)), cs') \<and> vol w V bs cs'"
proof -
  obtain c s where cs: "cs = (c, s)" by (cases cs)
  have inv: "bc_inv w ([], c, s)" and vw: "view w c s = V" and bs: "bsize c = bs" and n: "0 < bc_count c" using v cs by (simp_all add: vol_def)
  have "steps_to w (Read_block b) ([], c, s)" by (rule read_step[OF inv vol_fillable[OF v[unfolded cs] b]])
  then obtain H c' s' where p: "bc_perform (Read_block b) ([], c, s) = Some ((0, V (unat b)), H, c', s')"
    and i1: "bc_inv w (H, c', s')" "view w c' s' = V" "shape c' = shape c"
    using vw unfolding steps_to_def by auto
  have H: "H = []" and r: "bcache_read_block (replicate (bsize c) 0) b (c, s) = Some (0, V (unat b), c', s')"
    using p by (auto simp: bind_eq_Some_conv)
  obtain i where f: "find_or_fill_block b (c, s) = Some (Some i, c', s')" and
    m: "memcpy_from (bb_ptr (bc_blocks c' ! i)) 0 (unat (bc_block_size c')) = Some (V (unat b))"
  proof -
    from r obtain o' c1 s1 where f: "find_or_fill_block b (c, s) = Some (o', c1, s1)"
      by (auto simp: bcache_read_block_def bind_eq_Some_conv)
    from r f obtain i where o: "o' = Some i" by (cases o') (auto simp: bcache_read_block_def)
    with r f obtain d where d: "memcpy_from (bb_ptr (bc_blocks c1 ! i)) 0 (unat (bc_block_size c1)) = Some d"
      "memcpy_to (replicate (bsize c) 0) 0 d = Some (V (unat b))" "c1 = c'" "s1 = s'"
      by (auto simp: bcache_read_block_def bind_eq_Some_conv)
    have "length d = bsize c" using d(1,3) shape_eq(1)[OF i1(3)] by (auto simp: memcpy_from_def bsize_def split: if_splits)
    hence "d = V (unat b)" using d(2) by (auto simp: memcpy_to_def split: if_splits)
    thus thesis using that f o d by simp
  qed
  have "length (V (unat b)) = bs" by (rule length_view[OF v[unfolded cs] b])
  hence "bcache_read_block buf b (c, s) = Some (0, overwrite buf 0 (V (unat b)), c', s')"
    using f m l by (simp add: bcache_read_block_def memcpy_to_overwrite)
  thus ?thesis using i1 bs n H cs shape_eq[OF i1(3)] by (simp add: ext2_read_block_def vol_def)
qed

section \<open>The tree of block pointers\<close>

text \<open>
  The blocks of a file: twelve direct pointers and three trees of depth 1, 2 and 3 with \<open>p\<close> pointers in a table.
  A pointer 0 is a hole. \<open>leaf p V l b n\<close> is the \<open>n\<close>-th leaf of the tree of depth \<open>l\<close> below the block \<open>b\<close>.
\<close>

fun leaf :: "nat \<Rightarrow> (nat \<Rightarrow> u8 list) \<Rightarrow> nat \<Rightarrow> u32 \<Rightarrow> nat \<Rightarrow> u32" where
  "leaf p V 0 b n = b"
| "leaf p V (Suc l) b n = (if b = 0 then 0 else leaf p V l (le32 (V (unat b)) (4 * (n div p ^ l))) (n mod p ^ l))"

definition ptr_of :: "ext2_inode \<Rightarrow> nat \<Rightarrow> u32" where
  "ptr_of inode k = le32 (i_block inode) (4 * k)"

definition file_block :: "nat \<Rightarrow> (nat \<Rightarrow> u8 list) \<Rightarrow> ext2_inode \<Rightarrow> nat \<Rightarrow> u32" where
  "file_block p V inode n =
     (if n < 12 then ptr_of inode n
      else if n < 12 + p then leaf p V 1 (ptr_of inode 12) (n - 12)
      else if n < 12 + p + p ^ 2 then leaf p V 2 (ptr_of inode 13) (n - 12 - p)
      else leaf p V 3 (ptr_of inode 14) (n - 12 - p - p ^ 2))"

text \<open>The tables on the way to a leaf are blocks of the device.\<close>

fun leaf_ok :: "(nat \<Rightarrow> bool) \<Rightarrow> nat \<Rightarrow> (nat \<Rightarrow> u8 list) \<Rightarrow> nat \<Rightarrow> u32 \<Rightarrow> nat \<Rightarrow> bool" where
  "leaf_ok on p V 0 b n = True"
| "leaf_ok on p V (Suc l) b n = (b = 0 \<or> on (unat b) \<and> leaf_ok on p V l (le32 (V (unat b)) (4 * (n div p ^ l))) (n mod p ^ l))"

definition block_ok :: "(nat \<Rightarrow> bool) \<Rightarrow> nat \<Rightarrow> (nat \<Rightarrow> u8 list) \<Rightarrow> ext2_inode \<Rightarrow> nat \<Rightarrow> bool" where
  "block_ok on p V inode n \<longleftrightarrow> n < 12 + p + p ^ 2 + p ^ 3 \<and>
     (if n < 12 then True
      else if n < 12 + p then leaf_ok on p V 1 (ptr_of inode 12) (n - 12)
      else if n < 12 + p + p ^ 2 then leaf_ok on p V 2 (ptr_of inode 13) (n - 12 - p)
      else leaf_ok on p V 3 (ptr_of inode 14) (n - 12 - p - p ^ 2)) \<and>
     (file_block p V inode n = 0 \<or> on (unat (file_block p V inode n)))"

text \<open>Following a list of positions from a block.\<close>

fun dig :: "(nat \<Rightarrow> u8 list) \<Rightarrow> u32 \<Rightarrow> nat list \<Rightarrow> u32" where
  "dig V b [] = b"
| "dig V b (k # ks) = (if b = 0 then 0 else dig V (le32 (V (unat b)) (4 * k)) ks)"

fun dig_ok :: "(nat \<Rightarrow> bool) \<Rightarrow> (nat \<Rightarrow> u8 list) \<Rightarrow> u32 \<Rightarrow> nat list \<Rightarrow> bool" where
  "dig_ok on V b [] = (b = 0 \<or> on (unat b))"
| "dig_ok on V b (k # ks) = (b = 0 \<or> on (unat b) \<and> dig_ok on V (le32 (V (unat b)) (4 * k)) ks)"

lemma dig_snoc: "dig V b (ks @ [k]) = (if dig V b ks = 0 then 0 else le32 (V (unat (dig V b ks))) (4 * k))"
  by (induction V b ks rule: dig.induct) auto

lemma rd32_ok: "4 * k + 4 \<le> length b \<Longrightarrow> rd32 b (4 * k) = Some (le32 b (4 * k))"
  by (simp add: rd32_def)

definition dug :: "nat \<times> nat \<times> nat \<Rightarrow> (nat \<Rightarrow> u8 list) \<Rightarrow> nat \<Rightarrow> u32 \<Rightarrow> (int \<times> nat option \<times> u32 \<times> bcache \<times> bio) option \<Rightarrow> bool" where
  "dug w V bs t r \<longleftrightarrow> (if t = 0 then \<exists>cs. r = Some (-1, None, 0, cs) \<and> vol w V bs cs
     else \<exists>i cs. r = Some (0, Some i, t, cs) \<and> held w V bs t i cs)"

lemma indirect_loop_ok:
  assumes "vol w V bs cs" "cl < level" "level < length pos" "length (i_block inode) = 60"
    "b = (if cl = 0 then ptr_of inode (unat (pos ! 0)) else cb)" "unat (pos ! 0) < 15"
    "\<forall>j. 0 < j \<and> j < level \<longrightarrow> 4 * unat (pos ! j) + 4 \<le> bs" "0 < bs"
    "dig_ok (on_device w bs) V b (map (\<lambda>j. unat (pos ! j)) [Suc cl..<level])"
  shows "dug w V bs (dig V b (map (\<lambda>j. unat (pos ! j)) [Suc cl..<level])) (indirect_loop inode pos level cl cb blk ld cs)"
  using assms
proof (induction "level - cl" arbitrary: cl b cb blk ld cs)
  case (Suc d)
  obtain c s where cs: "cs = (c, s)" by (cases cs)
  have cb: "(if cl = 0 then rd32 (i_block inode) (4 * unat (pos ! 0)) else Some cb) = Some b"
    using Suc.prems(4,5,6) by (simp add: rd32_ok ptr_of_def)
  show ?case
  proof (cases "b = 0")
    case True
    hence "dig V b ks = 0" for ks by (cases ks) simp_all
    thus ?thesis using True Suc.prems(1,2) cb by (subst cs, subst indirect_loop.simps) (simp add: dug_def cs)
  next
    case False
    have on: "on_device w bs (unat b)" using Suc.prems(9) False by (cases "map (\<lambda>j. unat (pos ! j)) [Suc cl..<level]") auto
    obtain i c' s' where g: "ext2_get_block b (c, s) = Some (0, Some i, c', s')" "held w V bs b i (c', s')"
      using get_block_ok[OF Suc.prems(1) on Suc.prems(8)] cs by auto
    show ?thesis
    proof (cases "Suc cl < level")
      case True
      let ?k = "unat (pos ! Suc cl)"
      have upt: "[Suc cl..<level] = Suc cl # [Suc (Suc cl)..<level]" using True by (simp add: upt_conv_Cons)
      have "length (V (unat b)) = bs" by (rule vol_length[OF Suc.prems(1) on])
      hence rd: "rd32 (bb_ptr (bc_blocks c' ! i)) (4 * ?k) = Some (le32 (V (unat b)) (4 * ?k))"
        using g(2) Suc.prems(7) True by (intro rd32_ok[THEN trans]) (simp_all add: held_def)
      obtain cs2 where p: "ext2_put_block b (c', s') = Some (0, cs2)" "vol w V bs cs2" using g(2) by (auto simp: held_def)
      have "dug w V bs (dig V (le32 (V (unat b)) (4 * ?k)) (map (\<lambda>j. unat (pos ! j)) [Suc (Suc cl)..<level]))
        (indirect_loop inode pos level (Suc cl) (le32 (V (unat b)) (4 * ?k)) (Some i) b cs2)"
        using Suc.hyps(2) Suc.prems True False upt
        by (intro Suc.hyps(1)[OF _ p(2)]) auto
      thus ?thesis using False Suc.prems(2) cb g(1) rd p(1) True
        by (subst cs, subst indirect_loop.simps) (simp add: upt split: prod.splits)
    next
      case False': False
      hence "level = Suc cl" using Suc.prems(2) by simp
      thus ?thesis using False cb g
        by (subst cs, subst indirect_loop.simps, simp, subst indirect_loop.simps) (simp add: dug_def)
    qed
  qed
qed simp

definition small_blocks :: "ext2 \<Rightarrow> bool" where
  "small_blocks e \<longleftrightarrow> s_log_block_size (e_sb e) \<le> 2"

lemma block_size_cases:
  assumes "small_blocks e"
  shows "ext2_bs e = 1024 \<or> ext2_bs e = 2048 \<or> ext2_bs e = 4096"
proof -
  have "unat (s_log_block_size (e_sb e)) \<le> 2" using assms by (simp add: small_blocks_def word_le_nat_alt)
  hence "unat (s_log_block_size (e_sb e)) = 0 \<or> unat (s_log_block_size (e_sb e)) = 1 \<or> unat (s_log_block_size (e_sb e)) = 2" by linarith
  thus ?thesis by (auto simp: EXT2_BLOCK_SIZE_def)
qed

lemma block_size_nat: "small_blocks e \<Longrightarrow> unat (ext2_bs e) = 1024 \<or> unat (ext2_bs e) = 2048 \<or> unat (ext2_bs e) = 4096"
  using block_size_cases by fastforce

text \<open>The positions that the code computes are the digits of the number of the leaf.\<close>

lemma block_pointer_pos:
  assumes e: "small_blocks e" and p: "p = unat (ext2_bs e) div 4" and n: "n = unat fb" "n < 12 + p + p ^ 2 + p ^ 3"
  shows "\<exists>level pos. ext2_calculate_block_pointer_pos e fb = (0, level, pos) \<and> map unat pos =
    (if n < 12 then [n] else if n < 12 + p then [12, n - 12]
     else if n < 12 + p + p ^ 2 then [13, (n - 12 - p) div p, (n - 12 - p) mod p]
     else [14, (n - 12 - p - p ^ 2) div p ^ 2, (n - 12 - p - p ^ 2) mod p ^ 2 div p, (n - 12 - p - p ^ 2) mod p ^ 2 mod p]) \<and>
    level = length pos - 1"
proof -
  let ?P = "EXT2_ADDR_PER_BLOCK (e_sb e)"
  have P: "unat ?P = p" using p by (simp add: EXT2_ADDR_PER_BLOCK_def unat_div)
  have pc: "p = 256 \<or> p = 512 \<or> p = 1024" using block_size_nat[OF e] p by auto
  have PP: "unat (?P * ?P) = p ^ 2" using pc P by (subst unat_mult_lem[THEN iffD1]) (auto simp: power2_eq_square)
  have PPP: "unat (?P * ?P * ?P) = p ^ 3" using pc P PP by (subst unat_mult_lem[THEN iffD1]) (auto simp: power2_eq_square power3_eq_cube)
  have u12: "unat (12 :: u32) = 12" by simp
  consider (d) "n < 12" | (i) "12 \<le> n" "n < 12 + p" | (ii) "12 + p \<le> n" "n < 12 + p + p ^ 2" | (iii) "12 + p + p ^ 2 \<le> n"
    by linarith
  thus ?thesis
  proof cases
    case d
    thus ?thesis using n by (simp add: ext2_calculate_block_pointer_pos_def word_less_nat_alt)
  next
    case i
    have "unat (fb - 12) = n - 12" using i n by (simp add: unat_sub word_le_nat_alt)
    thus ?thesis using i n P by (simp add: ext2_calculate_block_pointer_pos_def word_less_nat_alt Let_def)
  next
    case ii
    have a: "unat (fb - 12) = n - 12" using ii n by (simp add: unat_sub word_le_nat_alt)
    hence b: "unat (fb - 12 - ?P) = n - 12 - p" using ii P by (simp add: unat_sub word_le_nat_alt)
    have f: "\<not> n - 12 < p" "n - (12 + p) < p ^ 2" using ii by linarith+
    show ?thesis using ii n P a b PP f by (simp add: ext2_calculate_block_pointer_pos_def word_less_nat_alt Let_def unat_div unat_mod)
  next
    case iii
    have a: "unat (fb - 12) = n - 12" using iii n by (simp add: unat_sub word_le_nat_alt)
    hence b: "unat (fb - 12 - ?P) = n - 12 - p" using iii P by (simp add: unat_sub word_le_nat_alt)
    hence c: "unat (fb - 12 - ?P - ?P * ?P) = n - 12 - p - p ^ 2" using iii PP by (simp add: unat_sub word_le_nat_alt)
    have f: "\<not> n - 12 < p" "\<not> n - (12 + p) < p ^ 2" "n - (12 + p + p ^ 2) < p ^ 3" using iii n(2) by linarith+
    show ?thesis using iii n P a b c PP PPP f by (simp add: ext2_calculate_block_pointer_pos_def word_less_nat_alt Let_def unat_div unat_mod)
  qed
qed

lemma leaf_dig:
  "leaf p V 1 b n = dig V b ([] @ [n])" "leaf p V 2 b n = dig V b ([n div p] @ [n mod p])"
  "leaf p V 3 b n = dig V b ([n div p ^ 2, n mod p ^ 2 div p] @ [n mod p ^ 2 mod p])"
  by (simp_all add: numeral_2_eq_2 numeral_3_eq_3)

lemma leaf_ok_dig:
  "leaf_ok on p V 1 b n = dig_ok on V b []" "leaf_ok on p V 2 b n = dig_ok on V b [n div p]"
  "leaf_ok on p V 3 b n = dig_ok on V b [n div p ^ 2, n mod p ^ 2 div p]"
  by (simp_all add: numeral_2_eq_2 numeral_3_eq_3)

lemma indirect_block:
  assumes v: "vol w V bs cs" and i: "length (i_block inode) = 60" and bs: "0 < bs"
    and c: "ext2_calculate_block_pointer_pos e fb = (0, level, pos)" "map unat pos = q # ks @ [k]" "level = length pos - 1" "q < 15" "length ks \<le> 2"
    and k: "\<forall>x\<in>set (ks @ [k]). 4 * x + 4 \<le> bs" and d: "dig_ok (on_device w bs) V (ptr_of inode q) ks"
  shows "\<exists>cs'. file_block_to_fs_block e inode fb cs = Some (dig V (ptr_of inode q) (ks @ [k]), cs') \<and> vol w V bs cs'"
proof -
  have len: "length pos = length ks + 2" using arg_cong[OF c(2), of length] by simp
  have nth: "unat (pos ! j) = (q # ks @ [k]) ! j" if "j < length pos" for j using that c(2) nth_map[of j pos unat] by simp
  have m: "map (\<lambda>j. unat (pos ! j)) [Suc 0..<level] = ks" using len c(3) nth by (intro nth_equalityI) (simp_all add: nth_append del: upt_Suc)
  have q: "unat (pos ! 0) = q" using nth[of 0] len by simp
  have "\<forall>j. 0 < j \<and> j < level \<longrightarrow> 4 * unat (pos ! j) + 4 \<le> bs"
  proof (intro allI impI)
    fix j assume j: "0 < j \<and> j < level"
    hence "unat (pos ! j) = ks ! (j - 1)" "j - 1 < length ks" using nth[of j] len c(3) by (auto simp: nth_append nth_Cons')
    thus "4 * unat (pos ! j) + 4 \<le> bs" using k by simp
  qed
  hence dug: "dug w V bs (dig V (ptr_of inode q) ks) (indirect_loop inode pos level 0 0 None 0 cs)"
    using indirect_loop_ok[OF v, of 0 level pos inode "ptr_of inode q" 0 None 0] m q i len c(3,4) bs d by simp
  have lv: "0 < level" "level \<le> 3" using len c(3,5) by auto
  show ?thesis
  proof (cases "dig V (ptr_of inode q) ks = 0")
    case True
    thus ?thesis using dug lv c(1) by (auto simp: dug_def file_block_to_fs_block_def ext2_get_indirect_block_pointer_cache_block_def dig_snoc)
  next
    case False
    let ?t = "dig V (ptr_of inode q) ks"
    from dug False obtain i c' s' where l: "indirect_loop inode pos level 0 0 None 0 cs = Some (0, Some i, ?t, c', s')" "held w V bs ?t i (c', s')"
      by (auto simp: dug_def)
    obtain cs2 where p: "ext2_put_block ?t (c', s') = Some (0, cs2)" "vol w V bs cs2" using l(2) by (auto simp: held_def)
    have "dig_ok on V b ks \<Longrightarrow> dig V b ks \<noteq> 0 \<Longrightarrow> on (unat (dig V b ks))" for on b
      by (induction V b ks rule: dig.induct) (auto split: if_splits)
    hence "on_device w bs (unat ?t)" using d False by blast
    hence "length (V (unat ?t)) = bs" by (rule vol_length[OF v])
    moreover have "unat (pos ! level) = k" using nth[of level] len c(3) by (simp add: nth_append)
    ultimately have "rd32 (bb_ptr (bc_blocks c' ! i)) (4 * unat (pos ! level)) = Some (le32 (V (unat ?t)) (4 * k))"
      using l(2) k by (simp add: rd32_def held_def)
    thus ?thesis using l(1) p lv c(1) False
      by (auto simp: file_block_to_fs_block_def ext2_get_indirect_block_pointer_cache_block_def dig_snoc)
  qed
qed

lemma file_block_ok:
  assumes v: "vol w V bs cs" and i: "length (i_block inode) = 60" and e: "small_blocks e" "bs = unat (ext2_bs e)" "p = bs div 4"
    and n: "n = unat fb" "block_ok (on_device w bs) p V inode n"
  shows "\<exists>cs'. file_block_to_fs_block e inode fb cs = Some (file_block p V inode n, cs') \<and> vol w V bs cs'"
proof -
  have b: "n < 12 + p + p ^ 2 + p ^ 3" using n(2) by (simp add: block_ok_def)
  have pc: "bs = 4 * p" "0 < p" using block_size_nat[OF e(1)] e(2,3) by auto
  have bs: "0 < bs" using pc by simp
  obtain level pos where c: "ext2_calculate_block_pointer_pos e fb = (0, level, pos)" "level = length pos - 1" and m: "map unat pos =
    (if n < 12 then [n] else if n < 12 + p then [12, n - 12]
     else if n < 12 + p + p ^ 2 then [13, (n - 12 - p) div p, (n - 12 - p) mod p]
     else [14, (n - 12 - p - p ^ 2) div p ^ 2, (n - 12 - p - p ^ 2) mod p ^ 2 div p, (n - 12 - p - p ^ 2) mod p ^ 2 mod p])"
    using block_pointer_pos[OF e(1) _ n(1) b] e(2,3) by blast
  note tree = indirect_block[OF v i bs c(1) _ c(2)]
  consider (d) "n < 12" | (i) "12 \<le> n" "n < 12 + p" | (ii) "12 + p \<le> n" "n < 12 + p + p ^ 2" | (iii) "12 + p + p ^ 2 \<le> n"
    by linarith
  thus ?thesis
  proof cases
    case d
    hence "level = 0" using m c(2) by (cases pos) auto
    thus ?thesis using d c(1) n(1) i v by (simp add: file_block_to_fs_block_def file_block_def ptr_of_def rd32_ok)
  next
    case i
    have f: "file_block p V inode n = dig V (ptr_of inode 12) ([] @ [n - 12])"
      using i by (simp add: file_block_def leaf_dig(1) del: leaf.simps One_nat_def)
    have d: "dig_ok (on_device w bs) V (ptr_of inode 12) []" using i n(2) by (simp add: block_ok_def leaf_ok_dig(1) del: leaf_ok.simps One_nat_def)
    show ?thesis unfolding f by (rule tree[OF _ _ _ _ d]) (use i m pc in auto)
  next
    case ii
    let ?n = "n - 12 - p"
    have f: "file_block p V inode n = dig V (ptr_of inode 13) ([?n div p] @ [?n mod p])"
      using ii by (simp add: file_block_def leaf_dig(2) del: leaf.simps)
    have d: "dig_ok (on_device w bs) V (ptr_of inode 13) [?n div p]" using ii n(2) by (simp add: block_ok_def leaf_ok_dig(2) del: leaf_ok.simps dig_ok.simps)
    have "?n div p < p" using ii by (intro less_mult_imp_div_less) (simp add: power2_eq_square)
    moreover have "4 * (?n mod p) + 4 \<le> bs" using mod_less_divisor[OF pc(2), of ?n] pc(1) by linarith
    ultimately show ?thesis unfolding f by (intro tree[OF _ _ _ _ d]) (use ii m pc in auto)
  next
    case iii
    let ?n = "n - 12 - p - p ^ 2"
    have f: "file_block p V inode n = dig V (ptr_of inode 14) ([?n div p ^ 2, ?n mod p ^ 2 div p] @ [?n mod p ^ 2 mod p])"
      using iii by (simp add: file_block_def leaf_dig(3) del: leaf.simps dig.simps)
    have d: "dig_ok (on_device w bs) V (ptr_of inode 14) [?n div p ^ 2, ?n mod p ^ 2 div p]"
      using iii n(2) by (simp add: block_ok_def leaf_ok_dig(3) del: leaf_ok.simps dig_ok.simps)
    have "?n div p ^ 2 < p" using iii b by (intro less_mult_imp_div_less) (simp add: power2_eq_square power3_eq_cube)
    moreover have "?n mod p ^ 2 div p < p" using pc by (intro less_mult_imp_div_less) (simp add: power2_eq_square)
    moreover have "4 * (?n mod p ^ 2 mod p) + 4 \<le> bs" using mod_less_divisor[OF pc(2), of "?n mod p ^ 2"] pc(1) by linarith
    ultimately show ?thesis unfolding f by (intro tree[OF _ _ _ _ d]) (use iii m pc in auto)
  qed
qed

section \<open>The contents of a file\<close>

definition block_data :: "nat \<Rightarrow> (nat \<Rightarrow> u8 list) \<Rightarrow> u32 \<Rightarrow> u8 list" where
  "block_data bs V b = (if b = 0 then replicate bs 0 else V (unat b))"

definition file_byte :: "nat \<Rightarrow> (nat \<Rightarrow> u8 list) \<Rightarrow> ext2_inode \<Rightarrow> nat \<Rightarrow> u8" where
  "file_byte bs V inode n = block_data bs V (file_block (bs div 4) V inode (n div bs)) ! (n mod bs)"

definition file_bytes :: "nat \<Rightarrow> (nat \<Rightarrow> u8 list) \<Rightarrow> ext2_inode \<Rightarrow> nat \<Rightarrow> nat \<Rightarrow> u8 list" where
  "file_bytes bs V inode off k = map (file_byte bs V inode) [off..<off + k]"

text \<open>Every block of a range of the file is a hole or a block of the device, and so are the tables on the way.\<close>

definition range_ok :: "(nat \<Rightarrow> bool) \<Rightarrow> nat \<Rightarrow> (nat \<Rightarrow> u8 list) \<Rightarrow> ext2_inode \<Rightarrow> nat \<Rightarrow> nat \<Rightarrow> bool" where
  "range_ok on bs V inode off k \<longleftrightarrow> (\<forall>n. off div bs \<le> n \<and> n * bs < off + k \<longrightarrow> block_ok on (bs div 4) V inode n)"

lemma length_file_bytes [simp]: "length (file_bytes bs V inode off k) = k"
  by (simp add: file_bytes_def)

lemma file_bytes_append: "file_bytes bs V inode off (j + k) = file_bytes bs V inode off j @ file_bytes bs V inode (off + j) k"
  using upt_add_eq_append[of off "off + j" k] by (simp add: file_bytes_def add.assoc)

lemma file_bytes_block:
  assumes "0 < bs" "length (block_data bs V (file_block (bs div 4) V inode n)) = bs" "m + k \<le> bs"
  shows "file_bytes bs V inode (n * bs + m) k = take k (drop m (block_data bs V (file_block (bs div 4) V inode n)))"
proof (rule nth_equalityI)
  fix j assume "j < length (file_bytes bs V inode (n * bs + m) k)"
  hence j: "m + j < bs" "j < k" using assms(3) by auto
  have "(n * bs + (m + j)) div bs = n" "(n * bs + (m + j)) mod bs = m + j" using j by auto
  thus "file_bytes bs V inode (n * bs + m) k ! j = take k (drop m (block_data bs V (file_block (bs div 4) V inode n))) ! j"
    using j assms(2) by (simp add: file_bytes_def file_byte_def add.assoc)
qed (use assms in simp)

lemma range_block:
  assumes "range_ok on bs V inode off l" "k < l" "n * bs \<le> off + k" "off + k < n * bs + bs"
  shows "block_ok on (bs div 4) V inode n"
proof -
  have "n = (off + k) div bs" using assms(3,4) by (intro div_nat_eqI[symmetric]) (simp_all add: mult.commute)
  hence "off div bs \<le> n" by (simp add: div_le_mono)
  moreover have "n * bs < off + l" using assms(2,3) by linarith
  ultimately show ?thesis using assms(1) by (simp add: range_ok_def)
qed

lemma read_file_block_ok:
  assumes v: "vol w V bs cs" and i: "length (i_block inode) = 60" and e: "small_blocks e" "bs = unat (ext2_bs e)"
    and n: "block_ok (on_device w bs) (bs div 4) V inode (unat fb)" and l: "at + bs \<le> length buf"
  shows "\<exists>cs'. read_file_block e inode fb buf at cs = Some (overwrite buf at (file_bytes bs V inode (unat fb * bs) bs), cs') \<and> vol w V bs cs'"
    "length (block_data bs V (file_block (bs div 4) V inode (unat fb))) = bs"
proof -
  let ?b = "file_block (bs div 4) V inode (unat fb)"
  have bs: "0 < bs" using block_size_nat[OF e(1)] e(2) by auto
  have on: "?b = 0 \<or> on_device w bs (unat ?b)" using n by (simp add: block_ok_def)
  show len: "length (block_data bs V ?b) = bs" using on vol_length[OF v] by (auto simp: block_data_def)
  have d: "file_bytes bs V inode (unat fb * bs) bs = block_data bs V ?b" using file_bytes_block[OF bs len, of 0 bs] len by simp
  obtain cs1 where f: "file_block_to_fs_block e inode fb cs = Some (?b, cs1)" "vol w V bs cs1"
    using file_block_ok[OF v i e refl refl n] by blast
  show "\<exists>cs'. read_file_block e inode fb buf at cs = Some (overwrite buf at (file_bytes bs V inode (unat fb * bs) bs), cs') \<and> vol w V bs cs'"
  proof (cases "?b = 0")
    case True
    thus ?thesis using f l e(2) d by (simp add: read_file_block_def memcpy_to_overwrite block_data_def)
  next
    case False
    hence on': "on_device w bs (unat ?b)" using on by simp
    obtain cs2 where r: "ext2_read_block (drop at buf) ?b cs1 = Some (0, overwrite (drop at buf) 0 (V (unat ?b)), cs2)" "vol w V bs cs2"
      using read_block_ok[OF f(2) on', of "drop at buf"] l by fastforce
    have "take at buf @ overwrite (drop at buf) 0 (V (unat ?b)) = overwrite buf at (V (unat ?b))" by (simp add: overwrite_def add.commute)
    thus ?thesis using f(1) r False d by (simp add: read_file_block_def block_data_def)
  qed
qed

text \<open>How far a read of \<open>l\<close> bytes from \<open>off\<close> has come.\<close>

definition read_progress :: "nat \<times> nat \<times> nat \<Rightarrow> (nat \<Rightarrow> u8 list) \<Rightarrow> nat \<Rightarrow> ext2_inode \<Rightarrow> u8 list \<Rightarrow> nat \<Rightarrow> nat \<Rightarrow> nat \<Rightarrow> reading \<Rightarrow> bcache \<times> bio \<Rightarrow> bool" where
  "read_progress w V bs inode buf off l k r cs \<longleftrightarrow> (case r of (buf', at, fb, len, n) \<Rightarrow>
     buf' = overwrite buf 0 (file_bytes bs V inode off k) \<and> at = k \<and> k \<le> l \<and> unat len = l - k \<and> n = of_nat k \<and>
     (k < l \<longrightarrow> unat fb * bs = off + k)) \<and> vol w V bs cs"

text \<open>What the three parts of the read rely on.\<close>

definition file_readable :: "nat \<times> nat \<times> nat \<Rightarrow> (nat \<Rightarrow> u8 list) \<Rightarrow> ext2 \<Rightarrow> ext2_inode \<Rightarrow> nat \<Rightarrow> nat \<Rightarrow> bool" where
  "file_readable w V e inode off l \<longleftrightarrow> small_blocks e \<and> length (i_block inode) = 60 \<and>
     range_ok (on_device w (unat (ext2_bs e))) (unat (ext2_bs e)) V inode off l"

lemma block_number_small: "block_ok on (unat (ext2_bs e) div 4) V inode n \<Longrightarrow> small_blocks e \<Longrightarrow> n + 1 < 2 ^ 32"
  using block_size_nat[of e] by (auto simp: block_ok_def)

lemma next_block:
  fixes fb :: u32
  assumes r: "file_readable w V e inode off l" and bs: "bs = unat (ext2_bs e)" and fb: "unat fb * bs + m = off + k" "m < bs" "k < l"
  shows "block_ok (on_device w bs) (bs div 4) V inode (unat fb)" "unat (fb + 1) = unat fb + 1"
proof -
  have ok: "range_ok (on_device w bs) bs V inode off l" "small_blocks e" using r bs by (simp_all add: file_readable_def)
  show b: "block_ok (on_device w bs) (bs div 4) V inode (unat fb)" by (rule range_block[OF ok(1) fb(3)]) (use fb in linarith)+
  have "unat fb + 1 < 2 ^ 32" by (rule block_number_small[OF b[unfolded bs] ok(2)])
  thus "unat (fb + 1) = unat fb + 1" by (subst unat_add_lem[THEN iffD1]) simp_all
qed

lemma ucast_bs: "unat (ucast (ext2_bs e) :: u64) = unat (ext2_bs e)"
  by (simp add: unsigned_ucast_eq take_bit_nat_eq_self order_less_trans[OF unsigned_less[of "ext2_bs e"]])

lemma read_inode_middle_ok:
  assumes "read_progress w V bs inode buf off l k r cs" "file_readable w V e inode off l" "bs = unat (ext2_bs e)" "l \<le> length buf"
  shows "\<exists>k' r' cs'. read_inode_middle e inode r cs = Some (r', cs') \<and> read_progress w V bs inode buf off l k' r' cs' \<and> l - k' < bs"
  using assms
proof (induction "l - k" arbitrary: k r cs rule: less_induct)
  case less
  obtain buf' at fb len n where r: "r = (buf', at, fb, len, n)" by (cases r)
  note p = less.prems(1)[unfolded read_progress_def r prod.case]
  have ok: "small_blocks e" "length (i_block inode) = 60" using less.prems(2) by (simp_all add: file_readable_def)
  have bs: "0 < bs" using block_size_nat[OF ok(1)] less.prems(3) by auto
  have v: "vol w V bs cs" using p by simp
  show ?case
  proof (cases "bs \<le> l - k")
    case False
    hence "\<not> ucast (ext2_bs e) \<le> len" using p less.prems(3) by (simp add: word_le_nat_alt ucast_bs)
    thus ?thesis using less.prems(1) False by (intro exI[of _ k] exI[of _ r] exI[of _ cs]) (simp add: read_inode_middle.simps r)
  next
    case True
    hence le: "ucast (ext2_bs e) \<le> len" and kl: "k < l" using p less.prems(3) bs by (simp_all add: word_le_nat_alt ucast_bs)
    have fb: "unat fb * bs = off + k" using p kl by simp
    note nb = next_block[OF less.prems(2,3), of fb 0 k, simplified, OF fb bs kl]
    have room: "k + bs \<le> length buf'" using p True kl less.prems(4) by simp
    obtain cs1 where f: "read_file_block e inode fb buf' k cs = Some (overwrite buf' k (file_bytes bs V inode (off + k) bs), cs1)" "vol w V bs cs1"
      using read_file_block_ok(1)[OF v ok(2,1) less.prems(3) nb(1) room] fb by auto
    let ?r = "(overwrite buf 0 (file_bytes bs V inode off (k + bs)), k + bs, fb + 1, len - ucast (ext2_bs e), n + ext2_bs e)"
    have b: "overwrite buf' k (file_bytes bs V inode (off + k) bs) = overwrite buf 0 (file_bytes bs V inode off (k + bs))"
      using p True kl less.prems(4) overwrite_append[of 0 "file_bytes bs V inode off k" "file_bytes bs V inode (off + k) bs" buf]
      by (simp add: file_bytes_append)
    have "unat (len - ucast (ext2_bs e)) = l - (k + bs)" using le p less.prems(3) by (simp add: unat_sub ucast_bs)
    moreover have "n + ext2_bs e = of_nat (k + bs)" using p less.prems(3) by simp
    moreover have "unat (fb + 1) * bs = off + (k + bs)" using nb(2) fb by simp
    ultimately have "read_progress w V bs inode buf off l (k + bs) ?r cs1" using f(2) True kl by (simp add: read_progress_def)
    moreover have "l - (k + bs) < l - k" using bs kl by simp
    ultimately obtain k' r' cs' where
      "read_inode_middle e inode ?r cs1 = Some (r', cs')" "read_progress w V bs inode buf off l k' r' cs'" "l - k' < bs"
      using less.hyps less.prems(2-4) by blast
    moreover have "at = k" using p by simp
    hence "read_inode_middle e inode r cs = read_inode_middle e inode ?r cs1"
      using le f(1) b less.prems(3) by (subst read_inode_middle.simps) (simp add: r)
    ultimately show ?thesis by auto
  qed
qed

lemma read_inode_last_ok:
  assumes "read_progress w V bs inode buf off l k r cs" "file_readable w V e inode off l" "bs = unat (ext2_bs e)" "l \<le> length buf"
    "l - k < bs" "length temp = bs"
  shows "\<exists>cs'. read_inode_last e inode temp r cs = Some (overwrite buf 0 (file_bytes bs V inode off l), of_nat l, cs') \<and> vol w V bs cs'"
proof -
  obtain buf' at fb len n where r: "r = (buf', at, fb, len, n)" by (cases r)
  note p = assms(1)[unfolded read_progress_def r prod.case]
  have ok: "small_blocks e" "length (i_block inode) = 60" using assms(2) by (simp_all add: file_readable_def)
  have bs: "0 < bs" and v: "vol w V bs cs" using p assms(5) by simp_all
  show ?thesis
  proof (cases "k < l")
    case False
    thus ?thesis using p by (auto simp: read_inode_last_def r word_less_nat_alt)
  next
    case True
    hence fb: "unat fb * bs = off + k" and len: "0 < len" "unat len = l - k" using p by (simp_all add: word_less_nat_alt)
    note nb = next_block[OF assms(2,3), of fb 0 k, simplified, OF fb bs True]
    have room: "0 + bs \<le> length temp" using assms(6) by simp
    note f = read_file_block_ok[OF v ok(2,1) assms(3) nb(1) room]
    obtain cs1 where f1: "read_file_block e inode fb temp 0 cs = Some (overwrite temp 0 (file_bytes bs V inode (off + k) bs), cs1)" "vol w V bs cs1"
      using f(1) fb by auto
    have "overwrite temp 0 (file_bytes bs V inode (off + k) bs) = file_bytes bs V inode (off + k) bs" using assms(6) by (simp add: overwrite_def)
    moreover have "memcpy_from (file_bytes bs V inode (off + k) bs) 0 (unat len) = Some (file_bytes bs V inode (off + k) (l - k))"
      using len(2) assms(5) file_bytes_append[of bs V inode "off + k" "l - k" "bs - (l - k)"] by (simp add: memcpy_from_def)
    moreover have "memcpy_to buf' k (file_bytes bs V inode (off + k) (l - k)) = Some (overwrite buf 0 (file_bytes bs V inode off l))"
      using p True assms(4) overwrite_append[of 0 "file_bytes bs V inode off k" "file_bytes bs V inode (off + k) (l - k)" buf]
        file_bytes_append[of bs V inode off k "l - k"] by (simp add: memcpy_to_overwrite)
    moreover have "ucast len = (of_nat (unat len) :: u32)" by simp
    hence "n + ucast len = of_nat l" using p True len(2) by (simp flip: of_nat_add)
    ultimately show ?thesis using f1 len(1) p by (auto simp: read_inode_last_def r)
  qed
qed

lemma read_inode_first_ok:
  assumes v: "vol w V bs cs" and rd: "file_readable w V e inode off l" and bs: "bs = unat (ext2_bs e)" and l: "l \<le> length buf" "0 < l"
    and t: "length temp = bs" and o: "unat offset = off" "off < 2 ^ 63" and len: "unat len = l"
  shows "\<exists>k r cs'. read_inode_first e inode temp offset (buf, 0, of_int (sint offset sdiv uint (ext2_bs e)), len, 0) cs = Some (r, cs') \<and>
    read_progress w V bs inode buf off l k r cs'"
proof -
  let ?fb = "of_int (sint offset sdiv uint (ext2_bs e)) :: u32"
  have ok: "small_blocks e" "length (i_block inode) = 60" and rg: "range_ok (on_device w bs) bs V inode off l"
    using rd bs by (simp_all add: file_readable_def)
  have b0: "0 < bs" "bs \<le> 4096" using block_size_nat[OF ok(1)] bs by auto
  have so: "sint offset = int off" using sint_eq_unat[of offset] o by simp
  have u: "uint (ext2_bs e) = int bs" by (simp add: bs)
  have q: "sint offset sdiv uint (ext2_bs e) = int (off div bs)" "sint offset smod uint (ext2_bs e) = int (off mod bs)"
    unfolding so u using b0 by (auto simp: signed_divide_int_def signed_modulo_int_def zdiv_int zmod_int)
  have d: "off div bs * bs + off mod bs = off + 0" "off mod bs < bs" using b0 by simp_all
  have "block_ok (on_device w bs) (bs div 4) V inode (off div bs)" by (rule range_block[OF rg l(2)]) (use d in linarith)+
  hence "off div bs < 2 ^ 32" using block_number_small ok(1) bs by fastforce
  hence fb: "unat ?fb = off div bs" unfolding q(1) by (simp add: unsigned_of_nat take_bit_nat_eq_self)
  show ?thesis
  proof (cases "off mod bs = 0")
    case True
    hence "read_progress w V bs inode buf off l 0 (buf, 0, ?fb, len, 0) cs" using v len fb d(1) by (simp add: read_progress_def file_bytes_def)
    thus ?thesis using True q(2) by (auto simp: read_inode_first_def)
  next
    case False
    let ?m = "off mod bs" let ?bo = "of_int (int ?m) :: u64" let ?T = "min len (ucast (ext2_bs e) - ?bo)" let ?k = "min l (bs - ?m)"
    have d': "unat ?fb * bs + ?m = off + 0" using d(1) fb by simp
    note nb = next_block[OF rd bs d' d(2) l(2)]
    have room: "0 + bs \<le> length temp" using t by simp
    note f = read_file_block_ok[OF v ok(2,1) bs nb(1) room]
    obtain cs1 where f1: "read_file_block e inode ?fb temp 0 cs = Some (overwrite temp 0 (file_bytes bs V inode (unat ?fb * bs) bs), cs1)" "vol w V bs cs1"
      using f(1) by auto
    have tmp: "overwrite temp 0 (file_bytes bs V inode (unat ?fb * bs) bs) = file_bytes bs V inode (unat ?fb * bs) bs" using t by (simp add: overwrite_def)
    have bo: "unat ?bo = ?m" using d(2) b0(2) by (simp add: unsigned_of_nat take_bit_nat_eq_self)
    have "unat (ucast (ext2_bs e) - ?bo) = bs - ?m" using bo d(2) bs by (subst unat_sub) (simp_all add: ucast_bs word_le_nat_alt)
    hence T: "unat ?T = ?k" using len by (simp add: min_def word_le_nat_alt)
    have k: "?k \<le> l" "?m + ?k \<le> bs" using d(2) by auto
    have "take ?k (drop ?m (file_bytes bs V inode (unat ?fb * bs) bs)) = file_bytes bs V inode off ?k"
      using file_bytes_block[OF b0(1) f(2), of 0 bs] file_bytes_block[OF b0(1) f(2) k(2)] f(2) d' by simp
    hence c: "memcpy_from (file_bytes bs V inode (unat ?fb * bs) bs) (unat ?bo) (unat ?T) = Some (file_bytes bs V inode off ?k)"
      using T bo k(2) by (simp add: memcpy_from_def)
    have "memcpy_to buf 0 (file_bytes bs V inode off ?k) = Some (overwrite buf 0 (file_bytes bs V inode off ?k))"
      using l(1) k(1) by (simp add: memcpy_to_overwrite)
    hence rf: "read_inode_first e inode temp offset (buf, 0, ?fb, len, 0) cs =
        Some ((overwrite buf 0 (file_bytes bs V inode off ?k), ?k, ?fb + 1, len - ?T, ucast ?T), cs1)"
      using False q(2) f1(1) tmp c T by (simp add: read_inode_first_def Let_def)
    have u1: "unat (len - ?T) = l - ?k" using T len by (subst unat_sub) simp_all
    have "ucast ?T = (of_nat (unat ?T) :: u32)" by simp
    hence u2: "ucast ?T = (of_nat ?k :: u32)" unfolding T .
    have u3: "unat (?fb + 1) * bs = off + ?k" if "?k < l" using that nb(2) d' d(2) by (simp add: min_def split: if_splits)
    have "read_progress w V bs inode buf off l ?k (overwrite buf 0 (file_bytes bs V inode off ?k), ?k, ?fb + 1, len - ?T, ucast ?T) cs1"
      unfolding read_progress_def prod.case by (intro conjI impI refl k(1) u1 u2 u3 f1(2))
    with rf show ?thesis by blast
  qed
qed

lemma read_inode_ok:
  assumes v: "vol w V bs cs" and bs: "bs = unat (ext2_bs e)" and j: "\<forall>n. length (junk n) = n"
    and z: "size' = unat (ext2_file_len e inode)" "size' < 2 ^ 63" and o: "unat offset < 2 ^ 63" "unat offset + unat len < 2 ^ 64"
    and k: "k = min (unat len) (size' - unat offset)" "k \<le> length buf" "k < 2 ^ 31" and r: "file_readable w V e inode (unat offset) k"
  shows "\<exists>cs'. ext2_read_inode junk e inode buf offset len cs = Some (int k, overwrite buf 0 (file_bytes bs V inode (unat offset) k), cs') \<and> vol w V bs cs'"
proof -
  let ?fs = "ext2_file_len e inode" let ?len = "if ?fs \<le> offset + len then ?fs - offset else len"
  have "sint offset = int (unat offset)" "sint ?fs = int (unat ?fs)" using sint_eq_unat o(1) z by blast+
  hence so: "(sint ?fs < sint offset) = (size' < unat offset)" using z(1) by (simp only: of_nat_less_iff)
  show ?thesis
  proof (cases "size' < unat offset")
    case True
    thus ?thesis using so k(1) v by (simp add: ext2_read_inode_def file_bytes_def)
  next
    case False
    have "unat (offset + len) = unat offset + unat len" using o(2) by (subst unat_add_lem[THEN iffD1]) simp_all
    hence l: "unat ?len = k" using False z k(1) by (auto simp: word_le_nat_alt unat_sub)
    show ?thesis
    proof (cases "k = 0")
      case True
      hence "?len = 0" using l by (simp only: unat_eq_0)
      hence "ext2_read_inode junk e inode buf offset len cs = Some (0, buf, cs)"
        unfolding ext2_read_inode_def Let_def using so False by (simp only: if_False if_True simp_thms)
      thus ?thesis using True v by (simp add: file_bytes_def)
    next
      case False': False
      have nz: "?len \<noteq> 0"
      proof
        assume "?len = 0"
        hence "k = 0" unfolding l[symmetric] by (simp only: unat_0)
        with False' show False by contradiction
      qed
      have b0: "ext2_bs e \<noteq> 0" using r block_size_cases[of e] by (auto simp: file_readable_def)
      let ?t = "junk (unat (ext2_bs e))"
      have t: "length ?t = bs" using j bs by simp
      obtain k1 r1 cs1 where f: "read_inode_first e inode ?t offset (buf, 0, of_int (sint offset sdiv uint (ext2_bs e)), ?len, 0) cs = Some (r1, cs1)"
        "read_progress w V bs inode buf (unat offset) k k1 r1 cs1"
        using read_inode_first_ok[OF v r bs k(2) _ t refl o(1) l] False' by blast
      obtain k2 r2 cs2 where m: "read_inode_middle e inode r1 cs1 = Some (r2, cs2)" "read_progress w V bs inode buf (unat offset) k k2 r2 cs2" "k - k2 < bs"
        using read_inode_middle_ok[OF f(2) r bs k(2)] by blast
      obtain cs3 where a: "read_inode_last e inode ?t r2 cs2 = Some (overwrite buf 0 (file_bytes bs V inode (unat offset) k), of_nat k, cs3)" "vol w V bs cs3"
        using read_inode_last_ok[OF m(2) r bs k(2) m(3) t] by blast
      have "sint (of_nat k :: u32) = int k" using k(3) to_int_id[of k] by (simp add: to_int_def)
      moreover have "ext2_read_inode junk e inode buf offset len cs = Some (sint (of_nat k :: u32), overwrite buf 0 (file_bytes bs V inode (unat offset) k), cs3)"
        unfolding ext2_read_inode_def Let_def using so False nz b0 f(1) m(1) a(1)
        by (simp only: if_False if_True ASSERT_def Option.bind_lunit prod.case simp_thms)
      ultimately show ?thesis using a(2) by auto
    qed
  qed
qed

section \<open>Inodes and mounting\<close>

text \<open>The table of inodes as a range of the bytes of the volume.\<close>

definition vol_bytes :: "nat \<Rightarrow> (nat \<Rightarrow> u8 list) \<Rightarrow> nat \<Rightarrow> nat \<Rightarrow> u8 list" where
  "vol_bytes bs V n k = map (\<lambda>n. V (n div bs) ! (n mod bs)) [n..<n + k]"

abbreviation ext2_ipg :: "ext2 \<Rightarrow> nat" where
  "ext2_ipg e \<equiv> unat (s_inodes_per_group (e_sb e))"

abbreviation ext2_isz :: "ext2 \<Rightarrow> nat" where
  "ext2_isz e \<equiv> unat (EXT2_INODE_SIZE (e_sb e))"

definition inode_pos :: "ext2 \<Rightarrow> u32 \<Rightarrow> nat" where
  "inode_pos e i = unat (bg_inode_table (e_gd e ! ((unat i - 1) div ext2_ipg e))) * unat (ext2_bs e) + (unat i - 1) mod ext2_ipg e * ext2_isz e"

definition inode_at :: "ext2 \<Rightarrow> (nat \<Rightarrow> u8 list) \<Rightarrow> u32 \<Rightarrow> ext2_inode" where
  "inode_at e V i = endian_swap_inode (vol_bytes (unat (ext2_bs e)) V (inode_pos e i) 128)"

text \<open>A super block with sane sizes, and an inode number whose inode is on the device.\<close>

definition sane :: "ext2 \<Rightarrow> bool" where
  "sane e \<longleftrightarrow> small_blocks e \<and> 0 < ext2_ipg e \<and> 128 \<le> ext2_isz e \<and> ext2_isz e dvd unat (ext2_bs e) \<and> ext2_ipg e * ext2_isz e < 2 ^ 32"

definition valid_inum :: "nat \<times> nat \<times> nat \<Rightarrow> ext2 \<Rightarrow> u32 \<Rightarrow> bool" where
  "valid_inum w e i \<longleftrightarrow> i \<noteq> 0 \<and> (unat i - 1) div ext2_ipg e < length (e_gd e) \<and> on_device w (unat (ext2_bs e)) (inode_pos e i div unat (ext2_bs e))"

lemma vol_bytes_block:
  assumes "n mod bs + k \<le> bs" "length (V (n div bs)) = bs" "0 < bs"
  shows "vol_bytes bs V n k = take k (drop (n mod bs) (V (n div bs)))"
proof (rule nth_equalityI)
  fix j assume "j < length (vol_bytes bs V n k)"
  hence j: "j < k" "n mod bs + j < bs" using assms(1) by (auto simp: vol_bytes_def)
  have "(n + j) div bs = n div bs \<and> (n + j) mod bs = n mod bs + j"
    using j(2) div_mult_mod_eq[of n bs] by (metis add.assoc div_less div_mult_self3 mod_less mod_mult_self3 add_0_right less_nat_zero_code)
  thus "vol_bytes bs V n k ! j = take k (drop (n mod bs) (V (n div bs))) ! j"
    using j assms(2) by (simp add: vol_bytes_def)
qed (use assms in \<open>simp add: vol_bytes_def\<close>)

lemma device_block_small: "vol w V bs cs \<Longrightarrow> on_device w bs b \<Longrightarrow> 0 < bs \<Longrightarrow> b < 2 ^ 32"
proof -
  assume v: "vol w V bs cs" and b: "on_device w bs b" "0 < bs"
  obtain r base n where w: "w = (r, base, n)" by (cases w)
  have "window (snd cs) (bc_dev (fst cs)) r base n"
    using v w by (cases cs) (auto simp: vol_def bc_inv_def cache_inv_def entries_inv_def is_window_def)
  hence "n < 2 ^ 32" by (rule window_facts(2))
  moreover have "(b + 1) * 1 \<le> (b + 1) * bs" using b(2) by (intro mult_le_mono2) simp
  hence "(b + 1) * 1 \<le> n" using b(1) unfolding on_device_def w snd_conv by (rule order_trans)
  ultimately show "b < 2 ^ 32" by simp
qed

lemma mod_grid: "(t * (z * q) + k * z) mod (z * q) = z * (k mod q)" for t z q k :: nat
  by (simp only: mod_mult_self3 mult.commute[of k z] mult_mod_right)

lemma inode_fits:
  assumes "sane e"
  shows "inode_pos e i mod unat (ext2_bs e) + 128 \<le> unat (ext2_bs e)"
proof -
  have bs: "0 < unat (ext2_bs e)" using assms block_size_nat[of e] by (auto simp: sane_def)
  obtain q where q: "unat (ext2_bs e) = ext2_isz e * q" using assms by (auto simp: sane_def)
  let ?k = "(unat i - 1) mod ext2_ipg e"
  have "inode_pos e i mod unat (ext2_bs e) = ext2_isz e * (?k mod q)"
    unfolding inode_pos_def q by (rule mod_grid)
  moreover have "0 < q" using q bs by (cases q) auto
  hence "?k mod q + 1 \<le> q" by (simp add: Suc_leI)
  hence "ext2_isz e * (?k mod q + 1) \<le> ext2_isz e * q" by (rule mult_le_mono2)
  moreover have "128 \<le> ext2_isz e" using assms by (simp add: sane_def)
  ultimately show ?thesis using q by (simp add: distrib_left)
qed

lemma inode_addr_ok:
  assumes s: "sane e" and v: "vol w V bs cs" "bs = unat (ext2_bs e)" and i: "valid_inum w e i"
  shows "\<exists>b x. get_inode_addr e i = Some (b, x) \<and> unat b = inode_pos e i div bs \<and> unat x = inode_pos e i mod bs"
proof -
  let ?n = "i - 1" let ?g = "s_inodes_per_group (e_sb e)" let ?z = "EXT2_INODE_SIZE (e_sb e)"
  let ?t = "bg_inode_table (e_gd e ! unat (?n div ?g))" let ?o = "(?n mod ?g) * ?z"
  have bs: "0 < bs" "ext2_bs e \<noteq> 0" using s v(2) block_size_cases[of e] by (auto simp: sane_def)
  have "1 \<le> unat i" using i unat_gt_0[of i] by (simp add: valid_inum_def)
  hence n: "unat ?n = unat i - 1" by (simp add: unat_sub word_le_nat_alt)
  have g: "0 < unat ?g" "?g \<noteq> 0" using s by (auto simp: sane_def)
  have "unat (?n mod ?g) < unat ?g" using g by (simp add: unat_mod)
  hence "unat (?n mod ?g) * unat ?z \<le> unat ?g * unat ?z" by simp
  also have "\<dots> < 2 ^ 32" using s by (simp add: sane_def)
  finally have o: "unat ?o = (unat i - 1) mod unat ?g * unat ?z" using n by (subst unat_mult_lem[THEN iffD1]) (simp_all add: unat_mod)
  have p: "inode_pos e i = unat ?t * bs + unat ?o" using o n v(2) by (simp add: inode_pos_def unat_div)
  hence d: "inode_pos e i div bs = unat ?t + unat ?o div bs" using bs by simp
  have "on_device w bs (inode_pos e i div bs)" using i v(2) by (simp add: valid_inum_def)
  hence "unat ?t + unat (?o div ext2_bs e) < 2 ^ 32" using device_block_small[OF v(1) _ bs(1)] d v(2) by (simp add: unat_div)
  hence "unat (?t + ?o div ext2_bs e) = inode_pos e i div bs" using d v(2) by (subst unat_add_lem[THEN iffD1]) (simp_all add: unat_div)
  moreover have "unat (?o mod ext2_bs e) = inode_pos e i mod bs" using p v(2) by (simp add: unat_mod)
  moreover have "unat (?n div ?g) < length (e_gd e)" using i n by (simp add: valid_inum_def unat_div)
  hence "get_inode_addr e i = Some (?t + ?o div ext2_bs e, ?o mod ext2_bs e)" using g bs by (simp add: get_inode_addr_def Let_def ASSERT_def)
  ultimately show ?thesis by blast
qed

lemma load_inode_ok:
  assumes s: "sane e" and v: "vol w V bs cs" "bs = unat (ext2_bs e)" and i: "valid_inum w e i"
  shows "\<exists>cs'. ext2_load_inode e i cs = Some (0, Some (inode_at e V i), cs') \<and> vol w V bs cs'"
proof -
  obtain b x where a: "get_inode_addr e i = Some (b, x)" "unat b = inode_pos e i div bs" "unat x = inode_pos e i mod bs"
    using inode_addr_ok[OF assms] by blast
  have bs: "0 < bs" using s v(2) block_size_nat[of e] by (auto simp: sane_def)
  have on: "on_device w bs (unat b)" using i a(2) v(2) by (simp add: valid_inum_def)
  obtain k c' s' where g: "ext2_get_block b cs = Some (0, Some k, c', s')" "held w V bs b k (c', s')"
    using get_block_ok[OF v(1) on bs] by auto
  obtain cs2 where p: "ext2_put_block b (c', s') = Some (0, cs2)" "vol w V bs cs2" using g(2) by (auto simp: held_def)
  have fit: "unat x + 128 \<le> bs" using inode_fits[OF s, of i] v(2) a(3) by simp
  have l: "length (V (unat b)) = bs" by (rule vol_length[OF v(1) on])
  have "vol_bytes bs V (inode_pos e i) 128 = take 128 (drop (unat x) (V (unat b)))"
    using vol_bytes_block[of "inode_pos e i" bs 128 V] fit l bs a(2,3) by simp
  hence "memcpy_from (bb_ptr (bc_blocks c' ! k)) (unat x) 128 = Some (vol_bytes bs V (inode_pos e i) 128)"
    using g(2) fit l by (simp add: memcpy_from_def held_def)
  thus ?thesis using a(1) g(1) p v(2) by (auto simp: ext2_load_inode_def ext2_get_block_def ext2_put_block_def inode_at_def)
qed

text \<open>The volume that the bytes \<open>D\<close> of a device describe.\<close>

definition disk_super :: "u8 list \<Rightarrow> ext2_super_block" where
  "disk_super D = endian_swap_superblock (take 1024 (drop 1024 D))"

definition disk_blocks :: "u8 list \<Rightarrow> nat \<Rightarrow> u8 list" where
  "disk_blocks D b = (let bs = unat (EXT2_BLOCK_SIZE (disk_super D)) in take bs (drop (b * bs) D))"

definition disk_groups :: "u8 list \<Rightarrow> nat" where
  "disk_groups D = (let bpg = unat (s_blocks_per_group (disk_super D)) in (unat (s_blocks_count (disk_super D)) + (bpg - 1)) div bpg)"

definition disk_gd_at :: "u8 list \<Rightarrow> nat" where
  "disk_gd_at D = (if EXT2_BLOCK_SIZE (disk_super D) = 4096 then 4096 else 2048)"

definition disk_volume :: "u8 list \<Rightarrow> ext2_inode \<Rightarrow> ext2" where
  "disk_volume D root = \<lparr>e_sb = disk_super D, e_group_count = int (disk_groups D),
     e_gd = map (\<lambda>i. endian_swap_group_desc (take 32 (drop (disk_gd_at D + 32 * i) D))) [0..<disk_groups D], e_root_inode = root\<rparr>"

definition mountable :: "nat \<times> nat \<times> nat \<Rightarrow> u8 list \<Rightarrow> bool" where
  "mountable w D \<longleftrightarrow> 2048 \<le> length D \<and> s_magic (disk_super D) = 0xEF53 \<and> s_rev_level (disk_super D) \<le> 1 \<and>
     s_feature_ro_compat (disk_super D) AND NOT 3 = 0 \<and> s_blocks_per_group (disk_super D) \<noteq> 0 \<and>
     unat (s_blocks_count (disk_super D)) + unat (s_blocks_per_group (disk_super D)) \<le> 2 ^ 31 \<and>
     disk_gd_at D + 32 * disk_groups D \<le> length D \<and> 32 * disk_groups D < 2 ^ 31 \<and> (\<forall>root. sane (disk_volume D root) \<and> valid_inum w (disk_volume D root) 2)"

lemma bytes_ok:
  assumes "window s d r base n" "off + k \<le> n" "unat offset = off" "unat len = k" "length buf = k"
  shows "bio_read d buf 0 offset len s = Some (int k, take k (drop off (window_data r base n s)))"
proof -
  note l = length_window_data[OF assms(1)]
  have n: "n < 2 ^ 32" by (rule window_facts(2)[OF assms(1)])
  have "bio_read d buf 0 offset len s = Some (int k, overwrite buf 0 (take k (drop (unat offset) (window_data r base n s))))"
    using assms n l by (intro bv.read_bytes) (auto simp: clip_def)
  thus ?thesis using assms l by (simp add: overwrite_def)
qed

lemma of_nat_u64: "k < 2 ^ 64 \<Longrightarrow> unat (of_nat k :: u64) = k"
  by (simp add: unsigned_of_nat take_bit_nat_eq_self)

lemma super_read:
  assumes "window s d r base n" "2048 \<le> n" "D = window_data r base n s" "length buf = 1024"
  shows "bio_read d buf 0 1024 1024 s = Some (1024, take 1024 (drop 1024 D))"
  using bytes_ok[OF assms(1), of 1024 1024 1024 1024 buf] assms by simp

lemma sint32: "unat (x :: u32) < 2 ^ 31 \<Longrightarrow> sint x = int (unat x)"
  using to_int_id[of "unat x"] by (simp add: to_int_def)

lemma group_count_ok:
  fixes a b :: u32
  assumes "b \<noteq> 0" "unat a + unat b \<le> 2 ^ 31"
  shows "sint ((a + b - 1) div b) = int ((unat a + (unat b - 1)) div unat b)"
proof -
  have b: "0 < unat b" using assms(1) by (simp add: unat_gt_0)
  have "unat (a + b) = unat a + unat b" using assms(2) by (subst unat_add_lem[THEN iffD1]) simp_all
  hence n: "unat (a + b - 1) = unat a + (unat b - 1)" using b by (subst unat_sub) (simp_all add: word_le_nat_alt)
  have u: "unat ((a + b - 1) div b) = (unat a + (unat b - 1)) div unat b" unfolding unat_div n ..
  have "(unat a + (unat b - 1)) div unat b \<le> unat a + (unat b - 1)" by simp
  hence "unat ((a + b - 1) div b) < 2 ^ 31" unfolding u using assms(2) b by linarith
  from sint32[OF this] show ?thesis unfolding u .
qed

lemma ext2_mount_ok:
  assumes w: "window s dev r base n" and D: "D = window_data r base n s" and m: "mountable (r, base, n) D"
    and j: "\<forall>k. length (junk k) = k" "\<forall>i < 4. length (snd (cjunk i)) = unat (EXT2_BLOCK_SIZE (disk_super D))"
  shows "\<exists>c s' root. ext2_mount junk cjunk dev s = Some (0, Some (disk_volume D root, c), s') \<and>
    root = inode_at (disk_volume D root) (disk_blocks D) 2 \<and> vol (r, base, n) (disk_blocks D) (unat (EXT2_BLOCK_SIZE (disk_super D))) (c, s')"
proof -
  let ?sb = "disk_super D" let ?bs = "unat (EXT2_BLOCK_SIZE ?sb)" let ?e = "disk_volume D (endian_swap_inode (junk 128))"
  have len: "length D = n" using length_window_data[OF w] D by simp
  have mm: "2048 \<le> n" "s_magic ?sb = 0xEF53" "\<not> 1 < s_rev_level ?sb" "s_feature_ro_compat ?sb AND NOT 3 = 0" "s_blocks_per_group ?sb \<noteq> 0"
    "unat (s_blocks_count ?sb) + unat (s_blocks_per_group ?sb) \<le> 2 ^ 31" "disk_gd_at D + 32 * disk_groups D \<le> n" "sane ?e" "valid_inum (r, base, n) ?e 2" "32 * disk_groups D < 2 ^ 31"
    using m len by (simp_all add: mountable_def not_less)
  have sb: "e_sb ?e = ?sb" by (simp add: disk_volume_def)
  have small: "small_blocks ?e" using mm(8) by (simp add: sane_def)
  hence log: "s_log_block_size ?sb < 32" using sb by (simp add: small_blocks_def word_le_nat_alt word_less_nat_alt)
  have bs: "0 < ?bs" "?bs < 2 ^ 31" using block_size_nat[OF small] sb by auto
  have n: "n < 2 ^ 32" by (rule window_facts(2)[OF w])
  have cnt: "sint ((s_blocks_count ?sb + s_blocks_per_group ?sb - 1) div s_blocks_per_group ?sb) = int (disk_groups D)"
    using group_count_ok[OF mm(5,6)] by (simp add: disk_groups_def Let_def)
  let ?len = "32 * disk_groups D" let ?g = "take ?len (drop (disk_gd_at D) D)"
  have l: "unat (of_nat ?len :: u64) = ?len" using of_nat_u64[of ?len] mm(7) n by simp
  have g: "bio_read dev (junk ?len) 0 (if EXT2_BLOCK_SIZE ?sb = 4096 then 4096 else 2048) (of_nat ?len) s = Some (int ?len, ?g)"
    unfolding D by (rule bytes_ok[OF w]) (use mm(7) l j(1) D in \<open>auto simp: disk_gd_at_def\<close>)
  have er: "\<lparr>e_sb = ?sb, e_group_count = int (disk_groups D), e_gd = map (\<lambda>i. endian_swap_group_desc (take 32 (drop (32 * i) ?g))) [0..<disk_groups D],
      e_root_inode = endian_swap_inode (junk 128)\<rparr> = ?e"
    using mm(7) by (auto simp: disk_volume_def take_drop add.commute min_def)
  let ?c = "bcache_create cjunk dev (ucast (EXT2_BLOCK_SIZE ?sb)) 4"
  have ub: "unat (ucast (EXT2_BLOCK_SIZE ?sb) :: u64) = ?bs" using ucast_bs[of ?e] sb by simp
  note ci = bcache_create_inv[OF w, of "ucast (EXT2_BLOCK_SIZE ?sb)" 4 cjunk, unfolded ub, OF bs j(2)]
  have "dev_block (r, base, n) ?bs s = disk_blocks D" by (simp add: dev_block_def disk_blocks_def D Let_def fun_eq_iff)
  hence v: "vol (r, base, n) (disk_blocks D) ?bs (?c, s)" using ci by (simp add: vol_def) (simp add: bcache_create_def)
  obtain c' s' where ld: "ext2_load_inode ?e 2 (?c, s) = Some (0, Some (inode_at ?e (disk_blocks D) 2), c', s')" "vol (r, base, n) (disk_blocks D) ?bs (c', s')"
    using load_inode_ok[OF mm(8) v _ mm(9)] sb by auto
  let ?root = "inode_at ?e (disk_blocks D) 2"
  have e': "?e\<lparr>e_root_inode := ?root\<rparr> = disk_volume D ?root" by (simp add: disk_volume_def)
  have "inode_at (disk_volume D ?root) (disk_blocks D) 2 = ?root" by (simp add: inode_at_def inode_pos_def disk_volume_def)
  moreover have "ext2_mount junk cjunk dev s = Some (0, Some (disk_volume D ?root, c'), s')"
    unfolding ext2_mount_def super_read[OF w mm(1) D j(1)[rule_format]] using mm(2-5) log cnt g er ld(1) e' to_int_id[OF mm(10)]
    by (simp add: disk_super_def[symmetric] Let_def ASSERT_def to_int_def del: of_nat_mult)
  ultimately show ?thesis using ld(2) by metis
qed

end
