(* ===== verification/LK_Ext2_Dir.thy ===== *)
theory LK_Ext2_Dir
  imports LK_Ext2
begin

text \<open>
  Directories, the lookup of paths with symbolic links, and open files of ext2 (\<^verbatim>\<open>lib/fs/ext2/dir.c\<close> and \<^verbatim>\<open>file.c\<close>).
  The walk over a path overwrites separators by terminators; the rest of a path is the list of its bytes from the
  current place on. The depth of the recursion is what is left of the limit of four.
\<close>

section \<open>The code\<close>

unbundle bit_operations_syntax

text \<open>The entries of one block of a directory, from the position on; the result is the inode of a match.\<close>

partial_function (option) dir_scan :: "u32 \<Rightarrow> u8 list \<Rightarrow> u8 list \<Rightarrow> nat \<Rightarrow> u32 \<Rightarrow> u32 option option" where
  "dir_scan bs buf name namelen pos =
     (if pos < bs
      then do {
        rec_len \<leftarrow> rd16 buf (unat pos + 4);
        if rec_len = 0 then Some None
        else do {
          name_len \<leftarrow> rd8 buf (unat pos + 6);
          found \<leftarrow> (if unat name_len = namelen
            then map_option (\<lambda>r. r = 0) (memcmp name (drop (unat pos + 8) buf) (unat name_len)) else Some False);
          if found then map_option Some (rd32 buf (unat pos))
          else dir_scan bs buf name namelen (pos + ((ucast rec_len + 3) AND NOT 3))
        }
      }
      else Some None)"

partial_function (option) dir_blocks :: "(nat \<Rightarrow> u8 list) \<Rightarrow> ext2 \<Rightarrow> ext2_inode \<Rightarrow> u8 list \<Rightarrow> nat \<Rightarrow> u8 list \<Rightarrow> u32 \<Rightarrow> bcache \<times> bio \<Rightarrow>
    (int \<times> u32 option \<times> bcache \<times> bio) option" where
  "dir_blocks junk e dir_inode name namelen buf file_blocknum cs = do {
     (err, buf, cs) \<leftarrow> ext2_read_inode junk e dir_inode buf (ucast (file_blocknum * ext2_bs e)) (ucast (ext2_bs e)) cs;
     if err \<le> 0 then Some (-1, None, cs)
     else do {
       found \<leftarrow> dir_scan (ext2_bs e) buf name namelen 0;
       (case found of
          Some inum \<Rightarrow> Some (1, Some inum, cs)
        | None \<Rightarrow>
            let file_blocknum = file_blocknum + 1
            in if 1024 < file_blocknum then Some (-1, None, cs)
               else dir_blocks junk e dir_inode name namelen buf file_blocknum cs)
     }
   }"

definition ext2_dir_lookup :: "(nat \<Rightarrow> u8 list) \<Rightarrow> ext2 \<Rightarrow> ext2_inode \<Rightarrow> u8 list \<Rightarrow> bcache \<times> bio \<Rightarrow> (int \<times> u32 option \<times> bcache \<times> bio) option" where
  "ext2_dir_lookup junk e dir_inode name cs = do {
     namelen \<leftarrow> strlen name;
     if \<not> S_ISDIR (i_mode dir_inode) then Some (ERR_NOT_DIR, None, cs)
     else dir_blocks junk e dir_inode name namelen (junk (unat (ext2_bs e))) 0 cs
   }"

text \<open>How many separators a string starts with.\<close>

fun slashes :: "u8 list \<Rightarrow> nat option" where
  "slashes [] = None"
| "slashes (c # s) = (if c = 47 then map_option Suc (slashes s) else Some 0)"

text \<open>
  From the label \<^verbatim>\<open>nextcomponent\<close> on: follow the inode \<open>inum\<close>. \<open>walk\<close> is the recursive call. The results are
  the error, the new directory and the inode number.
\<close>

partial_function (option) nextcomponent ::
  "(nat \<Rightarrow> u8 list) \<Rightarrow> ext2 \<Rightarrow> (u8 list \<Rightarrow> ext2_inode \<Rightarrow> u32 \<Rightarrow> bcache \<times> bio \<Rightarrow> (int \<times> u32 \<times> bcache \<times> bio) option) \<Rightarrow> bool \<Rightarrow>
   ext2_inode \<Rightarrow> u32 \<Rightarrow> bcache \<times> bio \<Rightarrow> (int \<times> ext2_inode \<times> u32 \<times> bcache \<times> bio) option" where
  "nextcomponent junk e walk finished dir_inode inum cs = do {
     (err, loaded, cs) \<leftarrow> ext2_load_inode e inum cs;
     if err < 0 then Some (err, dir_inode, inum, cs)
     else do {
       inode \<leftarrow> loaded;
       if S_ISLNK (i_mode inode)
       then do {
         (err, link, cs) \<leftarrow> ext2_read_link junk e inode (junk 512) 512 cs;
         if err < 0 then Some (err, dir_inode, inum, cs)
         else do {
           c \<leftarrow> rd8 link 0;
           (err, inum, cs) \<leftarrow> walk link (if c = 47 then e_root_inode e else dir_inode) inum cs;
           if err < 0 then Some (err, dir_inode, inum, cs)
           else if \<not> finished then nextcomponent junk e walk finished dir_inode inum cs
           else Some (0, dir_inode, inum, cs)
         }
       }
       else if S_ISDIR (i_mode inode) then Some (0, inode, inum, cs)
       else if \<not> finished then Some (ERR_NOT_FOUND, dir_inode, inum, cs)
       else Some (0, dir_inode, inum, cs)
     }
   }"

partial_function (option) walk_loop ::
  "(nat \<Rightarrow> u8 list) \<Rightarrow> ext2 \<Rightarrow> (u8 list \<Rightarrow> ext2_inode \<Rightarrow> u32 \<Rightarrow> bcache \<times> bio \<Rightarrow> (int \<times> u32 \<times> bcache \<times> bio) option) \<Rightarrow>
   u8 list \<Rightarrow> ext2_inode \<Rightarrow> u32 \<Rightarrow> bcache \<times> bio \<Rightarrow> (int \<times> u32 \<times> bcache \<times> bio) option" where
  "walk_loop junk e walk ptr dir_inode inum cs = do {
     next_sep \<leftarrow> strchr ptr 47;
     (err, found, cs) \<leftarrow> ext2_dir_lookup junk e dir_inode (case next_sep of Some k \<Rightarrow> ptr[k := 0] | None \<Rightarrow> ptr) cs;
     if err < 0 then Some (err, inum, cs)
     else do {
       inum \<leftarrow> found;
       (err, dir_inode, inum, cs) \<leftarrow> nextcomponent junk e walk (next_sep = None) dir_inode inum cs;
       if err < 0 then Some (err, inum, cs)
       else (case next_sep of
          None \<Rightarrow> Some (0, inum, cs)
        | Some k \<Rightarrow> do {
            n \<leftarrow> slashes (drop (Suc k) ptr);
            walk_loop junk e walk (drop (Suc k + n) ptr) dir_inode inum cs
          })
     }
   }"

text \<open>The first argument is \<open>5 - recurse\<close>.\<close>

primrec ext2_walk :: "nat \<Rightarrow> (nat \<Rightarrow> u8 list) \<Rightarrow> ext2 \<Rightarrow> u8 list \<Rightarrow> ext2_inode \<Rightarrow> u32 \<Rightarrow> bcache \<times> bio \<Rightarrow> (int \<times> u32 \<times> bcache \<times> bio) option" where
  "ext2_walk 0 junk e path start_inode inum cs = Some (ERR_RECURSE_TOO_DEEP, inum, cs)"
| "ext2_walk (Suc depth) junk e path start_inode inum cs = do {
     n \<leftarrow> slashes path;
     walk_loop junk e (ext2_walk depth junk e) (drop n path) start_inode inum cs
   }"

definition ext2_lookup :: "(nat \<Rightarrow> u8 list) \<Rightarrow> ext2 \<Rightarrow> u8 list \<Rightarrow> u32 \<Rightarrow> bcache \<times> bio \<Rightarrow> (int \<times> u32 \<times> bcache \<times> bio) option" where
  "ext2_lookup junk e path inum cs = do {
     (_, p) \<leftarrow> strlcpy (junk 512) path 512;
     ext2_walk 4 junk e p (e_root_inode e) inum cs
   }"

text \<open>An open file is its inode; \<^verbatim>\<open>ind_cache\<close> is never filled.\<close>

definition ext2_open_file :: "(nat \<Rightarrow> u8 list) \<Rightarrow> ext2 \<Rightarrow> u8 list \<Rightarrow> bcache \<times> bio \<Rightarrow> (int \<times> ext2_inode option \<times> bcache \<times> bio) option" where
  "ext2_open_file junk e path cs = do {
     (err, inum, cs) \<leftarrow> ext2_lookup junk e path (le32 (junk 4) 0) cs;
     if err < 0 then Some (err, None, cs)
     else do {
       (err, inode, cs) \<leftarrow> ext2_load_inode e inum cs;
       if err < 0 then Some (err, None, cs) else Some (0, inode, cs)
     }
   }"

definition ext2_read_file :: "(nat \<Rightarrow> u8 list) \<Rightarrow> ext2 \<Rightarrow> ext2_inode \<Rightarrow> u8 list \<Rightarrow> u64 \<Rightarrow> u64 \<Rightarrow> bcache \<times> bio \<Rightarrow>
    (int \<times> u8 list \<times> bcache \<times> bio) option" where
  "ext2_read_file junk e inode buf offset len cs =
     (if \<not> S_ISREG (i_mode inode) then Some (-1, buf, cs) else ext2_read_inode junk e inode buf offset len cs)"

definition ext2_stat_file :: "ext2 \<Rightarrow> ext2_inode \<Rightarrow> int \<times> bool \<times> u64" where
  "ext2_stat_file e inode = (0, S_ISDIR (i_mode inode), ext2_file_len e inode)"

section \<open>Directories as lists of names\<close>

definition rec_len_at :: "u8 list \<Rightarrow> nat \<Rightarrow> nat" where
  "rec_len_at blk pos = (unat (le16 blk (pos + 4)) + 3) div 4 * 4"

lemma rec_len_pos: "le16 blk (pos + 4) \<noteq> 0 \<Longrightarrow> 0 < rec_len_at blk pos"
proof -
  assume "le16 blk (pos + 4) \<noteq> 0"
  hence "1 \<le> unat (le16 blk (pos + 4))" using unat_gt_0[of "le16 blk (pos + 4)"] by simp
  thus ?thesis by (simp add: rec_len_at_def)
qed

function entries :: "u8 list \<Rightarrow> nat \<Rightarrow> (u8 list \<times> u32) list" where
  "entries blk pos =
     (if pos < length blk \<and> le16 blk (pos + 4) \<noteq> 0
      then (take (unat (blk ! (pos + 6))) (drop (pos + 8) blk), le32 blk pos) # entries blk (pos + rec_len_at blk pos)
      else [])"
  by pat_completeness auto
termination by (relation "measure (\<lambda>(blk, pos). length blk - pos)") (auto dest: rec_len_pos)

text \<open>No entry reaches over the end of the block.\<close>

function entries_ok :: "u8 list \<Rightarrow> nat \<Rightarrow> bool" where
  "entries_ok blk pos =
     (pos < length blk \<longrightarrow> pos + 8 \<le> length blk \<and>
        (le16 blk (pos + 4) \<noteq> 0 \<longrightarrow> pos + 8 + unat (blk ! (pos + 6)) \<le> length blk \<and> entries_ok blk (pos + rec_len_at blk pos)))"
  by pat_completeness auto
termination by (relation "measure (\<lambda>(blk, pos). length blk - pos)") (auto dest: rec_len_pos)

declare entries.simps [simp del] entries_ok.simps [simp del]

lemma round_up_4:
  fixes r :: u16
  shows "unat ((ucast r + 3) AND NOT 3 :: u32) = (unat r + 3) div 4 * 4"
proof -
  have l: "unat r < 2 ^ 16" using unsigned_less[of r] by simp
  have u: "unat (ucast r :: u32) = unat r" using l by (simp add: unsigned_ucast_eq take_bit_nat_eq_self)
  have s: "unat (ucast r + 3 :: u32) = unat r + 3" using l u by (subst unat_add_lem[THEN iffD1]) simp_all
  have m: "(3 :: u32) = mask 2" by (simp add: mask_eq_exp_minus_1)
  have "x AND NOT 3 = push_bit 2 (drop_bit 2 x)" for x :: u32
    unfolding m by (rule bit_eqI) (auto simp: bit_simps not_less dest!: le_Suc_ex)
  hence "(ucast r + 3 :: u32) AND NOT 3 = (ucast r + 3) div 4 * 4" by (simp only: push_bit_eq_mult drop_bit_eq_div power2_eq_square) simp
  moreover have "(unat r + 3) div 4 * 4 < 2 ^ 32" using l by (intro order_le_less_trans[OF div_times_less_eq_dividend]) simp
  hence "unat ((ucast r + 3 :: u32) div 4 * 4) = (unat r + 3) div 4 * 4" using s by (subst unat_mult_lem[THEN iffD1]) (simp_all add: unat_div)
  ultimately show ?thesis by (simp only:)
qed

lemma dir_scan_ok:
  assumes "entries_ok buf (unat pos)" "length buf = unat bs" "bs \<le> 4096" "terminated name" "nm = cstr name"
  shows "dir_scan bs buf name (length nm) pos = Some (map_of (entries buf (unat pos)) nm)"
  using assms
proof (induction "length buf - unat pos" arbitrary: pos rule: less_induct)
  case less
  show ?case
  proof (cases "pos < bs")
    case False
    thus ?thesis using less.prems(2) by (simp add: dir_scan.simps entries.simps word_less_nat_alt)
  next
    case True
    let ?p = "unat pos" let ?r = "le16 buf (?p + 4)" let ?l = "buf ! (?p + 6)"
    have lt: "?p < length buf" "unat bs \<le> 4096" using True less.prems(2,3) by (simp_all add: word_less_nat_alt word_le_nat_alt)
    have ok: "?p + 8 \<le> length buf" using less.prems(1) lt(1) by (subst (asm) entries_ok.simps) simp
    show ?thesis
    proof (cases "?r = 0")
      case True': True
      thus ?thesis using True ok lt(1) by (subst dir_scan.simps) (simp add: rd16_def entries.simps)
    next
      case False
      have ok2: "?p + 8 + unat ?l \<le> length buf" "entries_ok buf (?p + rec_len_at buf ?p)"
        using less.prems(1) lt(1) False by (subst (asm) entries_ok.simps, simp)+
      let ?q = "pos + ((ucast ?r + 3) AND NOT 3)"
      have r: "unat ((ucast ?r + 3) AND NOT 3 :: u32) = rec_len_at buf ?p" by (simp only: round_up_4 rec_len_at_def)
      have "unat ?r < 2 ^ 16" using unsigned_less[of ?r] by simp
      hence "rec_len_at buf ?p < 2 ^ 17" by (simp add: rec_len_at_def)
      hence q: "unat ?q = ?p + rec_len_at buf ?p" using lt r less.prems(2) by (subst unat_add_lem[THEN iffD1]) simp_all
      have "length buf - unat ?q < length buf - ?p" using rec_len_pos[OF False] q lt(1) by simp
      from less.hyps[OF this _ less.prems(2-5)] ok2(2) q
      have ih: "dir_scan bs buf name (length nm) ?q = Some (map_of (entries buf (?p + rec_len_at buf ?p)) nm)" by simp
      have e: "entries buf ?p = (take (unat ?l) (drop (?p + 8) buf), le32 buf ?p) # entries buf (?p + rec_len_at buf ?p)"
        using lt(1) False by (subst entries.simps) simp
      have len: "length (take (unat ?l) (drop (?p + 8) buf)) = unat ?l" using ok2(1) by simp
      have rd: "rd16 buf (?p + 4) = Some ?r" "rd8 buf (?p + 6) = Some ?l" "rd32 buf ?p = Some (le32 buf ?p)" using ok by (simp_all add: rd16_def rd8_def rd32_def)
      show ?thesis
      proof (cases "unat ?l = length nm")
        case False': False
        hence "take (unat ?l) (drop (?p + 8) buf) \<noteq> nm" using len by metis
        thus ?thesis using True False False' rd ih e by (subst dir_scan.simps) simp
      next
        case True': True
        have "length nm \<le> length name" using less.prems(5) by (simp add: cstr_def length_takeWhile_le)
        then obtain c where c: "memcmp name (drop (?p + 8) buf) (unat ?l) = Some c" "c = 0 \<longleftrightarrow> take (unat ?l) name = take (unat ?l) (drop (?p + 8) buf)"
          using memcmp_ok[of "unat ?l" name "drop (?p + 8) buf"] True' ok2(1) by fastforce
        have "take (unat ?l) name = nm" unfolding True' less.prems(5) cstr_def by (simp add: takeWhile_eq_take[symmetric])
        thus ?thesis using True False True' rd ih e c by (subst dir_scan.simps) simp
      qed
    qed
  qed
qed

text \<open>The entries of the blocks of a directory from \<open>a\<close> to \<open>b\<close>.\<close>

definition dir_list :: "nat \<Rightarrow> (nat \<Rightarrow> u8 list) \<Rightarrow> ext2_inode \<Rightarrow> nat \<Rightarrow> nat \<Rightarrow> (u8 list \<times> u32) list" where
  "dir_list bs V inode a b = concat (map (\<lambda>i. entries (file_bytes bs V inode (i * bs) bs) 0) [a..<b])"

definition dir_size :: "ext2 \<Rightarrow> ext2_inode \<Rightarrow> nat" where
  "dir_size e inode = unat (i_size inode) div unat (ext2_bs e)"

definition dir_ok :: "nat \<times> nat \<times> nat \<Rightarrow> (nat \<Rightarrow> u8 list) \<Rightarrow> ext2 \<Rightarrow> ext2_inode \<Rightarrow> bool" where
  "dir_ok w V e inode \<longleftrightarrow> unat (i_size inode) = dir_size e inode * unat (ext2_bs e) \<and> dir_size e inode \<le> 1025 \<and>
     file_readable w V e inode 0 (unat (i_size inode)) \<and>
     (\<forall>i < dir_size e inode. entries_ok (file_bytes (unat (ext2_bs e)) V inode (i * unat (ext2_bs e)) (unat (ext2_bs e))) 0)"

text \<open>A name in a directory.\<close>

definition dir_find :: "ext2 \<Rightarrow> (nat \<Rightarrow> u8 list) \<Rightarrow> ext2_inode \<Rightarrow> u8 list \<Rightarrow> u32 option" where
  "dir_find e V inode nm = map_of (dir_list (unat (ext2_bs e)) V inode 0 (dir_size e inode)) nm"

lemma file_readable_part: "file_readable w V e inode 0 l \<Longrightarrow> off + k \<le> l \<Longrightarrow> file_readable w V e inode off k"
  by (auto simp: file_readable_def range_ok_def)

lemma file_len_other: "\<not> S_ISREG (i_mode inode) \<Longrightarrow> unat (ext2_file_len e inode) = unat (i_size inode)"
proof -
  assume "\<not> S_ISREG (i_mode inode)"
  moreover have "unat (i_size inode) < 2 ^ 64" using unsigned_less[of "i_size inode"] by (rule order_less_trans) simp
  ultimately show ?thesis by (simp add: ext2_file_len_def unsigned_ucast_eq take_bit_nat_eq_self)
qed

lemma modes: "S_ISDIR m \<Longrightarrow> \<not> S_ISREG m" "S_ISLNK m \<Longrightarrow> \<not> S_ISREG m" "S_ISLNK m \<Longrightarrow> \<not> S_ISDIR m"
  by (simp_all add: S_ISDIR_def S_ISREG_def S_ISLNK_def)

definition lookup_result :: "u32 option \<Rightarrow> int \<times> u32 option" where
  "lookup_result r = (case r of None \<Rightarrow> (-1, None) | Some i \<Rightarrow> (1, Some i))"

lemma dir_read:
  assumes d: "dir_ok w V e dir" "S_ISDIR (i_mode dir)" and v: "vol w V bs cs" "bs = unat (ext2_bs e)" and j: "\<forall>n. length (junk n) = n"
    and fb: "unat fb \<le> dir_size e dir" and l: "length buf = bs"
  shows "\<exists>cs' k buf'. ext2_read_inode junk e dir buf (ucast (fb * ext2_bs e)) (ucast (ext2_bs e)) cs = Some (int k, buf', cs') \<and> vol w V bs cs' \<and> length buf' = bs \<and>
    (if unat fb < dir_size e dir then k = bs \<and> buf' = file_bytes bs V dir (unat fb * bs) bs else k = 0)"
proof -
  let ?off = "ucast (fb * ext2_bs e) :: u64"
  have dd: "unat (i_size dir) = dir_size e dir * bs" "dir_size e dir \<le> 1025" "file_readable w V e dir 0 (unat (i_size dir))"
    using d(1) unfolding dir_ok_def v(2) by blast+
  have bs: "0 < bs" "bs \<le> 4096" using dd(3) block_size_nat[of e] v(2) by (auto simp: file_readable_def)
  have "unat fb * bs \<le> 1025 * 4096" using fb dd(2) bs(2) by (intro mult_le_mono) auto
  hence o: "unat ?off = unat fb * bs" "unat fb * bs < 2 ^ 31"
    using v(2) unat_mult_lem[of fb "ext2_bs e"] by (simp_all add: unsigned_ucast_eq take_bit_nat_eq_self)
  let ?k = "min bs (unat (i_size dir) - unat fb * bs)"
  have sz: "unat (i_size dir) < 2 ^ 63" using unsigned_less[of "i_size dir"] by (rule order_less_trans) simp
  have k: "?k = (if unat fb < dir_size e dir then bs else 0)"
  proof (cases "unat fb < dir_size e dir")
    case True
    hence "(unat fb + 1) * bs \<le> dir_size e dir * bs" by (intro mult_le_mono1) simp
    thus ?thesis using True dd(1) by (simp add: distrib_right)
  next
    case False
    hence "unat fb = dir_size e dir" using fb by simp
    thus ?thesis using dd(1) by simp
  qed
  have "unat fb * bs \<le> unat (i_size dir)" using dd(1) fb mult_le_mono1 by simp
  hence "unat fb * bs + ?k \<le> unat (i_size dir)" by linarith
  note rd = file_readable_part[OF dd(3) this]
  have "?k < 2 ^ 31" using bs(2) by (intro order_le_less_trans[OF min.cobounded1]) simp
  with rd obtain cs' where r: "ext2_read_inode junk e dir buf ?off (ucast (ext2_bs e)) cs =
      Some (int ?k, overwrite buf 0 (file_bytes bs V dir (unat fb * bs) ?k), cs')" "vol w V bs cs'"
    using read_inode_ok[OF v(1,2) j, of "unat (i_size dir)" dir ?off "ucast (ext2_bs e)" ?k buf] file_len_other[OF modes(1)[OF d(2)], of e] sz o
      ucast_bs[of e] v(2) l bs(2) by auto
  have "length (overwrite buf 0 (file_bytes bs V dir (unat fb * bs) ?k)) = bs" using l by simp
  moreover have "overwrite buf 0 (file_bytes bs V dir (unat fb * bs) bs) = file_bytes bs V dir (unat fb * bs) bs" using l by (simp add: overwrite_def)
  ultimately show ?thesis using r k 
    by (intro exI[of _ cs'] exI[of _ ?k] exI[of _ "overwrite buf 0 (file_bytes bs V dir (unat fb * bs) ?k)"]) auto
qed

lemma dir_list_Cons: "a < b \<Longrightarrow> dir_list bs V dir a b = entries (file_bytes bs V dir (a * bs) bs) 0 @ dir_list bs V dir (Suc a) b"
  by (simp add: dir_list_def upt_conv_Cons)

lemma dir_blocks_ok:
  assumes d: "dir_ok w V e dir" "S_ISDIR (i_mode dir)" and bs: "bs = unat (ext2_bs e)" and j: "\<forall>n. length (junk n) = n"
    and nm: "terminated name" "nm = cstr name"
    and "vol w V bs cs" "length buf = bs" "unat fb \<le> dir_size e dir"
  shows "\<exists>cs'. dir_blocks junk e dir name (length nm) buf fb cs =
      Some (fst (lookup_result (map_of (dir_list bs V dir (unat fb) (dir_size e dir)) nm)),
        snd (lookup_result (map_of (dir_list bs V dir (unat fb) (dir_size e dir)) nm)), cs') \<and> vol w V bs cs'"
  using assms(7-)
proof (induction "dir_size e dir - unat fb" arbitrary: fb cs buf rule: less_induct)
  case less
  let ?m = "dir_size e dir"
  obtain cs1 k buf1 where r: "ext2_read_inode junk e dir buf (ucast (fb * ext2_bs e)) (ucast (ext2_bs e)) cs = Some (int k, buf1, cs1)"
    "vol w V bs cs1" "length buf1 = bs" "if unat fb < ?m then k = bs \<and> buf1 = file_bytes bs V dir (unat fb * bs) bs else k = 0"
    using dir_read[OF d less.prems(1) bs j less.prems(3,2)] by blast
  have small: "small_blocks e" "?m \<le> 1025" "\<forall>i < ?m. entries_ok (file_bytes bs V dir (i * bs) bs) 0"
    using d(1) bs unfolding dir_ok_def file_readable_def by blast+
  have b: "0 < bs" "ext2_bs e \<le> 4096" using block_size_cases[OF small(1)] bs by auto
  show ?case
  proof (cases "unat fb < ?m")
    case False
    thus ?thesis using r less.prems(3) by (subst dir_blocks.simps) (simp add: dir_list_def lookup_result_def)
  next
    case True
    have buf1: "k = bs" "buf1 = file_bytes bs V dir (unat fb * bs) bs" using r(4) True by simp_all
    have sc: "dir_scan (ext2_bs e) buf1 name (length nm) 0 = Some (map_of (entries buf1 0) nm)"
      using dir_scan_ok[of buf1 0 "ext2_bs e" name nm] small(3) True buf1(2) b(2) nm bs by simp
    note split = dir_list_Cons[OF True, of bs V dir, folded buf1(2)]
    show ?thesis
    proof (cases "map_of (entries buf1 0) nm")
      case (Some i)
      thus ?thesis using r(1,2) sc buf1(1) b(1) split by (subst dir_blocks.simps) (simp add: lookup_result_def)
    next
      case None
      have f1: "unat (fb + 1) = Suc (unat fb)" using True small(2) by (subst unat_add_lem[THEN iffD1]) simp_all
      have n: "map_of (dir_list bs V dir (unat fb) ?m) nm = map_of (dir_list bs V dir (Suc (unat fb)) ?m) nm"
        using None split by (simp add: map_add_def)
      show ?thesis
      proof (cases "1024 < fb + 1")
        case True': True
        hence "Suc (unat fb) = ?m" using f1 True small(2) by (simp add: word_less_nat_alt)
        hence "dir_list bs V dir (Suc (unat fb)) ?m = []" by (simp add: dir_list_def)
        thus ?thesis using r(1,2) sc buf1(1) b(1) None n True' by (subst dir_blocks.simps) (simp add: lookup_result_def)
      next
        case False
        have "?m - unat (fb + 1) < ?m - unat fb" "unat (fb + 1) \<le> ?m" using f1 True by simp_all
        from less.hyps[OF this(1) r(2,3) this(2)] show ?thesis
          using r(1) sc buf1(1) b(1) None n False f1 by (subst dir_blocks.simps) simp
      qed
    qed
  qed
qed

lemma dir_lookup_ok:
  assumes "dir_ok w V e dir" "S_ISDIR (i_mode dir)" "bs = unat (ext2_bs e)" "\<forall>n. length (junk n) = n" "terminated name" "vol w V bs cs"
  shows "\<exists>cs'. ext2_dir_lookup junk e dir name cs =
    Some (fst (lookup_result (dir_find e V dir (cstr name))), snd (lookup_result (dir_find e V dir (cstr name))), cs') \<and> vol w V bs cs'"
  using dir_blocks_ok[OF assms(1-5) refl assms(6), of "junk bs" 0] assms(2-5)
  by (simp add: ext2_dir_lookup_def strlen_ok dir_find_def)

section \<open>Symbolic links\<close>

definition link_text :: "ext2 \<Rightarrow> (nat \<Rightarrow> u8 list) \<Rightarrow> ext2_inode \<Rightarrow> u8 list" where
  "link_text e V inode =
     (let n = unat (i_size inode) in if n \<le> 60 then take n (i_block inode) else file_bytes (unat (ext2_bs e)) V inode 0 n)"

definition link_ok :: "nat \<times> nat \<times> nat \<Rightarrow> (nat \<Rightarrow> u8 list) \<Rightarrow> ext2 \<Rightarrow> ext2_inode \<Rightarrow> bool" where
  "link_ok w V e inode \<longleftrightarrow> (60 < unat (i_size inode) \<and> unat (i_size inode) \<le> 511 \<longrightarrow> file_readable w V e inode 0 (unat (i_size inode)))"

lemma length_link_text: "length (i_block inode) = 60 \<Longrightarrow> length (link_text e V inode) = unat (i_size inode)"
  by (simp add: link_text_def Let_def)

lemma read_link_ok:
  assumes v: "vol w V bs cs" "bs = unat (ext2_bs e)" and j: "\<forall>n. length (junk n) = n"
    and l: "S_ISLNK (i_mode inode)" "link_ok w V e inode" "length (i_block inode) = 60"
  shows "\<exists>str cs'. ext2_read_link junk e inode (junk 512) 512 cs =
      Some (if unat (i_size inode) \<le> 511 then int (unat (i_size inode)) else ERR_NO_MEMORY, str, cs') \<and> vol w V bs cs' \<and>
    (unat (i_size inode) \<le> 511 \<longrightarrow> str = overwrite (junk 512) 0 (link_text e V inode @ [0]))"
proof -
  let ?n = "unat (i_size inode)" let ?l = "ext2_file_len e inode"
  have n: "unat ?l = ?n" by (rule file_len_other[OF modes(2)[OF l(1)]])
  have lt: "?n < 2 ^ 32" using unsigned_less[of "i_size inode"] by simp
  have si: "sint ?l = int ?n" using sint_eq_unat[of ?l] n lt by simp
  have sl: "(60 < sint ?l) = (60 < ?n)" "\<not> sint ?l < 0" unfolding si by linarith+
  have "unat (?l + 1) = ?n + 1" using n lt by (subst unat_add_lem[THEN iffD1]) simp_all
  hence c: "(512 < ?l + 1) = (511 < ?n)" by (simp add: word_less_nat_alt)
  have j5: "length (junk 512) = 512" using j by simp
  note lk = length_link_text[OF l(3), of e V]
  show ?thesis
  proof (cases "?n \<le> 511")
    case False
    thus ?thesis using c sl v(1) by (simp add: ext2_read_link_def Let_def)
  next
    case True
    have t: "to_int (sint ?l) = int ?n" unfolding si using True by (intro to_int_id) simp
    have ow: "memcpy_to (overwrite (junk 512) 0 (link_text e V inode)) ?n [0] = Some (overwrite (junk 512) 0 (link_text e V inode @ [0]))"
      using lk True j5 overwrite_append[of 0 "link_text e V inode" "[0]" "junk 512"] by (simp add: memcpy_to_overwrite)
    show ?thesis
    proof (cases "60 < ?n")
      case True': True
      have r: "file_readable w V e inode 0 ?n" using l(2) True True' by (simp add: link_ok_def)
      obtain cs' where rd: "ext2_read_inode junk e inode (junk 512) 0 ?l cs = Some (int ?n, overwrite (junk 512) 0 (file_bytes bs V inode 0 ?n), cs')" "vol w V bs cs'"
        using read_inode_ok[OF v j, of ?n inode 0 ?l ?n "junk 512"] n r True lt j5 by auto
      have "link_text e V inode = file_bytes bs V inode 0 ?n" using True' v(2) by (simp add: link_text_def Let_def)
      thus ?thesis using rd ow t sl c True True' n by (cases cs') (simp add: ext2_read_link_def Let_def)
    next
      case False
      have "link_text e V inode = take ?n (i_block inode)" using False by (simp add: link_text_def Let_def)
      hence m: "memcpy_from (i_block inode) 0 ?n = Some (link_text e V inode)" using False l(3) by (simp add: memcpy_from_def)
      have "memcpy_to (junk 512) 0 (link_text e V inode) = Some (overwrite (junk 512) 0 (link_text e V inode))"
        using lk True j5 by (simp add: memcpy_to_overwrite)
      thus ?thesis using m ow t sl c True False n v(1) by (simp add: ext2_read_link_def Let_def)
    qed
  qed
qed

section \<open>Paths\<close>

text \<open>The components of a path. A path that ends with a separator has an empty last component.\<close>

function comp_list :: "u8 list \<Rightarrow> u8 list list" where
  "comp_list s = (case dropWhile (\<lambda>c. c \<noteq> 47) s of [] \<Rightarrow> [s]
     | _ # r \<Rightarrow> takeWhile (\<lambda>c. c \<noteq> 47) s # comp_list (dropWhile (\<lambda>c. c = 47) r))"
  by pat_completeness auto
termination
proof (relation "measure length")
  fix s x r assume "dropWhile (\<lambda>c. c \<noteq> (47 :: u8)) s = x # r"
  hence "length r < length s" using length_dropWhile_le[of "\<lambda>c. c \<noteq> 47" s] by simp
  thus "(dropWhile (\<lambda>c. c = 47) r, s) \<in> measure length" using length_dropWhile_le[of "\<lambda>c. c = 47" r] by simp
qed simp

declare comp_list.simps [simp del]

definition components :: "u8 list \<Rightarrow> u8 list list" where
  "components s = comp_list (dropWhile (\<lambda>c. c = 47) s)"

lemma slashes_ok: "terminated p \<Longrightarrow> \<exists>n. slashes p = Some n \<and> terminated (drop n p) \<and> cstr (drop n p) = dropWhile (\<lambda>c. c = 47) (cstr p)"
  by (induction p rule: slashes.induct) auto

lemma separator:
  assumes "terminated p" "first_in ((=) 47) (cstr p) = Some k"
  shows "terminated (p[k := 0])" "cstr (p[k := 0]) = takeWhile (\<lambda>c. c \<noteq> 47) (cstr p)" "terminated (drop (Suc k) p)"
    "\<exists>x. dropWhile (\<lambda>c. c \<noteq> 47) (cstr p) = x # cstr (drop (Suc k) p)"
proof -
  have "terminated (p[k := 0]) \<and> cstr (p[k := 0]) = takeWhile (\<lambda>c. c \<noteq> 47) (cstr p) \<and> terminated (drop (Suc k) p) \<and>
    (\<exists>x. dropWhile (\<lambda>c. c \<noteq> 47) (cstr p) = x # cstr (drop (Suc k) p))"
    using assms
  proof (induction p arbitrary: k)
    case (Cons c p)
    show ?case
    proof (cases "c = 47")
      case True
      thus ?thesis using Cons.prems by (simp add: first_in_def)
    next
      case False
      then obtain k' where k: "k = Suc k'" "first_in ((=) 47) (cstr p) = Some k'" "c \<noteq> 0"
        using Cons.prems by (auto simp: first_in_def split: if_splits)
      hence "terminated p" using Cons.prems(1) by simp
      from Cons.IH[OF this k(2)] show ?thesis using False k(1,3) by simp
    qed
  qed simp
  thus "terminated (p[k := 0])" "cstr (p[k := 0]) = takeWhile (\<lambda>c. c \<noteq> 47) (cstr p)" "terminated (drop (Suc k) p)"
    "\<exists>x. dropWhile (\<lambda>c. c \<noteq> 47) (cstr p) = x # cstr (drop (Suc k) p)" by blast+
qed

text \<open>
  The resolution of a path as a function of the contents of the volume: an error or an inode number.
  \<open>res\<close> resolves the text of a link from a directory.
\<close>

definition follow :: "ext2 \<Rightarrow> (nat \<Rightarrow> u8 list) \<Rightarrow> (ext2_inode \<Rightarrow> u8 list \<Rightarrow> int + u32) \<Rightarrow> ext2_inode \<Rightarrow> u32 \<Rightarrow> int + u32" where
  "follow e V res dir i =
     (let inode = inode_at e V i; text' = cstr (link_text e V inode)
      in if \<not> S_ISLNK (i_mode inode) then Inr i
         else if 511 < unat (i_size inode) then Inl ERR_NO_MEMORY
         else res (if text' \<noteq> [] \<and> hd text' = 47 then e_root_inode e else dir) text')"

fun steps :: "ext2 \<Rightarrow> (nat \<Rightarrow> u8 list) \<Rightarrow> (ext2_inode \<Rightarrow> u8 list \<Rightarrow> int + u32) \<Rightarrow> ext2_inode \<Rightarrow> u8 list list \<Rightarrow> int + u32" where
  "steps e V res dir [] = Inl (-1)"
| "steps e V res dir (c # cs) =
     (case dir_find e V dir c of
        None \<Rightarrow> Inl (-1)
      | Some i \<Rightarrow>
          (case follow e V res dir i of
             Inl err \<Rightarrow> Inl err
           | Inr i \<Rightarrow>
               if cs = [] then Inr i
               else if S_ISDIR (i_mode (inode_at e V i)) then steps e V res (inode_at e V i) cs
               else Inl ERR_NOT_FOUND))"

primrec resolve :: "nat \<Rightarrow> ext2 \<Rightarrow> (nat \<Rightarrow> u8 list) \<Rightarrow> ext2_inode \<Rightarrow> u8 list \<Rightarrow> int + u32" where
  "resolve 0 e V dir path = Inl ERR_RECURSE_TOO_DEEP"
| "resolve (Suc depth) e V dir path = steps e V (resolve depth e V) dir (components path)"

text \<open>A volume that the lookup can walk over: \<open>G\<close> are the inode numbers in use.\<close>

definition good_dir :: "nat \<times> nat \<times> nat \<Rightarrow> (nat \<Rightarrow> u8 list) \<Rightarrow> ext2 \<Rightarrow> u32 set \<Rightarrow> ext2_inode \<Rightarrow> bool" where
  "good_dir w V e G dir \<longleftrightarrow> S_ISDIR (i_mode dir) \<and> dir_ok w V e dir \<and> snd ` set (dir_list (unat (ext2_bs e)) V dir 0 (dir_size e dir)) \<subseteq> G"

definition sound :: "nat \<times> nat \<times> nat \<Rightarrow> (nat \<Rightarrow> u8 list) \<Rightarrow> ext2 \<Rightarrow> u32 set \<Rightarrow> bool" where
  "sound w V e G \<longleftrightarrow> sane e \<and> good_dir w V e G (e_root_inode e) \<and>
     (\<forall>i\<in>G. valid_inum w e i \<and> (S_ISDIR (i_mode (inode_at e V i)) \<longrightarrow> good_dir w V e G (inode_at e V i)) \<and>
        (S_ISLNK (i_mode (inode_at e V i)) \<longrightarrow> link_ok w V e (inode_at e V i)))"

lemma soundD:
  assumes "sound w V e G" "i \<in> G"
  shows "valid_inum w e i" "S_ISDIR (i_mode (inode_at e V i)) \<Longrightarrow> good_dir w V e G (inode_at e V i)"
    "S_ISLNK (i_mode (inode_at e V i)) \<Longrightarrow> link_ok w V e (inode_at e V i)"
  using assms unfolding sound_def by blast+

lemma good_dir_find: "good_dir w V e G dir \<Longrightarrow> dir_find e V dir nm = Some i \<Longrightarrow> i \<in> G"
  unfolding good_dir_def dir_find_def by (auto dest!: map_of_SomeD)

lemma length_i_block [simp]: "length (i_block (inode_at e V i)) = 60"
  by (simp add: inode_at_def endian_swap_inode_def vol_bytes_def)

definition code_of :: "int + u32 \<Rightarrow> int" where
  "code_of r = (case r of Inl err \<Rightarrow> err | Inr _ \<Rightarrow> 0)"

text \<open>What a result of the resolution is: a negative error or a number in use that is no link.\<close>

definition result_ok :: "ext2 \<Rightarrow> (nat \<Rightarrow> u8 list) \<Rightarrow> u32 set \<Rightarrow> int + u32 \<Rightarrow> u32 \<Rightarrow> bool" where
  "result_ok e V G r inum \<longleftrightarrow> (case r of Inl err \<Rightarrow> err < 0 | Inr i \<Rightarrow> inum = i \<and> i \<in> G \<and> \<not> S_ISLNK (i_mode (inode_at e V i)))"

definition walks :: "nat \<times> nat \<times> nat \<Rightarrow> (nat \<Rightarrow> u8 list) \<Rightarrow> ext2 \<Rightarrow> u32 set \<Rightarrow>
    (u8 list \<Rightarrow> ext2_inode \<Rightarrow> u32 \<Rightarrow> bcache \<times> bio \<Rightarrow> (int \<times> u32 \<times> bcache \<times> bio) option) \<Rightarrow> (ext2_inode \<Rightarrow> u8 list \<Rightarrow> int + u32) \<Rightarrow> bool" where
  "walks w V e G walk res \<longleftrightarrow> (\<forall>path dir inum cs. terminated path \<and> good_dir w V e G dir \<and> vol w V (unat (ext2_bs e)) cs \<longrightarrow>
     (\<exists>inum' cs'. walk path dir inum cs = Some (code_of (res dir (cstr path)), inum', cs') \<and> vol w V (unat (ext2_bs e)) cs' \<and>
        result_ok e V G (res dir (cstr path)) inum'))"

definition next_result :: "ext2 \<Rightarrow> (nat \<Rightarrow> u8 list) \<Rightarrow> u32 set \<Rightarrow> bool \<Rightarrow> int + u32 \<Rightarrow> int \<Rightarrow> ext2_inode \<Rightarrow> u32 \<Rightarrow> bool" where
  "next_result e V G finished r err dir inum \<longleftrightarrow> result_ok e V G r inum \<and>
     (case r of Inl x \<Rightarrow> err = x
      | Inr i \<Rightarrow> if finished then err = 0
          else if S_ISDIR (i_mode (inode_at e V i)) then err = 0 \<and> dir = inode_at e V i else err = ERR_NOT_FOUND)"

lemma errors_negative: "ERR_NOT_FOUND < 0" "ERR_NO_MEMORY < 0" "ERR_RECURSE_TOO_DEEP < 0"
  by (simp_all add: status_defs)

lemma nextcomponent_plain:
  assumes s: "sound w V e G" "i \<in> G" and v: "vol w V (unat (ext2_bs e)) cs" and n: "\<not> S_ISLNK (i_mode (inode_at e V i))"
  shows "\<exists>err dir' cs'. nextcomponent junk e walk finished dir i cs = Some (err, dir', i, cs') \<and> vol w V (unat (ext2_bs e)) cs' \<and>
    next_result e V G finished (Inr i) err dir' i"
proof -
  have sane: "sane e" using s(1) by (simp add: sound_def)
  obtain cs1 where "ext2_load_inode e i cs = Some (0, Some (inode_at e V i), cs1)" "vol w V (unat (ext2_bs e)) cs1"
    using load_inode_ok[OF sane v refl soundD(1)[OF s]] by blast
  thus ?thesis using n s(2) by (cases cs1) (subst nextcomponent.simps, simp add: next_result_def result_ok_def)
qed

lemma cstr_end: "cstr (a @ 0 # b) = cstr a"
  by (induction a) simp_all

lemma link_string:
  assumes "length text' \<le> 511" "length b = 512"
  shows "terminated (overwrite b 0 (text' @ [0]))" "cstr (overwrite b 0 (text' @ [0])) = cstr text'"
    "\<exists>c. rd8 (overwrite b 0 (text' @ [0])) 0 = Some c \<and> (c = 47 \<longleftrightarrow> cstr text' \<noteq> [] \<and> hd (cstr text') = 47)"
proof -
  have o: "overwrite b 0 (text' @ [0]) = text' @ 0 # drop (Suc (length text')) b" by (simp add: overwrite_def)
  show "terminated (overwrite b 0 (text' @ [0]))" by (simp add: o terminated_def)
  show "cstr (overwrite b 0 (text' @ [0])) = cstr text'" by (simp add: o cstr_end)
  show "\<exists>c. rd8 (overwrite b 0 (text' @ [0])) 0 = Some c \<and> (c = 47 \<longleftrightarrow> cstr text' \<noteq> [] \<and> hd (cstr text') = 47)"
    unfolding o by (cases text') (auto simp: rd8_def)
qed

lemma nextcomponent_ok:
  assumes s: "sound w V e G" "i \<in> G" and v: "vol w V (unat (ext2_bs e)) cs" and d: "good_dir w V e G dir"
    and wk: "walks w V e G walk res" and j: "\<forall>n. length (junk n) = n"
  shows "\<exists>err dir' inum cs'. nextcomponent junk e walk finished dir i cs = Some (err, dir', inum, cs') \<and> vol w V (unat (ext2_bs e)) cs' \<and>
    next_result e V G finished (follow e V res dir i) err dir' inum"
proof (cases "S_ISLNK (i_mode (inode_at e V i))")
  case False
  thus ?thesis using nextcomponent_plain[OF s v False] by (simp add: follow_def Let_def) blast
next
  case True
  let ?ino = "inode_at e V i" let ?n = "unat (i_size ?ino)" let ?t = "link_text e V ?ino" let ?bs = "unat (ext2_bs e)"
  have sane: "sane e" using s(1) by (simp add: sound_def)
  obtain cs1 where ld: "ext2_load_inode e i cs = Some (0, Some ?ino, cs1)" "vol w V ?bs cs1"
    using load_inode_ok[OF sane v refl soundD(1)[OF s]] by blast
  obtain str cs2 where rl: "ext2_read_link junk e ?ino (junk 512) 512 cs1 = Some (if ?n \<le> 511 then int ?n else ERR_NO_MEMORY, str, cs2)"
    "vol w V ?bs cs2" "?n \<le> 511 \<Longrightarrow> str = overwrite (junk 512) 0 (?t @ [0])"
    using read_link_ok[OF ld(2) refl j True soundD(3)[OF s True]] by auto
  show ?thesis
  proof (cases "?n \<le> 511")
    case False
    thus ?thesis using True ld(1) rl(1,2) errors_negative(2)
      by (subst nextcomponent.simps) (simp add: follow_def Let_def next_result_def result_ok_def)
  next
    case small: True
    have lt: "length ?t \<le> 511" using small length_link_text[of ?ino e V] by simp
    note ls = link_string[OF lt j[rule_format, of 512], folded rl(3)[OF small]]
    obtain c where c: "rd8 str 0 = Some c" "c = 47 \<longleftrightarrow> cstr ?t \<noteq> [] \<and> hd (cstr ?t) = 47" using ls(3) by blast
    let ?start = "if c = 47 then e_root_inode e else dir" let ?r = "res ?start (cstr ?t)"
    have st: "good_dir w V e G ?start" using d s(1) by (simp add: sound_def)
    obtain inum3 cs3 where wr: "walk str ?start i cs2 = Some (code_of ?r, inum3, cs3)" "vol w V ?bs cs3" "result_ok e V G ?r inum3"
      using wk ls(1,2) st rl(2) unfolding walks_def by metis
    have f: "follow e V res dir i = ?r" using True small c(2) by (simp add: follow_def Let_def)
    show ?thesis
    proof (cases ?r)
      case (Inl err)
      hence "err < 0" using wr(3) by (simp add: result_ok_def)
      thus ?thesis using True small ld(1) rl(1) c(1) wr f Inl
        by (subst nextcomponent.simps) (auto simp: next_result_def code_of_def)
    next
      case (Inr i')
      hence i': "inum3 = i'" "i' \<in> G" "\<not> S_ISLNK (i_mode (inode_at e V i'))" using wr(3) by (simp_all add: result_ok_def)
      show ?thesis
      proof (cases finished)
        case True': True
        thus ?thesis using True small ld(1) rl(1) c(1) wr f Inr i'
          by (subst nextcomponent.simps) (auto simp: next_result_def code_of_def)
      next
        case False
        have "nextcomponent junk e walk finished dir i cs = nextcomponent junk e walk finished dir i' cs3"
          using True small ld(1) rl(1) c(1) wr(1) Inr i'(1) False by (subst nextcomponent.simps) (simp add: code_of_def)
        thus ?thesis using nextcomponent_plain[OF s(1) i'(2) wr(2) i'(3), of junk walk finished dir] f Inr by auto
      qed
    qed
  qed
qed

text \<open>One component: the lookup in the directory and the step to what was found.\<close>

definition step_to :: "ext2 \<Rightarrow> (nat \<Rightarrow> u8 list) \<Rightarrow> (ext2_inode \<Rightarrow> u8 list \<Rightarrow> int + u32) \<Rightarrow> ext2_inode \<Rightarrow> u8 list \<Rightarrow> int + u32" where
  "step_to e V res dir c = (case dir_find e V dir c of None \<Rightarrow> Inl (-1) | Some i \<Rightarrow> follow e V res dir i)"

lemma steps_Cons:
  "steps e V res dir (c # cs) = (case step_to e V res dir c of Inl err \<Rightarrow> Inl err
     | Inr i \<Rightarrow> if cs = [] then Inr i else if S_ISDIR (i_mode (inode_at e V i)) then steps e V res (inode_at e V i) cs else Inl ERR_NOT_FOUND)"
  by (simp add: step_to_def split: option.split)

lemma component_ok:
  assumes s: "sound w V e G" and v: "vol w V (unat (ext2_bs e)) cs" and d: "good_dir w V e G dir"
    and wk: "walks w V e G walk res" and j: "\<forall>n. length (junk n) = n" and n: "terminated name"
  shows "\<exists>err1 found cs1. ext2_dir_lookup junk e dir name cs = Some (err1, found, cs1) \<and>
    (if err1 < 0 then step_to e V res dir (cstr name) = Inl err1 \<and> vol w V (unat (ext2_bs e)) cs1
     else \<exists>i err dir' inum cs'. found = Some i \<and> nextcomponent junk e walk finished dir i cs1 = Some (err, dir', inum, cs') \<and>
       vol w V (unat (ext2_bs e)) cs' \<and> next_result e V G finished (step_to e V res dir (cstr name)) err dir' inum)"
proof -
  have dd: "dir_ok w V e dir" "S_ISDIR (i_mode dir)" using d by (simp_all add: good_dir_def)
  obtain cs1 where l: "ext2_dir_lookup junk e dir name cs =
      Some (fst (lookup_result (dir_find e V dir (cstr name))), snd (lookup_result (dir_find e V dir (cstr name))), cs1)" "vol w V (unat (ext2_bs e)) cs1"
    using dir_lookup_ok[OF dd refl j n v] by blast
  show ?thesis
  proof (cases "dir_find e V dir (cstr name)")
    case None
    thus ?thesis using l by (simp add: lookup_result_def step_to_def)
  next
    case (Some i)
    obtain err dir' inum cs' where x: "nextcomponent junk e walk finished dir i cs1 = Some (err, dir', inum, cs')" "vol w V (unat (ext2_bs e)) cs'"
      "next_result e V G finished (follow e V res dir i) err dir' inum"
      using nextcomponent_ok[OF s good_dir_find[OF d Some] l(2) d wk j] by blast
    have "step_to e V res dir (cstr name) = follow e V res dir i" using Some by (simp add: step_to_def)
    hence "\<exists>i err dir' inum cs'. snd (lookup_result (dir_find e V dir (cstr name))) = Some i \<and>
        nextcomponent junk e walk finished dir i cs1 = Some (err, dir', inum, cs') \<and> vol w V (unat (ext2_bs e)) cs' \<and>
        next_result e V G finished (step_to e V res dir (cstr name)) err dir' inum"
      using x Some by (intro exI[of _ i] exI[of _ err] exI[of _ dir'] exI[of _ inum] exI[of _ cs']) (simp add: lookup_result_def)
    thus ?thesis using l(1) Some by (simp add: lookup_result_def)
  qed
qed

lemma walk_loop_ok:
  assumes s: "sound w V e G" and wk: "walks w V e G walk res" and j: "\<forall>n. length (junk n) = n"
    and "terminated ptr" "good_dir w V e G dir" "vol w V (unat (ext2_bs e)) cs"
  shows "\<exists>inum' cs'. walk_loop junk e walk ptr dir inum cs = Some (code_of (steps e V res dir (comp_list (cstr ptr))), inum', cs') \<and>
    vol w V (unat (ext2_bs e)) cs' \<and> result_ok e V G (steps e V res dir (comp_list (cstr ptr))) inum'"
  using assms(4-)
proof (induction "length ptr" arbitrary: ptr dir inum cs rule: less_induct)
  case less
  let ?bs = "unat (ext2_bs e)"
  have sc: "strchr ptr 47 = Some (first_in ((=) 47) (cstr ptr))" using strchr_ok[OF less.prems(1)] by simp
  show ?case
  proof (cases "first_in ((=) 47) (cstr ptr)")
    case None
    hence "dropWhile (\<lambda>c. c \<noteq> 47) (cstr ptr) = []" by (auto simp: first_in_def split: if_splits)
    hence "comp_list (cstr ptr) = [cstr ptr]" by (subst comp_list.simps) (simp only: list.case)
    hence st: "steps e V res dir (comp_list (cstr ptr)) = step_to e V res dir (cstr ptr)"
      by (simp add: steps_Cons split: sum.split del: steps.simps(2))
    obtain err1 found cs1 where l: "ext2_dir_lookup junk e dir ptr cs = Some (err1, found, cs1)" and
      c: "if err1 < 0 then step_to e V res dir (cstr ptr) = Inl err1 \<and> vol w V ?bs cs1
        else \<exists>i err dir' inum cs'. found = Some i \<and> nextcomponent junk e walk True dir i cs1 = Some (err, dir', inum, cs') \<and>
          vol w V ?bs cs' \<and> next_result e V G True (step_to e V res dir (cstr ptr)) err dir' inum"
      using component_ok[OF s less.prems(3,2) wk j less.prems(1), of True] by blast
    show ?thesis
    proof (cases "err1 < 0")
      case True
      thus ?thesis using l c sc None st by (cases cs1) (subst walk_loop.simps, simp add: code_of_def result_ok_def)
    next
      case False
      then obtain i err dir' inum' cs' where x: "found = Some i" "nextcomponent junk e walk True dir i cs1 = Some (err, dir', inum', cs')" "vol w V ?bs cs'"
        "next_result e V G True (step_to e V res dir (cstr ptr)) err dir' inum'" using c by auto
      hence "walk_loop junk e walk ptr dir inum cs = Some (err, inum', cs')"
        using l False sc None by (subst walk_loop.simps) (auto simp: next_result_def result_ok_def split: sum.splits)
      moreover have "err = code_of (step_to e V res dir (cstr ptr))" "result_ok e V G (step_to e V res dir (cstr ptr)) inum'"
        using x(4) by (auto simp: next_result_def code_of_def split: sum.splits)
      ultimately show ?thesis using st x(3) by auto
    qed
  next
    case (Some k)
    note sep = separator[OF less.prems(1) Some]
    obtain x where dw: "dropWhile (\<lambda>c. c \<noteq> 47) (cstr ptr) = x # cstr (drop (Suc k) ptr)" using sep(4) by blast
    obtain n where n: "slashes (drop (Suc k) ptr) = Some n" "terminated (drop n (drop (Suc k) ptr))"
      "cstr (drop n (drop (Suc k) ptr)) = dropWhile (\<lambda>c. c = 47) (cstr (drop (Suc k) ptr))" using slashes_ok[OF sep(3)] by blast
    let ?q = "drop (Suc k + n) ptr" let ?c = "cstr (ptr[k := 0])"
    have q: "drop n (drop (Suc k) ptr) = ?q" by (simp add: add.commute)
    have cl: "comp_list (cstr ptr) = ?c # comp_list (cstr ?q)" using dw n(3) sep(2) q by (subst comp_list.simps) simp
    have ne: "comp_list (cstr ?q) \<noteq> []" by (subst comp_list.simps) (simp split: list.split)
    note st = steps_Cons[of e V res dir ?c "comp_list (cstr ?q)", folded cl]
    obtain err1 found cs1 where l: "ext2_dir_lookup junk e dir (ptr[k := 0]) cs = Some (err1, found, cs1)" and
      c: "if err1 < 0 then step_to e V res dir ?c = Inl err1 \<and> vol w V ?bs cs1
        else \<exists>i err dir' inum cs'. found = Some i \<and> nextcomponent junk e walk False dir i cs1 = Some (err, dir', inum, cs') \<and>
          vol w V ?bs cs' \<and> next_result e V G False (step_to e V res dir ?c) err dir' inum"
      using component_ok[OF s less.prems(3,2) wk j sep(1), of False] by blast
    show ?thesis
    proof (cases "err1 < 0")
      case True
      thus ?thesis using l c sc Some st by (cases cs1) (subst walk_loop.simps, simp add: code_of_def result_ok_def)
    next
      case False
      then obtain i err dir' inum' cs' where x: "found = Some i" "nextcomponent junk e walk False dir i cs1 = Some (err, dir', inum', cs')" "vol w V ?bs cs'"
        "next_result e V G False (step_to e V res dir ?c) err dir' inum'" using c by auto
      show ?thesis
      proof (cases "err < 0")
        case True
        hence r: "steps e V res dir (comp_list (cstr ptr)) = Inl err" unfolding st using x(4) ne
          by (auto simp: next_result_def split: sum.splits if_splits)
        have "walk_loop junk e walk ptr dir inum cs = Some (err, inum', cs')"
          using l False sc Some x(1,2) True by (subst walk_loop.simps) simp
        thus ?thesis using r True x(3) by (cases cs') (simp add: code_of_def result_ok_def)
      next
        case False': False
        then obtain i' where i': "step_to e V res dir ?c = Inr i'" "i' \<in> G" "S_ISDIR (i_mode (inode_at e V i'))" "dir' = inode_at e V i'"
          using x(4) errors_negative(1) by (auto simp: next_result_def result_ok_def split: sum.splits if_splits)
        have r: "steps e V res dir (comp_list (cstr ptr)) = steps e V res dir' (comp_list (cstr ?q))" unfolding st using i' ne by simp
        have "length ?q < length ptr" using less.prems(1) by (cases ptr) auto
        moreover have "terminated ?q" using n(2) q by simp
        moreover have "good_dir w V e G dir'" using soundD(2)[OF s i'(2,3)] i'(4) by simp
        moreover have "walk_loop junk e walk ptr dir inum cs = walk_loop junk e walk ?q dir' inum' cs'"
          using l False sc Some x(1,2) False' n(1) by (subst walk_loop.simps) simp
        ultimately show ?thesis using less.hyps[of ?q dir' cs' inum'] x(3) r by simp
      qed
    qed
  qed
qed

lemma ext2_walk_walks:
  assumes "sound w V e G" "\<forall>n. length (junk n) = n"
  shows "walks w V e G (ext2_walk depth junk e) (resolve depth e V)"
proof (induction depth)
  case 0
  show ?case unfolding walks_def using errors_negative(3) by (auto simp: code_of_def result_ok_def)
next
  case (Suc depth)
  show ?case unfolding walks_def
  proof (intro allI impI)
    fix path :: "u8 list" and dir :: ext2_inode and inum :: u32 and cs :: "bcache \<times> bio"
    assume a: "terminated path \<and> good_dir w V e G dir \<and> vol w V (unat (ext2_bs e)) cs"
    then obtain n where n: "slashes path = Some n" "terminated (drop n path)" "cstr (drop n path) = dropWhile (\<lambda>c. c = 47) (cstr path)"
      using slashes_ok by blast
    have "\<exists>inum' cs'. walk_loop junk e (ext2_walk depth junk e) (drop n path) dir inum cs =
        Some (code_of (steps e V (resolve depth e V) dir (comp_list (cstr (drop n path)))), inum', cs') \<and> vol w V (unat (ext2_bs e)) cs' \<and>
        result_ok e V G (steps e V (resolve depth e V) dir (comp_list (cstr (drop n path)))) inum'"
      using walk_loop_ok[OF assms(1) Suc assms(2) n(2)] a by blast
    thus "\<exists>inum' cs'. ext2_walk (Suc depth) junk e path dir inum cs = Some (code_of (resolve (Suc depth) e V dir (cstr path)), inum', cs') \<and>
        vol w V (unat (ext2_bs e)) cs' \<and> result_ok e V G (resolve (Suc depth) e V dir (cstr path)) inum'"
      using n by (simp add: components_def)
  qed
qed

lemma lookup_ok:
  assumes s: "sound w V e G" and j: "\<forall>n. length (junk n) = n" and p: "terminated path" and v: "vol w V (unat (ext2_bs e)) cs"
  shows "\<exists>inum' cs'. ext2_lookup junk e path inum cs = Some (code_of (resolve 4 e V (e_root_inode e) (take 511 (cstr path))), inum', cs') \<and>
    vol w V (unat (ext2_bs e)) cs' \<and> result_ok e V G (resolve 4 e V (e_root_inode e) (take 511 (cstr path))) inum'"
proof -
  have "length (junk 512) = 512" using j by simp
  then obtain d where d: "strlcpy (junk 512) path 512 = Some (length (cstr path), d)" "terminated d" "cstr d = take 511 (cstr path)"
    using strlcpy_ok[OF p, of 512 "junk 512"] min.cobounded1[of 511 "length (cstr path)"] by fastforce
  have "good_dir w V e G (e_root_inode e)" using s by (simp add: sound_def)
  with ext2_walk_walks[OF s j, of 4] d(2) v show ?thesis unfolding walks_def ext2_lookup_def d(1) d(3)[symmetric] by fastforce
qed

lemma open_file_ok:
  assumes s: "sound w V e G" and j: "\<forall>n. length (junk n) = n" and p: "terminated path" and v: "vol w V (unat (ext2_bs e)) cs"
    and r: "resolve 4 e V (e_root_inode e) (take 511 (cstr path)) = Inr i"
  shows "\<exists>cs'. ext2_open_file junk e path cs = Some (0, Some (inode_at e V i), cs') \<and> vol w V (unat (ext2_bs e)) cs'"
proof -
  have sane: "sane e" using s by (simp add: sound_def)
  obtain cs1 where l: "ext2_lookup junk e path (le32 (junk 4) 0) cs = Some (0, i, cs1)" "vol w V (unat (ext2_bs e)) cs1" "i \<in> G"
    using lookup_ok[OF s j p v, of "le32 (junk 4) 0"] r by (auto simp: code_of_def result_ok_def)
  obtain cs2 where "ext2_load_inode e i cs1 = Some (0, Some (inode_at e V i), cs2)" "vol w V (unat (ext2_bs e)) cs2"
    using load_inode_ok[OF sane l(2) refl soundD(1)[OF s l(3)]] by blast
  thus ?thesis using l(1) by (auto simp: ext2_open_file_def)
qed

section \<open>An example volume\<close>

text \<open>A device of seven blocks with a root directory that holds one file \<^verbatim>\<open>f\<close> with the text \<^verbatim>\<open>hello\<close>.\<close>

definition image_table :: "(nat \<times> u8) list" where
  "image_table = [(1028, 7), (1056, 7), (1064, 8), (1080, 0x53), (1081, 0xEF), (2056, 3), (3201, 0x40), (3205, 4), (3240, 5),
     (3329, 0x80), (3332, 5), (3368, 6), (5120, 3), (5125, 4), (5126, 1), (5128, 102),
     (6144, 104), (6145, 101), (6146, 108), (6147, 108), (6148, 111)]"

definition image_byte :: "nat \<Rightarrow> u8" where
  "image_byte n = (case map_of image_table n of Some b \<Rightarrow> b | None \<Rightarrow> 0)"

definition ex_image :: "u8 list" where
  "ex_image = map image_byte [0..<7168]"

definition image_bio :: bio where
  "image_bio = \<lparr>bdevs = [0], bio_devs = (\<lambda>_. None)(0 \<mapsto> \<lparr>bd_ref = 1, bd_name = ''disk'', bd_size = 7168, bd_block_size = 512, bd_block_count = 14,
     bd_driver = Mem ex_image\<rparr>), bio_next = 1\<rparr>"

lemma image_window: "window image_bio 0 0 0 7168"
  by (rule window.mem[of _ _ "\<lparr>bd_ref = 1, bd_name = ''disk'', bd_size = 7168, bd_block_size = 512, bd_block_count = 14, bd_driver = Mem ex_image\<rparr>" ex_image])
    (simp_all add: image_bio_def geometry_def ex_image_def)

lemma image_data: "window_data 0 0 7168 image_bio = ex_image"
  by (simp add: window_data_def memory_def image_bio_def ex_image_def)

lemma image_length [simp]: "length ex_image = 7168"
  by (simp add: ex_image_def)

lemma image_nth: "n < 7168 \<Longrightarrow> ex_image ! n = image_byte n"
  by (simp add: ex_image_def)

lemmas image_eval = image_nth image_byte_def image_table_def le16_def le32_def

lemma image_super:
  "disk_super ex_image = \<lparr>s_blocks_count = 7, s_log_block_size = 0, s_blocks_per_group = 7, s_inodes_per_group = 8, s_magic = 0xEF53,
     s_rev_level = 0, s_inode_size = 0, s_feature_ro_compat = 0\<rparr>"
  by (simp add: disk_super_def endian_swap_superblock_def image_eval)

lemma image_volume:
  "disk_volume ex_image root = \<lparr>e_sb = disk_super ex_image, e_group_count = 1,
     e_gd = [\<lparr>bg_block_bitmap = 0, bg_inode_bitmap = 0, bg_inode_table = 3\<rparr>], e_root_inode = root\<rparr>"
  by (simp add: disk_volume_def disk_groups_def disk_gd_at_def image_super EXT2_BLOCK_SIZE_def endian_swap_group_desc_def image_eval)

lemma image_block_size: "EXT2_BLOCK_SIZE (disk_super ex_image) = 1024"
  by (simp add: image_super EXT2_BLOCK_SIZE_def)

lemma image_block: "b < 7 \<Longrightarrow> disk_blocks ex_image b = map image_byte [b * 1024..<b * 1024 + 1024]"
  by (intro nth_equalityI) (simp_all add: disk_blocks_def image_block_size image_nth)

lemma image_bytes: "n + k \<le> 7168 \<Longrightarrow> vol_bytes 1024 (disk_blocks ex_image) n k = map image_byte [n..<n + k]"
proof -
  assume a: "n + k \<le> 7168"
  have "disk_blocks ex_image (m div 1024) ! (m mod 1024) = image_byte m" if "m < n + k" for m
  proof -
    have "m div 1024 < 7" using that a by (simp add: less_mult_imp_div_less)
    thus ?thesis using image_block[of "m div 1024"] by simp
  qed
  thus ?thesis by (simp add: vol_bytes_def)
qed

definition image_inode :: "nat \<Rightarrow> ext2_inode" where
  "image_inode pos = endian_swap_inode (map image_byte [pos..<pos + 128])"

abbreviation ex_volume :: ext2 where
  "ex_volume \<equiv> disk_volume ex_image (image_inode 3200)"

lemma image_inode_at:
  "inode_pos (disk_volume ex_image root) 2 = 3200" "inode_pos (disk_volume ex_image root) 3 = 3328"
  "inode_at (disk_volume ex_image root) (disk_blocks ex_image) 2 = image_inode 3200"
  "inode_at (disk_volume ex_image root) (disk_blocks ex_image) 3 = image_inode 3328"
  by (simp_all add: inode_at_def inode_pos_def image_volume image_super EXT2_BLOCK_SIZE_def EXT2_INODE_SIZE_def image_bytes image_inode_def)

lemma image_sane: "sane (disk_volume ex_image root)"
  by (simp add: sane_def small_blocks_def image_volume image_super EXT2_BLOCK_SIZE_def EXT2_INODE_SIZE_def)

lemma image_valid: "valid_inum (0, 0, 7168) (disk_volume ex_image root) 2" "valid_inum (0, 0, 7168) (disk_volume ex_image root) 3"
  unfolding valid_inum_def image_inode_at by (simp_all add: image_volume image_super EXT2_BLOCK_SIZE_def on_device_def)

lemma image_mountable: "mountable (0, 0, 7168) ex_image"
  by (simp add: mountable_def image_sane image_valid image_super disk_groups_def disk_gd_at_def EXT2_BLOCK_SIZE_def)

lemma image_inode_fields:
  "i_mode (image_inode pos) = ucast (image_byte pos) OR push_bit 8 (ucast (image_byte (pos + 1)))"
  "i_size (image_inode pos) = le32 (map (\<lambda>k. image_byte (pos + 4 + k)) [0..<4]) 0"
  "ptr_of (image_inode pos) 0 = le32 (map (\<lambda>k. image_byte (pos + 40 + k)) [0..<4]) 0"
  by (simp_all add: image_inode_def endian_swap_inode_def ptr_of_def le16_def le32_def add.assoc)

lemma image_inodes:
  "i_mode (image_inode 3200) = 0x4000" "i_size (image_inode 3200) = 1024" "ptr_of (image_inode 3200) 0 = 5"
  "i_mode (image_inode 3328) = 0x8000" "i_size (image_inode 3328) = 5" "ptr_of (image_inode 3328) 0 = 6"
  unfolding image_inode_fields by (simp_all add: le32_def image_byte_def image_table_def)

lemma image_file_bytes:
  assumes "ptr_of inode 0 = b" "0 < unat b" "unat b < 7" "k \<le> 1024"
  shows "file_bytes 1024 (disk_blocks ex_image) inode 0 k = map (\<lambda>j. image_byte (unat b * 1024 + j)) [0..<k]"
proof (rule nth_equalityI)
  fix j assume "j < length (file_bytes 1024 (disk_blocks ex_image) inode 0 k)"
  hence "j < k" "j < 1024" using assms(4) by simp_all
  thus "file_bytes 1024 (disk_blocks ex_image) inode 0 k ! j = map (\<lambda>j. image_byte (unat b * 1024 + j)) [0..<k] ! j"
    using assms(1-3) by (auto simp: file_bytes_def file_byte_def file_block_def block_data_def image_block)
qed simp

lemma image_readable:
  assumes "length (i_block inode) = 60" "unat (ptr_of inode 0) < 7" "k \<le> 1024"
  shows "file_readable (0, 0, 7168) (disk_blocks ex_image) (disk_volume ex_image root) inode 0 k"
proof -
  have "n = 0" if "n * 1024 < k" for n using that assms(3) by simp
  moreover have "block_ok (on_device (0, 0, 7168) 1024) 256 (disk_blocks ex_image) inode 0"
    using assms(2) by (auto simp: block_ok_def file_block_def on_device_def)
  ultimately show ?thesis using assms(1) image_sane[of root]
    by (auto simp: file_readable_def range_ok_def sane_def image_volume image_block_size)
qed

lemma image_i_block [simp]: "length (i_block (image_inode pos)) = 60"
  by (simp add: image_inode_def endian_swap_inode_def)

lemma image_entries: "entries (map (\<lambda>j. image_byte (5120 + j)) [0..<1024]) 0 = [([102], 3)]" "entries_ok (map (\<lambda>j. image_byte (5120 + j)) [0..<1024]) 0"
proof -
  let ?b = "map (\<lambda>j. image_byte (5120 + j)) [0..<1024]"
  have l: "le16 ?b 4 = 1024" "le32 ?b 0 = 3" "?b ! 6 = 1" by (simp_all add: le16_def le32_def image_byte_def image_table_def)
  have r: "rec_len_at ?b 0 = 1024" by (simp add: rec_len_at_def l)
  have t: "take 1 (drop 8 ?b) = [102]" by (rule nth_equalityI) (simp_all add: image_byte_def image_table_def)
  show "entries ?b 0 = [([102], 3)]" by (subst entries.simps, subst entries.simps) (use l r t in simp)
  show "entries_ok ?b 0" by (subst entries_ok.simps, subst entries_ok.simps) (use l r in simp)
qed

lemma image_dir: "dir_list 1024 (disk_blocks ex_image) (image_inode 3200) 0 1 = [([102], 3)]" "dir_size ex_volume (image_inode 3200) = 1"
  using image_entries image_file_bytes[OF image_inodes(3), of 1024]
  by (simp_all add: dir_list_def dir_size_def image_volume image_block_size image_inodes)

lemma image_sound: "sound (0, 0, 7168) (disk_blocks ex_image) ex_volume {3}"
proof -
  have bs: "unat (ext2_bs ex_volume) = 1024" by (simp add: image_volume image_block_size)
  have "dir_ok (0, 0, 7168) (disk_blocks ex_image) ex_volume (image_inode 3200)"
    unfolding dir_ok_def image_dir(2) bs using image_readable[of "image_inode 3200" 1024] image_entries(2) image_file_bytes[OF image_inodes(3), of 1024]
    by (simp add: image_inodes)
  hence "good_dir (0, 0, 7168) (disk_blocks ex_image) ex_volume {3} (image_inode 3200)"
    unfolding good_dir_def image_dir bs by (simp add: image_inodes S_ISDIR_def)
  moreover have "e_root_inode ex_volume = image_inode 3200" by (simp add: image_volume)
  ultimately show ?thesis by (simp add: sound_def image_sane image_valid image_inode_at image_inodes S_ISDIR_def S_ISLNK_def)
qed

lemma resolve_4: "resolve 4 e V dir path = steps e V (resolve 3 e V) dir (components path)"
proof -
  have "(4 :: nat) = Suc 3" by simp
  thus ?thesis by (simp only: resolve.simps(2))
qed

lemma image_resolve: "resolve 4 ex_volume (disk_blocks ex_image) (e_root_inode ex_volume) [47, 102] = Inr 3"
proof -
  have "unat (ext2_bs ex_volume) = 1024" "e_root_inode ex_volume = image_inode 3200" by (simp_all add: image_volume image_block_size)
  hence "dir_find ex_volume (disk_blocks ex_image) (e_root_inode ex_volume) [102] = Some 3"
    using image_dir by (simp add: dir_find_def)
  moreover have "components [47, 102] = [[102]]" by (simp add: components_def comp_list.simps)
  ultimately show ?thesis by (simp add: resolve_4 follow_def Let_def image_inode_at image_inodes S_ISLNK_def)
qed

section \<open>Theorems\<close>

text \<open>
  C22: Mounting, opening and reading work together. On a device that holds a sound ext2 volume, \<^verbatim>\<open>ext2_mount\<close> succeeds; then
  \<^verbatim>\<open>ext2_open_file\<close> finds the inode that a path resolves to, and \<^verbatim>\<open>ext2_read_file\<close> of a regular file returns
  the number of bytes up to the end of the file and stores exactly the bytes of the file, from direct and
  indirect blocks and with zeros for holes, whatever the state of the block cache.
\<close>

theorem ext2_mount_open_read:
  assumes "window s dev r base n" "D = window_data r base n s" "mountable (r, base, n) D"
    and "\<forall>k. length (junk k) = k" "\<forall>i < 4. length (snd (cjunk i)) = unat (EXT2_BLOCK_SIZE (disk_super D))"
    and "e = disk_volume D (inode_at (disk_volume D root) (disk_blocks D) 2)" "sound (r, base, n) (disk_blocks D) e G"
    and "terminated path" "resolve 4 e (disk_blocks D) (e_root_inode e) (take 511 (cstr path)) = Inr i"
    and "inode = inode_at e (disk_blocks D) i" "S_ISREG (i_mode inode)" "unat (ext2_file_len e inode) < 2 ^ 63"
    and "unat offset < 2 ^ 63" "unat offset + unat len < 2 ^ 64" "k = min (unat len) (unat (ext2_file_len e inode) - unat offset)"
    and "k \<le> length buf" "k < 2 ^ 31" "file_readable (r, base, n) (disk_blocks D) e inode (unat offset) k"
  shows "\<exists>c s' cs cs'. ext2_mount junk cjunk dev s = Some (0, Some (e, c), s') \<and>
    ext2_open_file junk e path (c, s') = Some (0, Some inode, cs) \<and>
    ext2_read_file junk e inode buf offset len cs =
      Some (int k, overwrite buf 0 (file_bytes (unat (ext2_bs e)) (disk_blocks D) inode (unat offset) k), cs')"
proof -
  have ia: "inode_at (disk_volume D x) V i = inode_at (disk_volume D y) V i" for x y V i by (simp add: inode_at_def inode_pos_def disk_volume_def)
  have sb: "e_sb e = disk_super D" by (simp add: assms(6) disk_volume_def)
  obtain c s' where m: "ext2_mount junk cjunk dev s = Some (0, Some (e, c), s')" "vol (r, base, n) (disk_blocks D) (unat (ext2_bs e)) (c, s')"
    using ext2_mount_ok[OF assms(1-5)] ia unfolding assms(6) sb by (metis assms(6) sb)
  obtain cs where o: "ext2_open_file junk e path (c, s') = Some (0, Some inode, cs)" "vol (r, base, n) (disk_blocks D) (unat (ext2_bs e)) cs"
    using open_file_ok[OF assms(7,4,8) m(2) assms(9)] assms(10) by blast
  obtain cs' where "ext2_read_inode junk e inode buf offset len cs =
      Some (int k, overwrite buf 0 (file_bytes (unat (ext2_bs e)) (disk_blocks D) inode (unat offset) k), cs')"
    using read_inode_ok[OF o(2) refl assms(4) refl assms(12-18)] by blast
  hence "ext2_read_file junk e inode buf offset len cs =
      Some (int k, overwrite buf 0 (file_bytes (unat (ext2_bs e)) (disk_blocks D) inode (unat offset) k), cs')"
    using assms(11) by (simp add: ext2_read_file_def)
  with m(1) o(1) show ?thesis by blast
qed

theorem ext2_mount_open_read_witness:
  "\<exists>c s' cs cs'. ext2_mount (\<lambda>k. replicate k 9) (\<lambda>_. (0, replicate 1024 9)) 0 image_bio = Some (0, Some (ex_volume, c), s') \<and>
    ext2_open_file (\<lambda>k. replicate k 9) ex_volume [47, 102, 0] (c, s') = Some (0, Some (image_inode 3328), cs) \<and>
    ext2_read_file (\<lambda>k. replicate k 9) ex_volume (image_inode 3328) [1, 1, 1, 1] 0 4 cs = Some (4, [104, 101, 108, 108], cs')"
proof -
  let ?i = "image_inode 3328" let ?w = "(0, 0, 7168) :: nat \<times> nat \<times> nat"
  have e: "ex_volume = disk_volume ex_image (inode_at (disk_volume ex_image root) (disk_blocks ex_image) 2)" for root by (simp add: image_inode_at)
  have f: "unat (ext2_file_len ex_volume ?i) = 5" by (simp add: ext2_file_len_def image_volume image_super image_inodes)
  have b: "unat (ext2_bs ex_volume) = 1024" by (simp add: image_volume image_block_size)
  have i: "?i = inode_at ex_volume (disk_blocks ex_image) 3" by (simp add: image_inode_at)
  have "file_bytes 1024 (disk_blocks ex_image) ?i 0 4 = [104, 101, 108, 108]"
    using image_file_bytes[OF image_inodes(6), of 4] by (simp add: upt_rec image_byte_def image_table_def)
  hence o: "overwrite [1, 1, 1, 1] 0 (file_bytes 1024 (disk_blocks ex_image) ?i 0 4) = [104, 101, 108, 108]" by (simp add: overwrite_def)
  let ?j = "\<lambda>k. replicate k (9 :: u8)" let ?cj = "\<lambda>_ :: nat. (0 :: u32, replicate 1024 (9 :: u8))"
  have j: "\<forall>k. length (?j k) = k" "\<forall>i < 4. length (snd (?cj i)) = unat (EXT2_BLOCK_SIZE (disk_super ex_image))"
    by (simp_all add: image_block_size)
  have p: "terminated [47, 102, 0]" "resolve 4 ex_volume (disk_blocks ex_image) (e_root_inode ex_volume) (take 511 (cstr [47, 102, 0])) = Inr 3"
    using image_resolve by simp_all
  have m: "S_ISREG (i_mode ?i)" by (simp add: image_inodes S_ISREG_def)
  have n: "unat (ext2_file_len ex_volume ?i) < 2 ^ 63" "unat (0 :: u64) < 2 ^ 63" "unat (0 :: u64) + unat (4 :: u64) < 2 ^ 64"
    "4 = min (unat (4 :: u64)) (unat (ext2_file_len ex_volume ?i) - unat (0 :: u64))" "4 \<le> length [1, 1, 1, 1 :: u8]" "(4 :: nat) < 2 ^ 31"
    unfolding f by simp_all
  have r: "file_readable ?w (disk_blocks ex_image) ex_volume ?i (unat (0 :: u64)) 4" using image_readable[of ?i 4] by (simp add: image_inodes)
  show ?thesis
    using ext2_mount_open_read[where junk = ?j and cjunk = ?cj, OF image_window image_data[symmetric] image_mountable j e[of undefined] image_sound p i m n r]
    unfolding b unat_0 o by (simp only: of_nat_numeral)
qed

text \<open>
  C23: The lookup of a path terminates and resolves it. On a sound volume \<^verbatim>\<open>ext2_lookup\<close> always returns, leaves no pointer into the
  block cache behind, and gives what the contents of the directories say: component by component the first
  entry of that name, symbolic links followed from their directory or from the root, at most four
  levels deep. An error is negative; a number that is found belongs to the volume and is not a link.
\<close>

theorem ext2_lookup_correct:
  assumes "sound w V e G" "\<forall>n. length (junk n) = n" "terminated path" "vol w V (unat (ext2_bs e)) cs"
  shows "\<exists>err inum' cs'. ext2_lookup junk e path inum cs = Some (err, inum', cs') \<and> vol w V (unat (ext2_bs e)) cs' \<and>
    (case resolve 4 e V (e_root_inode e) (take 511 (cstr path)) of
       Inl x \<Rightarrow> err = x \<and> x < 0
     | Inr i \<Rightarrow> err = 0 \<and> inum' = i \<and> i \<in> G \<and> \<not> S_ISLNK (i_mode (inode_at e V i)))"
  using lookup_ok[OF assms, of inum] unfolding code_of_def result_ok_def by (fastforce split: sum.splits)

lemma image_missing: "resolve 4 ex_volume (disk_blocks ex_image) (e_root_inode ex_volume) [103] = Inl (-1)"
proof -
  have "unat (ext2_bs ex_volume) = 1024" "e_root_inode ex_volume = image_inode 3200" by (simp_all add: image_volume image_block_size)
  hence "dir_find ex_volume (disk_blocks ex_image) (e_root_inode ex_volume) [103] = None" using image_dir by (simp add: dir_find_def)
  moreover have "components [103] = [[103]]" by (simp add: components_def comp_list.simps)
  ultimately show ?thesis by (simp add: resolve_4)
qed

theorem ext2_lookup_correct_witness:
  "\<exists>c s' cs' inum. ext2_mount (\<lambda>k. replicate k 9) (\<lambda>_. (0, replicate 1024 9)) 0 image_bio = Some (0, Some (ex_volume, c), s') \<and>
    ext2_lookup (\<lambda>k. replicate k 9) ex_volume [103, 0] 0 (c, s') = Some (-1, inum, cs')"
proof -
  have j: "\<forall>k. length (replicate k (9 :: u8)) = k" "\<forall>i < 4. length (snd (0 :: u32, replicate 1024 (9 :: u8))) = unat (EXT2_BLOCK_SIZE (disk_super ex_image))"
    by (simp_all add: image_block_size)
  have b: "unat (EXT2_BLOCK_SIZE (disk_super ex_image)) = unat (ext2_bs ex_volume)" by (simp add: image_volume)
  obtain c s' where m: "ext2_mount (\<lambda>k. replicate k 9) (\<lambda>_. (0, replicate 1024 9)) 0 image_bio = Some (0, Some (ex_volume, c), s')"
    "vol (0, 0, 7168) (disk_blocks ex_image) (unat (ext2_bs ex_volume)) (c, s')"
    using ext2_mount_ok[OF image_window image_data[symmetric] image_mountable, of "\<lambda>k. replicate k 9" "\<lambda>_. (0, replicate 1024 9)"] j
    unfolding b image_inode_at by auto
  have t: "terminated [103, 0]" by simp
  show ?thesis using m(1) ext2_lookup_correct[OF image_sound j(1) t m(2), of 0] image_missing by auto
qed

end
