(* ===== verification/LK_Init.thy ===== *)
theory LK_Init
  imports LK_Prelude "HOL-Library.Product_Lexorder"
begin

text \<open>
  The init hooks (\<^verbatim>\<open>top/init.c\<close>). The table that the linker collects is a list; a hook is named by its index.
  What the hooks do is a parameter: \<open>run j l s\<close> is the state of the system after the call of the hook \<open>j\<close>
  with the level \<open>l\<close>.
\<close>

section \<open>The code\<close>

record lk_init_struct =
  is_level :: u32
  is_name :: string

text \<open>
  The inner loop: \<open>i\<close> is the index of \<^verbatim>\<open>ptr\<close>, \<open>found\<close> the index and the level of \<^verbatim>\<open>found\<close>.
\<close>

fun find_hook :: "u32 \<Rightarrow> u32 \<Rightarrow> u32 \<Rightarrow> nat option \<Rightarrow> nat \<Rightarrow> lk_init_struct list \<Rightarrow> (nat \<times> u32) option \<Rightarrow> bool \<Rightarrow> (nat \<times> u32) option" where
  "find_hook level last_init_level last_called_level last_hook i [] found seen_last = found"
| "find_hook level last_init_level last_called_level last_hook i (ptr # ptrs) found seen_last =
     (let seen_last = (seen_last \<or> last_hook = Some i);
          continue = find_hook level last_init_level last_called_level last_hook (Suc i) ptrs
      in if level < is_level ptr then continue found seen_last
         else if is_level ptr < last_called_level then continue found seen_last
         else if found \<noteq> None \<and> snd (the found) \<le> is_level ptr then continue found seen_last
         else if last_init_level < is_level ptr \<and> last_called_level < is_level ptr then continue (Some (i, is_level ptr)) seen_last
         else if is_level ptr = last_called_level \<and> last_hook \<noteq> Some i \<and> seen_last then Some (i, is_level ptr)
         else continue found seen_last)"

partial_function (option) init_loop ::
  "(nat \<Rightarrow> u32 \<Rightarrow> 's \<Rightarrow> 's) \<Rightarrow> lk_init_struct list \<Rightarrow> u32 \<Rightarrow> u32 \<Rightarrow> u32 \<Rightarrow> nat option \<Rightarrow> 's \<Rightarrow> 's option" where
  "init_loop run hooks level last_init_level last_called_level last_hook s =
     (case find_hook level last_init_level last_called_level last_hook 0 hooks None False of
        None \<Rightarrow> Some s
      | Some (j, l) \<Rightarrow> init_loop run hooks level last_init_level l (Some j) (run j l s))"

text \<open>The state is \<^verbatim>\<open>last_init_level\<close> and the system.\<close>

definition lk_init_level :: "(nat \<Rightarrow> u32 \<Rightarrow> 's \<Rightarrow> 's) \<Rightarrow> lk_init_struct list \<Rightarrow> u32 \<Rightarrow> u32 \<times> 's \<Rightarrow> (int \<times> u32 \<times> 's) option" where
  "lk_init_level run hooks level = (\<lambda>(last_init_level, s). do {
     s \<leftarrow> init_loop run hooks level last_init_level last_init_level None s;
     Some (0, level, s)
   })"

section \<open>The order of the calls\<close>

text \<open>The hooks of a range of levels, by level and by their place in the table.\<close>

definition key :: "lk_init_struct list \<Rightarrow> nat \<Rightarrow> u32 \<times> nat" where
  "key hooks j = (is_level (hooks ! j), j)"

definition due :: "lk_init_struct list \<Rightarrow> u32 \<Rightarrow> u32 \<Rightarrow> nat set" where
  "due hooks a b = {j. j < length hooks \<and> a < is_level (hooks ! j) \<and> is_level (hooks ! j) \<le> b}"

definition in_order :: "lk_init_struct list \<Rightarrow> u32 \<Rightarrow> u32 \<Rightarrow> nat list" where
  "in_order hooks a b = sort_key (key hooks) (filter (\<lambda>j. j \<in> due hooks a b) [0..<length hooks])"

text \<open>What is still to be called after the hook \<open>last\<close>.\<close>

definition later :: "lk_init_struct list \<Rightarrow> u32 \<Rightarrow> u32 \<Rightarrow> u32 \<Rightarrow> nat option \<Rightarrow> nat set" where
  "later hooks level li lc lst = {k \<in> due hooks li level. lc < is_level (hooks ! k) \<or> is_level (hooks ! k) = lc \<and> (\<exists>j. lst = Some j \<and> j < k)}"

text \<open>The hook that the inner loop looks for.\<close>

definition least :: "lk_init_struct list \<Rightarrow> nat set \<Rightarrow> (nat \<times> u32) option \<Rightarrow> bool" where
  "least hooks R r \<longleftrightarrow> (case r of None \<Rightarrow> R = {} | Some (k, l) \<Rightarrow> k \<in> R \<and> l = is_level (hooks ! k) \<and> (\<forall>k'\<in>R. key hooks k \<le> key hooks k'))"

lemma find_hook_least:
  assumes "li \<le> lc" "lst = None \<longrightarrow> lc = li" "\<forall>j. lst = Some j \<longrightarrow> li < lc"
    and "drop i hooks = ptrs" "i \<le> length hooks" "seen = (\<exists>j. lst = Some j \<and> j < i)"
    and "least hooks {k \<in> later hooks level li lc lst. k < i} found" "\<forall>k\<in>later hooks level li lc lst. k < i \<longrightarrow> lc < is_level (hooks ! k)"
  shows "least hooks (later hooks level li lc lst) (find_hook level li lc lst i ptrs found seen)"
  using assms(4-8)
proof (induction ptrs arbitrary: i found seen)
  case Nil
  have "length hooks \<le> i" using Nil(1) by simp
  hence "{k \<in> later hooks level li lc lst. k < i} = later hooks level li lc lst" by (auto simp: later_def due_def)
  thus ?case using Nil(4) by simp
next
  case (Cons p ptrs)
  let ?R = "later hooks level li lc lst"
  have il: "i < length hooks" using Cons.prems(1) by (cases "i < length hooks") auto
  hence i: "i < length hooks" "hooks ! i = p" "drop (Suc i) hooks = ptrs" using Cons_nth_drop_Suc[OF il] Cons.prems(1) by auto
  let ?seen = "seen \<or> lst = Some i"
  have s: "?seen = (\<exists>j. lst = Some j \<and> j < Suc i)" using Cons.prems(3) by (auto simp: less_Suc_eq)
  note IH = Cons.IH[OF i(3) _ s]
  have split: "{k \<in> ?R. k < Suc i} = (if i \<in> ?R then insert i {k \<in> ?R. k < i} else {k \<in> ?R. k < i})" by (auto simp: less_Suc_eq)
  have out: "least hooks ?R (find_hook level li lc lst (Suc i) ptrs found ?seen)" if "i \<notin> ?R"
  proof (rule IH)
    show "Suc i \<le> length hooks" using il by simp
    show "least hooks {k \<in> ?R. k < Suc i} found" using split Cons.prems(4) that by simp
    show "\<forall>k\<in>?R. k < Suc i \<longrightarrow> lc < is_level (hooks ! k)" using Cons.prems(5) that by (metis less_antisym)
  qed
  let ?l = "is_level p"
  have R: "i \<in> ?R \<longleftrightarrow> li < ?l \<and> ?l \<le> level \<and> (lc < ?l \<or> ?l = lc \<and> seen)" using i Cons.prems(3) by (simp add: later_def due_def)
  consider "level < ?l \<or> ?l < lc" | "lc \<le> ?l" "?l \<le> level" "found \<noteq> None" "snd (the found) \<le> ?l"
    | "lc < ?l" "?l \<le> level" "found \<noteq> None \<longrightarrow> ?l < snd (the found)"
    | "?l = lc" "?l \<le> level" "found \<noteq> None \<longrightarrow> ?l < snd (the found)" by fastforce
  thus ?case
  proof cases
    case 1
    hence "i \<notin> ?R" using R by auto
    from out[OF this] 1 show ?thesis by (auto simp: Let_def)
  next
    case 2
    then obtain k lk where f: "found = Some (k, lk)" by (cases found) auto
    have k: "k \<in> ?R" "k < i" "lk = is_level (hooks ! k)" "\<forall>k'\<in>?R. k' < i \<longrightarrow> key hooks k \<le> key hooks k'" "lc < lk"
      using Cons.prems(4,5) f by (auto simp: least_def)
    have "key hooks k \<le> key hooks i" using 2 f k i by (auto simp: key_def less_eq_prod_def)
    hence "least hooks {k \<in> ?R. k < Suc i} found" using k f by (auto simp: least_def less_Suc_eq)
    moreover have "\<forall>k\<in>?R. k < Suc i \<longrightarrow> lc < is_level (hooks ! k)" using Cons.prems(5) k(5) 2(4) f i by (auto simp: less_Suc_eq)
    ultimately have "least hooks ?R (find_hook level li lc lst (Suc i) ptrs found ?seen)" using IH i by simp
    thus ?thesis using 2 by (simp add: Let_def)
  next
    case 3
    hence "i \<in> ?R" using R assms(1) by auto
    moreover have "key hooks i \<le> key hooks k'" if "k' \<in> ?R" "k' < i" for k'
    proof (cases found)
      case None
      thus ?thesis using Cons.prems(4) that by (auto simp: least_def)
    next
      case (Some f)
      hence "?l < is_level (hooks ! fst f)" "key hooks (fst f) \<le> key hooks k'" using 3 Cons.prems(4) that by (auto simp: least_def split: prod.splits)
      thus ?thesis using i by (auto simp: key_def less_eq_prod_def)
    qed
    ultimately have "least hooks {k \<in> ?R. k < Suc i} (Some (i, ?l))" using i by (auto simp: least_def less_Suc_eq)
    moreover have "\<forall>k\<in>?R. k < Suc i \<longrightarrow> lc < is_level (hooks ! k)" using Cons.prems(5) 3 i by (auto simp: less_Suc_eq)
    ultimately have "least hooks ?R (find_hook level li lc lst (Suc i) ptrs (Some (i, ?l)) ?seen)" using IH i by simp
    thus ?thesis using 3 assms(1) by (auto simp: Let_def)
  next
    case 4
    show ?thesis
    proof (cases "seen")
      case True
      hence j: "\<exists>j. lst = Some j \<and> j < i" "lst \<noteq> Some i" "i \<in> ?R" using Cons.prems(3) R 4 assms(3) by auto
      have "key hooks i \<le> key hooks k" if "k \<in> ?R" for k
      proof (cases "k < i")
        case True
        thus ?thesis using Cons.prems(5) that 4 i by (auto simp: key_def less_eq_prod_def)
      next
        case False
        thus ?thesis using that 4 i by (auto simp: later_def key_def less_eq_prod_def)
      qed
      hence "least hooks ?R (Some (i, ?l))" using j i by (simp add: least_def)
      thus ?thesis using 4 True j by (auto simp: Let_def)
    next
      case False
      hence "i \<notin> ?R" using R 4 by auto
      from out[OF this] show ?thesis using 4 False by (auto simp: Let_def)
    qed
  qed
qed

lemma in_order_set: "set (in_order hooks a b) = due hooks a b" "distinct (in_order hooks a b)" "sorted (map (key hooks) (in_order hooks a b))"
  by (auto simp: in_order_def due_def)

lemma inj_key: "inj_on (key hooks) A"
  by (rule inj_onI) (simp add: key_def)

lemma later_rest:
  assumes L: "in_order hooks li level = pre @ rest" and l: "lst = (if pre = [] then None else Some (last pre))"
    and c: "lc = (if pre = [] then li else is_level (hooks ! last pre))"
  shows "later hooks level li lc lst = set rest"
proof (cases "pre = []")
  case True
  thus ?thesis using in_order_set(1)[of hooks li level] L l c by (auto simp: later_def due_def)
next
  case False
  let ?p = "last pre"
  have d: "due hooks li level = set pre \<union> set rest" using in_order_set(1)[of hooks li level] L by auto
  have srt: "sorted (map (key hooks) (pre @ rest))" "distinct (pre @ rest)" using in_order_set(2,3)[of hooks li level] L by metis+
  have p: "?p \<in> set pre" using False by simp
  have lt: "key hooks ?p < key hooks k \<longleftrightarrow> lc < is_level (hooks ! k) \<or> is_level (hooks ! k) = lc \<and> ?p < k" for k
    using c False by (auto simp: key_def less_prod_def')
  have gt: "key hooks ?p < key hooks k" if "k \<in> set rest" for k
  proof -
    have "key hooks ?p \<le> key hooks k" "?p \<noteq> k" using srt p that by (auto simp: sorted_append)
    moreover have "key hooks ?p \<noteq> key hooks k" using calculation(2) by (simp add: key_def)
    ultimately show ?thesis by (simp add: order.strict_iff_order)
  qed
  have le: "\<not> key hooks ?p < key hooks k" if "k \<in> set pre" for k
  proof -
    obtain q where q: "pre = q @ [?p]" using False append_butlast_last_id by metis
    have "sorted (map (key hooks) pre)" using srt(1) by (simp add: sorted_append)
    hence "\<forall>x\<in>set q. key hooks x \<le> key hooks ?p" by (subst (asm) q) (simp add: sorted_append)
    moreover have "k \<in> set q \<or> k = ?p" using that by (subst (asm) q) auto
    ultimately show ?thesis by auto
  qed
  have "k \<in> set rest \<longleftrightarrow> k \<in> due hooks li level \<and> key hooks ?p < key hooks k" for k
    using gt[of k] le[of k] d by blast
  thus ?thesis unfolding lt using l False by (auto simp: later_def)
qed

lemma next_hook:
  assumes "in_order hooks li level = pre @ rest" "lst = (if pre = [] then None else Some (last pre))" "lc = (if pre = [] then li else is_level (hooks ! last pre))"
  shows "find_hook level li lc lst 0 hooks None False = (case rest of [] \<Rightarrow> None | j # _ \<Rightarrow> Some (j, is_level (hooks ! j)))"
proof -
  have "set pre \<subseteq> due hooks li level" unfolding in_order_set(1)[symmetric] assms(1) by simp
  hence "pre \<noteq> [] \<longrightarrow> last pre \<in> due hooks li level" using last_in_set[of pre] by blast
  hence "pre \<noteq> [] \<longrightarrow> li < lc" using assms(3) by (auto simp: due_def)
  hence l: "li \<le> lc" "lst = None \<longrightarrow> lc = li" "\<forall>j. lst = Some j \<longrightarrow> li < lc" using assms(2,3) by (cases "pre = []"; simp)+
  have "least hooks (set rest) (find_hook level li lc lst 0 hooks None False)"
    using find_hook_least[OF l, of 0 hooks hooks False level None] later_rest[OF assms] by (simp add: least_def)
  moreover have "key hooks j \<le> key hooks k" if "rest = j # ks" "k \<in> set rest" for j ks k
    using in_order_set(3)[of hooks li level] assms(1) that by (auto simp: sorted_append)
  moreover have "x = y" if "key hooks x \<le> key hooks y" "key hooks y \<le> key hooks x" for x y
    using that by (auto simp: key_def less_eq_prod_def)
  ultimately show ?thesis by (cases rest) (fastforce simp: least_def split: option.splits)+
qed

text \<open>The loop calls what remains, in order.\<close>

lemma init_loop_ok:
  assumes "in_order hooks li level = pre @ rest" "lst = (if pre = [] then None else Some (last pre))" "lc = (if pre = [] then li else is_level (hooks ! last pre))"
  shows "init_loop run hooks level li lc lst s = Some (fold (\<lambda>j. run j (is_level (hooks ! j))) rest s)"
  using assms
proof (induction rest arbitrary: pre lst lc s)
  case (Nil pre lst lc s)
  note f = next_hook[OF Nil]
  show ?case using f by (subst init_loop.simps) simp
next
  case (Cons j rest pre lst lc s)
  note f = next_hook[OF Cons.prems]
  have "init_loop run hooks level li (is_level (hooks ! j)) (Some j) (run j (is_level (hooks ! j)) s) =
      Some (fold (\<lambda>j. run j (is_level (hooks ! j))) rest (run j (is_level (hooks ! j)) s))"
    by (rule Cons.IH[of "pre @ [j]"]) (use Cons.prems in simp_all)
  thus ?case using f by (subst init_loop.simps) simp
qed

lemma key_order_unique:
  assumes "distinct xs" "distinct ys" "sorted (map (key hooks) xs)" "sorted (map (key hooks) ys)" "set xs = set ys"
  shows "xs = ys"
proof -
  have "distinct (map (key hooks) zs)" if "distinct zs" for zs using that inj_key by (simp add: distinct_map)
  moreover have "set (map (key hooks) xs) = set (map (key hooks) ys)" unfolding set_map assms(5) ..
  ultimately have "map (key hooks) xs = map (key hooks) ys" using assms(1-4) by (intro sorted_distinct_set_unique)
  thus ?thesis by (rule map_injective) (rule inj_key)
qed

lemma in_order_split:
  assumes "a \<le> b" "b \<le> c"
  shows "in_order hooks a c = in_order hooks a b @ in_order hooks b c"
proof -
  have "due hooks a c = due hooks a b \<union> due hooks b c" using assms by (auto simp: due_def)
  hence s: "set (in_order hooks a c) = set (in_order hooks a b @ in_order hooks b c)" by (simp add: in_order_set(1))
  have le: "key hooks x \<le> key hooks y" "x \<noteq> y" if "x \<in> due hooks a b" "y \<in> due hooks b c" for x y
    using that by (auto simp: due_def key_def less_eq_prod_def)
  have "distinct (in_order hooks a b @ in_order hooks b c)" using le(2) by (auto simp: in_order_set)
  moreover have "sorted (map (key hooks) (in_order hooks a b @ in_order hooks b c))"
    using le(1) by (auto simp: in_order_set sorted_append)
  ultimately show ?thesis using s in_order_set(2,3)[of hooks a c] by (intro key_order_unique) auto
qed

text \<open>The calls of \<^verbatim>\<open>lk_main\<close> and \<^verbatim>\<open>bootstrap2\<close>: one level after the other.\<close>

fun init_levels :: "(nat \<Rightarrow> u32 \<Rightarrow> 's \<Rightarrow> 's) \<Rightarrow> lk_init_struct list \<Rightarrow> u32 list \<Rightarrow> u32 \<times> 's \<Rightarrow> (u32 \<times> 's) option" where
  "init_levels run hooks [] st = Some st"
| "init_levels run hooks (level # levels) st = do { (_, st) \<leftarrow> lk_init_level run hooks level st; init_levels run hooks levels st }"

lemma lk_init_level_ok:
  "lk_init_level run hooks b (a, s) = Some (0, b, fold (\<lambda>j. run j (is_level (hooks ! j))) (in_order hooks a b) s)"
  using init_loop_ok[of hooks a b "[]" "in_order hooks a b" None a run s] by (simp add: lk_init_level_def)

lemma init_levels_ok:
  "sorted (a # levels) \<Longrightarrow> init_levels run hooks levels (a, s) =
     Some (last (a # levels), fold (\<lambda>j. run j (is_level (hooks ! j))) (in_order hooks a (last (a # levels))) s)"
proof (induction levels arbitrary: a s)
  case Nil
  have "due hooks a a = {}" by (auto simp: due_def)
  hence "in_order hooks a a = []" using in_order_set(1)[of hooks a a] by simp
  thus ?case by simp
next
  case (Cons b levels)
  have "b \<le> last (b # levels)" using Cons.prems by (metis last_in_set list.distinct(1) set_ConsD sorted_simps(2) order_refl)
  moreover have "a \<le> b" "sorted (b # levels)" using Cons.prems by auto
  ultimately show ?case using Cons.IH[of b] in_order_split[of a b "last (b # levels)" hooks] by (simp add: lk_init_level_ok)
qed

section \<open>Theorem\<close>

text \<open>
  C25: The initialisation terminates and calls every hook once. For increasing levels the calls of \<^verbatim>\<open>lk_init_level\<close> return, and
  together they call exactly the hooks above the level reached before and up to the last one, each once, by
  increasing level and in the order of the table within a level, whatever the hooks do and however the table is ordered.
\<close>

theorem lk_init_order:
  assumes "sorted (a # levels)"
  shows "\<exists>js. init_levels run hooks levels (a, s) = Some (last (a # levels), fold (\<lambda>j. run j (is_level (hooks ! j))) js s) \<and>
    distinct js \<and> set js = {j. j < length hooks \<and> a < is_level (hooks ! j) \<and> is_level (hooks ! j) \<le> last (a # levels)} \<and>
    sorted_wrt (\<lambda>i j. is_level (hooks ! i) < is_level (hooks ! j) \<or> is_level (hooks ! i) = is_level (hooks ! j) \<and> i < j) js"
proof -
  let ?js = "in_order hooks a (last (a # levels))"
  note js = in_order_set[of hooks a "last (a # levels)"]
  have "sorted_wrt (<) (map (key hooks) ?js)" using js(2,3) inj_key by (simp add: strict_sorted_iff distinct_map)
  hence "sorted_wrt (\<lambda>i j. key hooks i < key hooks j) ?js" by (simp add: sorted_wrt_map)
  hence srt: "sorted_wrt (\<lambda>i j. is_level (hooks ! i) < is_level (hooks ! j) \<or> is_level (hooks ! i) = is_level (hooks ! j) \<and> i < j) ?js"
    by (simp only: key_def less_prod_def' fst_conv snd_conv)
  show ?thesis by (intro exI[of _ ?js] conjI) (rule init_levels_ok[OF assms], rule js(2), rule js(1)[unfolded due_def], rule srt)
qed

theorem lk_init_order_witness:
  "\<exists>js. init_levels (\<lambda>j l s. s @ [(j, l)]) [\<lparr>is_level = 5, is_name = ''b''\<rparr>, \<lparr>is_level = 3, is_name = ''a''\<rparr>, \<lparr>is_level = 9, is_name = ''c''\<rparr>] [3, 6] (0, []) =
      Some (6, js) \<and> map fst js = [1, 0]"
proof -
  let ?h = "[\<lparr>is_level = 5, is_name = ''b''\<rparr>, \<lparr>is_level = 3, is_name = ''a''\<rparr>, \<lparr>is_level = 9, is_name = ''c''\<rparr>]"
  let ?run = "\<lambda>j l s. s @ [(j, l)]"
  obtain js where js: "init_levels ?run ?h [3, 6] (0, []) = Some (6, fold (\<lambda>j. ?run j (is_level (?h ! j))) js [])" "distinct js"
    "set js = {j. j < length ?h \<and> 0 < is_level (?h ! j) \<and> is_level (?h ! j) \<le> 6}"
    "sorted_wrt (\<lambda>i j. is_level (?h ! i) < is_level (?h ! j) \<or> is_level (?h ! i) = is_level (?h ! j) \<and> i < j) js"
    using lk_init_order[of 0 "[3, 6]" ?run ?h "[]"] by (simp only: last.simps) force
  have "{j. j < length ?h \<and> 0 < is_level (?h ! j) \<and> is_level (?h ! j) \<le> 6} = {0, 1}"
    by (auto simp: less_Suc_eq nth_Cons')
  hence s: "set js = {0, 1}" using js(3) by simp
  have "length js = 2" using distinct_card[OF js(2)] s by simp
  then obtain x y where xy: "js = [x, y]" by (metis length_0_conv length_Suc_conv numeral_2_eq_2)
  hence "x = 0 \<and> y = 1 \<or> x = 1 \<and> y = 0" using s by (simp add: doubleton_eq_iff)
  moreover have "\<not> (x = 0 \<and> y = 1)"
  proof
    assume "x = 0 \<and> y = 1"
    thus False using js(4) xy by simp
  qed
  ultimately have "js = [1, 0]" using xy by blast
  thus ?thesis using js(1) by (auto simp del: init_levels.simps)
qed

end
