(* ===== verification/Spec2Isabelle.thy ===== *)
theory Spec2Isabelle
  imports LK_Results LK_Cbuf LK_Heap LK_Bcache LK_Printf LK_Fs LK_Ext2_Dir LK_Init
begin

text \<open>
  LK, the small kernel inside the cboot bootloader: a verification library.

  \<^bold>\<open>The program.\<close> LK is a preemptive single-core kernel written in C: threads with priorities, wait queues, timers,
  mutexes, semaphores and events (\<^verbatim>\<open>kernel/\<close>); a heap, a circular buffer and a C library (\<^verbatim>\<open>lib/heap\<close>, \<^verbatim>\<open>lib/cbuf\<close>,
  \<^verbatim>\<open>lib/libc\<close>); a stack for storage, from block devices (\<^verbatim>\<open>lib/bio\<close>) through a block cache (\<^verbatim>\<open>lib/bcache\<close>) and the ext2 file
  system (\<^verbatim>\<open>lib/fs/ext2\<close>) to the file system layer (\<^verbatim>\<open>lib/fs\<close>); and a start-up sequence of hooks (\<^verbatim>\<open>top/init.c\<close>). The
  configuration is that of the tree: 64-bit ARM, little endian, unsigned \<^verbatim>\<open>char\<close>, \<^verbatim>\<open>DEBUG=2\<close>.

  \<^bold>\<open>Conventions.\<close> Every definition that translates code has the name of the C function or type (a suffix or a prefix where the
  name is taken). A function that may panic, fail an assertion or leave the bounds of an object returns an
  \<open>option\<close>, and \<open>None\<close> is that event; error codes are the negative numbers of \<^verbatim>\<open>include/err.h\<close>. Machine integers keep
  their width (\<open>u8\<close> to \<open>u64\<close>). Linked lists that run through the objects themselves are sequences of the objects' names.
  Loops are structural recursions, functions with a termination proof, or \<open>partial_function (option)\<close>; for the last
  kind each theorem states that the function returns. No fuel is used. What new memory holds is a
  parameter (\<open>junk\<close>), and so are the operations of a file system below the file system layer and the init hooks.

  \<^bold>\<open>Theories.\<close>

  \<^item> \<^verbatim>\<open>LK_Prelude\<close>: machine types, status codes, \<^verbatim>\<open>ASSERT\<close>, copies between buffers, powers of two (\<^verbatim>\<open>include/err.h\<close>,
    \<^verbatim>\<open>include/pow2.h\<close>, \<^verbatim>\<open>include/sys/types.h\<close>).
  \<^item> \<^verbatim>\<open>LK_Timer\<close>: the timer queue (\<^verbatim>\<open>kernel/timer.c\<close>), sorted in a window of the wrapping clock.
  \<^item> \<^verbatim>\<open>LK_Kernel\<close>: the state of the kernel and every call of \<^verbatim>\<open>kernel/thread.c\<close>, \<^verbatim>\<open>mutex.c\<close>, \<^verbatim>\<open>semaphore.c\<close>, \<^verbatim>\<open>event.c\<close> and
    the interrupt entry. A context switch stores the rest of the interrupted call as a list of frames.
    \<^verbatim>\<open>LK_Invariant\<close>, \<^verbatim>\<open>LK_Sched\<close> and \<^verbatim>\<open>LK_Calls\<close> carry the invariant of the queues through every step, and
    \<^verbatim>\<open>LK_Results\<close> has the theorems: no assertion fails in a reachable state, the highest priority runs, yielding is round
    robin, the tick fires what is due, an event releases all waiters, and a lost wake-up of a mutex.
  \<^item> \<^verbatim>\<open>LK_Cbuf\<close>: the circular buffer (\<^verbatim>\<open>lib/cbuf/cbuf.c\<close>) refines a bounded queue (locale \<open>byte_queue\<close>).
  \<^item> \<^verbatim>\<open>LK_Heap\<close>: the allocator (\<^verbatim>\<open>lib/heap/heap.c\<close>): every history of calls is safe, allocations are aligned, inside
    and disjoint, and the free list coalesces completely (locale \<open>allocator\<close>).
  \<^item> \<^verbatim>\<open>LK_Bio\<close>: block devices (\<^verbatim>\<open>lib/bio/bio.c\<close>, \<^verbatim>\<open>mem.c\<close>, \<^verbatim>\<open>subdev.c\<close>): every device is a window of some memory; the
    deblocking reads, writes and erases equal the direct ones (locales \<open>storage\<close>, \<open>block_device\<close>, \<open>byte_device\<close>).
  \<^item> \<^verbatim>\<open>LK_Bcache\<close>: the block cache (\<^verbatim>\<open>lib/bcache/bcache.c\<close>) refines an array of blocks and keeps the pointers it hands out valid.
  \<^item> \<^verbatim>\<open>LK_Ext2\<close>, \<^verbatim>\<open>LK_Ext2_Dir\<close>: ext2 (\<^verbatim>\<open>lib/fs/ext2\<close>) on the block cache. \<open>file_block\<close> is the tree of block pointers as a
    radix tree, \<open>file_bytes\<close> the contents of a file, \<open>resolve\<close> the meaning of a path; the code computes them.
  \<^item> \<^verbatim>\<open>LK_Libc\<close>, \<^verbatim>\<open>LK_Printf\<close>: the string functions, \<^verbatim>\<open>ctype.c\<close>, \<^verbatim>\<open>atoi.c\<close> and the formatted output of \<^verbatim>\<open>printf.c\<close>.
  \<^item> \<^verbatim>\<open>LK_Path\<close>, \<^verbatim>\<open>LK_Fs\<close>: the normalisation of paths and the layer of mounts and open files (\<^verbatim>\<open>lib/fs/fs.c\<close>). \<open>drivers_ok\<close> is what
    the layer relies on in the file systems.
  \<^item> \<^verbatim>\<open>LK_Init\<close>: the order of the init hooks (\<^verbatim>\<open>top/init.c\<close>).

  \<^bold>\<open>Hypotheses.\<close> The theorems on histories quantify over all sequences of calls that respect the rules of the interface: what was
  handed out is given back once, a pointer is used while it is held, blocks are on the device. The theorems on ext2
  assume a volume whose sizes are sane (blocks of 1, 2 or 4 KiB) and whose pointers and entries stay on
  the device; an example volume satisfies them. Bounds on lengths (below \<open>2 ^ 31\<close> or \<open>2 ^ 63\<close>) are those at which the C types
  change sign. Some theorems state defects: each says which input leads to the wrong result.

  \<^bold>\<open>Not modelled.\<close> Architecture, platform, target and driver code works on registers, page tables and caches and has no
  meaning outside the hardware. lwIP, FatFs and dlmalloc are imported packages of their own. Console, menus,
  graphics and debug commands only produce output. The applications (\<^verbatim>\<open>app/\<close>) call code that is not in the tree. Partition
  tables, checksums, the event log and deferred calls are small clients of modelled parts and are left out.
\<close>

end
